(* ===== verification/Prelude.thy ===== *)
theory Prelude
  imports Main "HOL-Library.Word"
begin

text \<open>
  Shared vocabulary of the development: the fixed-width integer names of
  \<^verbatim>\<open>include/cara/types.h\<close>, its error codes, and the byte-level memory the on-disk
  structures and the bitmaps live in.  A C buffer is a list of bytes; a struct laid over it
  is read and written with little-endian loads and stores at the struct's field offsets.
\<close>

unbundle bit_operations_syntax

section \<open>Integers and error codes\<close>

type_synonym u8 = "8 word"
type_synonym u16 = "16 word"
type_synonym u32 = "32 word"
type_synonym u64 = "64 word"

text \<open>
  The negative results of \<^verbatim>\<open>enum { CARA_EOK = 0, CARA_EINVAL = -1, ... }\<close>.  A function
  that returns \<^verbatim>\<open>CARA_EOK\<close> with an out-parameter is modelled with \<open>Inr\<close> of the out value,
  an error return with \<open>Inl\<close> of the code.
\<close>

datatype cara_err =
    CARA_EINVAL | CARA_ENOENT | CARA_ERANGE | CARA_EBADF | CARA_EAGAIN | CARA_ENOMEM
  | CARA_EBADMAGIC | CARA_EBADVERSION | CARA_EOVERFLOW | CARA_ENOTFOUND | CARA_EIO
  | CARA_EEXIST | CARA_ENOTEMPTY

type_synonym 'a result = "cara_err + 'a"

section \<open>Collections used by the component proofs\<close>

named_theorems layout \<comment> \<open>reads and writes of fields at byte offsets\<close>
named_theorems bitmap_simps \<comment> \<open>bitmaps seen as sets of set bits\<close>

section \<open>Word arithmetic\<close>

lemma unat_lt2p: "unat (w::'a::len word) < 2 ^ LENGTH('a)"
  by (rule unsigned_less)

lemma unat_pow2:
  assumes "k < LENGTH('a::len)"
  shows "unat (2 ^ k :: 'a word) = 2 ^ k"
proof -
  have "(2 ^ k :: 'a word) = of_nat (2 ^ k)" by simp
  then have "unat (2 ^ k :: 'a word) = 2 ^ k mod 2 ^ LENGTH('a)"
    by (simp only: unat_of_nat)
  with assms show ?thesis by simp
qed

lemma unat_Suc_less:
  fixes x c :: "'a::len word"
  assumes "x < c"
  shows "unat (x + 1) = Suc (unat x)"
proof -
  have "Suc (unat x) < 2 ^ LENGTH('a)"
    using assms unat_lt2p [of c] unfolding word_less_nat_alt by linarith
  then show ?thesis
    by (metis One_nat_def Suc_eq_plus1 unat_1 unat_add_lem)
qed

lemma unat_pred:
  fixes x :: "'a::len word"
  assumes "x \<noteq> 0"
  shows "unat (x - 1) = unat x - 1"
  using assms by (rule unat_minus_one)

lemma take_bit_small:
  fixes w :: "'a::len word"
  assumes "unat w < 2 ^ n"
  shows "take_bit n w = w"
proof -
  have "unat (take_bit n w) = take_bit n (unat w)" by (rule unsigned_take_bit_eq)
  also have "\<dots> = unat w" using assms by (rule take_bit_nat_eq_self)
  finally show ?thesis by (simp add: word_unat_eq_iff)
qed

lemma unat_ucast_up:
  fixes w :: "'a::len word"
  assumes "LENGTH('a) \<le> LENGTH('b::len)"
  shows "unat (ucast w :: 'b word) = unat w"
proof -
  have "unat w < 2 ^ LENGTH('b)"
    using unat_lt2p [of w] assms by (meson less_le_trans one_le_numeral power_increasing)
  then show ?thesis by (simp add: unsigned_ucast_eq take_bit_nat_eq_self)
qed

lemma ucast_sub_le:
  fixes x n :: "'a::len word"
  assumes "LENGTH('a) \<le> LENGTH('b::len)" and "n \<le> x"
  shows "(ucast (x - n) :: 'b word) = ucast x - ucast n"
proof -
  have "(ucast n :: 'b word) \<le> ucast x"
    using assms by (simp add: word_le_nat_alt unat_ucast_up)
  then show ?thesis
    using assms by (simp add: word_unat_eq_iff unat_ucast_up unat_sub)
qed

lemma ucast_add_nowrap:
  fixes x y :: "'a::len word"
  assumes "LENGTH('a) \<le> LENGTH('b::len)" and "unat x + unat y < 2 ^ LENGTH('a)"
  shows "(ucast (x + y) :: 'b word) = ucast x + ucast y"
proof -
  have s: "unat (x + y) = unat x + unat y" using assms(2) unat_add_lem by blast
  have "unat x + unat y < 2 ^ LENGTH('b)"
    using assms by (meson less_le_trans one_le_numeral power_increasing)
  then have "unat (ucast x + ucast y :: 'b word) = unat x + unat y"
    using unat_add_lem [of "ucast x :: 'b word" "ucast y"] assms(1) by (simp add: unat_ucast_up)
  with s show ?thesis using assms(1) by (simp add: word_unat_eq_iff unat_ucast_up)
qed

lemma pow2_less_imp: "(2::nat) ^ k < 2 ^ n \<Longrightarrow> k < n"
  by simp

section \<open>Lists\<close>

text \<open>Rounding down to a multiple of a power of two.\<close>

lemma unat_and_not_mask:
  fixes w :: "'a::len word"
  shows "unat (w AND NOT (mask n)) = unat w div 2 ^ n * 2 ^ n"
proof -
  have "w AND NOT (mask n) = push_bit n (drop_bit n w)"
    by (rule bit_word_eqI) (auto simp: bit_simps)
  moreover have "unat (push_bit n (drop_bit n w)) = take_bit LENGTH('a) (push_bit n (drop_bit n (unat w)))"
    by (simp only: unsigned_push_bit_eq unsigned_drop_bit_eq drop_bit_take_bit [symmetric]
        unsigned_take_bit_eq [symmetric] take_bit_length_eq)
  ultimately have "unat (w AND NOT (mask n)) = take_bit LENGTH('a) (unat w div 2 ^ n * 2 ^ n)"
    by (simp only: push_bit_eq_mult drop_bit_eq_div)
  moreover have "unat w div 2 ^ n * 2 ^ n < 2 ^ LENGTH('a)"
    by (rule le_less_trans [OF div_times_less_eq_dividend unat_lt2p])
  ultimately show ?thesis by (simp add: take_bit_nat_eq_self)
qed

lemma find_SomeD: "find P xs = Some x \<Longrightarrow> x \<in> set xs \<and> P x"
  by (induction xs) (auto split: if_splits)

section \<open>Little-endian words in byte lists\<close>

fun le_get :: "u8 list \<Rightarrow> 'a::len word" where
  "le_get [] = 0"
| "le_get (x # xs) = ucast x OR push_bit 8 (le_get xs)"

fun le_put :: "nat \<Rightarrow> 'a::len word \<Rightarrow> u8 list" where
  "le_put 0 w = []"
| "le_put (Suc n) w = ucast w # le_put n (drop_bit 8 w)"

lemma length_le_put [simp]: "length (le_put n w) = n"
  by (induction n arbitrary: w) auto

lemma le_get_put: "le_get (le_put n w) = take_bit (8 * n) w"
proof (induction n arbitrary: w)
  case 0
  then show ?case by simp
next
  case (Suc n)
  show ?case
    by (rule bit_word_eqI) (auto simp: Suc bit_simps)
qed

lemma le_get_put_full [simp]:
  fixes w :: "'a::len word"
  assumes "8 * n = LENGTH('a)"
  shows "le_get (le_put n w) = w"
  using assms by (simp add: le_get_put)

section \<open>Buffers\<close>

text \<open>
  \<open>rd n b o\<close> are the \<open>n\<close> bytes at offset \<open>o\<close>; \<open>wr b o bs\<close> is \<^verbatim>\<open>memcpy(b + o, bs, len)\<close>.
  Both are used within the buffer only; the layout lemmas carry the bounds.
\<close>

definition rd :: "nat \<Rightarrow> u8 list \<Rightarrow> nat \<Rightarrow> u8 list" where
  "rd n b off = take n (drop off b)"

definition wr :: "u8 list \<Rightarrow> nat \<Rightarrow> u8 list \<Rightarrow> u8 list" where
  "wr b off bs = take off b @ bs @ drop (off + length bs) b"

definition rd8 :: "u8 list \<Rightarrow> nat \<Rightarrow> u8" where
  "rd8 b off = le_get (rd 1 b off)"

definition rd16 :: "u8 list \<Rightarrow> nat \<Rightarrow> u16" where
  "rd16 b off = le_get (rd 2 b off)"

definition rd32 :: "u8 list \<Rightarrow> nat \<Rightarrow> u32" where
  "rd32 b off = le_get (rd 4 b off)"

definition rd64 :: "u8 list \<Rightarrow> nat \<Rightarrow> u64" where
  "rd64 b off = le_get (rd 8 b off)"

definition wr8 :: "u8 list \<Rightarrow> nat \<Rightarrow> u8 \<Rightarrow> u8 list" where
  "wr8 b off v = wr b off (le_put 1 v)"

definition wr16 :: "u8 list \<Rightarrow> nat \<Rightarrow> u16 \<Rightarrow> u8 list" where
  "wr16 b off v = wr b off (le_put 2 v)"

definition wr32 :: "u8 list \<Rightarrow> nat \<Rightarrow> u32 \<Rightarrow> u8 list" where
  "wr32 b off v = wr b off (le_put 4 v)"

definition wr64 :: "u8 list \<Rightarrow> nat \<Rightarrow> u64 \<Rightarrow> u8 list" where
  "wr64 b off v = wr b off (le_put 8 v)"

text \<open>\<^verbatim>\<open>memset(b + off, 0, n)\<close> and \<^verbatim>\<open>memmove(b + dst, b + src, n)\<close>.\<close>

definition memzero :: "u8 list \<Rightarrow> nat \<Rightarrow> nat \<Rightarrow> u8 list" where
  "memzero b off n = wr b off (replicate n 0)"

definition memmv :: "u8 list \<Rightarrow> nat \<Rightarrow> nat \<Rightarrow> nat \<Rightarrow> u8 list" where
  "memmv b dst src n = wr b dst (rd n b src)"

lemma length_rd [simp]: "length (rd n b off) = min n (length b - off)"
  by (simp add: rd_def)

lemma length_wr [simp]:
  "off + length bs \<le> length b \<Longrightarrow> length (wr b off bs) = length b"
  by (simp add: wr_def)

lemma length_wrs [layout]:
  "off + 1 \<le> length b \<Longrightarrow> length (wr8 b off v8) = length b"
  "off + 2 \<le> length b \<Longrightarrow> length (wr16 b off v16) = length b"
  "off + 4 \<le> length b \<Longrightarrow> length (wr32 b off v32) = length b"
  "off + 8 \<le> length b \<Longrightarrow> length (wr64 b off v64) = length b"
  by (simp_all add: wr8_def wr16_def wr32_def wr64_def)

lemma length_memzero [simp]: "off + n \<le> length b \<Longrightarrow> length (memzero b off n) = length b"
  by (simp add: memzero_def)

lemma length_memmv [simp]:
  "dst + n \<le> length b \<Longrightarrow> src + n \<le> length b \<Longrightarrow> length (memmv b dst src n) = length b"
  by (simp add: memmv_def)

lemma rd_wr_same: "off + length bs \<le> length b \<Longrightarrow> rd (length bs) (wr b off bs) off = bs"
  by (simp add: rd_def wr_def)

lemma nth_wr:
  assumes "off + length bs \<le> length b" and "i < length b"
  shows "wr b off bs ! i = (if off \<le> i \<and> i < off + length bs then bs ! (i - off) else b ! i)"
  using assms by (auto simp: wr_def nth_append min_def)

lemma rd_nth_cong:
  assumes "length b = length c" and "\<And>i. off \<le> i \<Longrightarrow> i < off + n \<Longrightarrow> i < length b \<Longrightarrow> b ! i = c ! i"
  shows "rd n b off = rd n c off"
  by (rule nth_equalityI) (use assms in \<open>auto simp: rd_def\<close>)

lemma rd_wr_below:
  assumes "o1 + n \<le> off" and "off + length bs \<le> length b"
  shows "rd n (wr b off bs) o1 = rd n b o1"
  by (rule rd_nth_cong) (use assms in \<open>auto simp: nth_wr\<close>)

lemma rd_wr_above:
  assumes "off + length bs \<le> o1" and "off + length bs \<le> length b"
  shows "rd n (wr b off bs) o1 = rd n b o1"
  using assms by (simp add: rd_def wr_def)

lemma wr_commute:
  assumes "o1 + length bs1 \<le> o2" and "o2 + length bs2 \<le> length b"
  shows "wr (wr b o1 bs1) o2 bs2 = wr (wr b o2 bs2) o1 bs1"
  by (rule nth_equalityI) (use assms in \<open>auto simp: nth_wr\<close>)

lemma wr_overwrite:
  assumes "length bs1 = length bs2" and "off + length bs2 \<le> length b"
  shows "wr (wr b off bs1) off bs2 = wr b off bs2"
  by (rule nth_equalityI) (use assms in \<open>auto simp: nth_wr\<close>)

subsection \<open>Field reads after field writes\<close>

lemma rd_wr_field_same [layout]:
  "off + 1 \<le> length b \<Longrightarrow> rd8 (wr8 b off v8) off = v8"
  "off + 2 \<le> length b \<Longrightarrow> rd16 (wr16 b off v16) off = v16"
  "off + 4 \<le> length b \<Longrightarrow> rd32 (wr32 b off v32) off = v32"
  "off + 8 \<le> length b \<Longrightarrow> rd64 (wr64 b off v64) off = v64"
  using rd_wr_same [of off "le_put 1 v8" b] rd_wr_same [of off "le_put 2 v16" b]
    rd_wr_same [of off "le_put 4 v32" b] rd_wr_same [of off "le_put 8 v64" b]
  by (simp_all add: rd8_def wr8_def rd16_def wr16_def rd32_def wr32_def rd64_def wr64_def)

text \<open>A read of bytes or of a field is unaffected by a field write it does not overlap.\<close>

lemma rd_wr_field_other [layout]:
  "\<lbrakk>o1 + n \<le> off \<or> off + 1 \<le> o1; off + 1 \<le> length b\<rbrakk> \<Longrightarrow> rd n (wr8 b off v8) o1 = rd n b o1"
  "\<lbrakk>o1 + n \<le> off \<or> off + 2 \<le> o1; off + 2 \<le> length b\<rbrakk> \<Longrightarrow> rd n (wr16 b off v16) o1 = rd n b o1"
  "\<lbrakk>o1 + n \<le> off \<or> off + 4 \<le> o1; off + 4 \<le> length b\<rbrakk> \<Longrightarrow> rd n (wr32 b off v32) o1 = rd n b o1"
  "\<lbrakk>o1 + n \<le> off \<or> off + 8 \<le> o1; off + 8 \<le> length b\<rbrakk> \<Longrightarrow> rd n (wr64 b off v64) o1 = rd n b o1"
  by (auto simp: wr8_def wr16_def wr32_def wr64_def rd_wr_below rd_wr_above)

lemma rd_field_cong:
  "rd 1 b off = rd 1 c off \<Longrightarrow> rd8 b off = rd8 c off"
  "rd 2 b off = rd 2 c off \<Longrightarrow> rd16 b off = rd16 c off"
  "rd 4 b off = rd 4 c off \<Longrightarrow> rd32 b off = rd32 c off"
  "rd 8 b off = rd 8 c off \<Longrightarrow> rd64 b off = rd64 c off"
  by (simp_all add: rd8_def rd16_def rd32_def rd64_def)

lemma rd8_other [layout]:
  "\<lbrakk>o1 + 1 \<le> off \<or> off + 1 \<le> o1; off + 1 \<le> length b\<rbrakk> \<Longrightarrow> rd8 (wr8 b off v8) o1 = rd8 b o1"
  "\<lbrakk>o1 + 1 \<le> off \<or> off + 2 \<le> o1; off + 2 \<le> length b\<rbrakk> \<Longrightarrow> rd8 (wr16 b off v16) o1 = rd8 b o1"
  "\<lbrakk>o1 + 1 \<le> off \<or> off + 4 \<le> o1; off + 4 \<le> length b\<rbrakk> \<Longrightarrow> rd8 (wr32 b off v32) o1 = rd8 b o1"
  "\<lbrakk>o1 + 1 \<le> off \<or> off + 8 \<le> o1; off + 8 \<le> length b\<rbrakk> \<Longrightarrow> rd8 (wr64 b off v64) o1 = rd8 b o1"
  by (rule rd_field_cong, simp add: layout)+

lemma rd16_other [layout]:
  "\<lbrakk>o1 + 2 \<le> off \<or> off + 1 \<le> o1; off + 1 \<le> length b\<rbrakk> \<Longrightarrow> rd16 (wr8 b off v8) o1 = rd16 b o1"
  "\<lbrakk>o1 + 2 \<le> off \<or> off + 2 \<le> o1; off + 2 \<le> length b\<rbrakk> \<Longrightarrow> rd16 (wr16 b off v16) o1 = rd16 b o1"
  "\<lbrakk>o1 + 2 \<le> off \<or> off + 4 \<le> o1; off + 4 \<le> length b\<rbrakk> \<Longrightarrow> rd16 (wr32 b off v32) o1 = rd16 b o1"
  "\<lbrakk>o1 + 2 \<le> off \<or> off + 8 \<le> o1; off + 8 \<le> length b\<rbrakk> \<Longrightarrow> rd16 (wr64 b off v64) o1 = rd16 b o1"
  by (rule rd_field_cong, simp add: layout)+

lemma rd32_other [layout]:
  "\<lbrakk>o1 + 4 \<le> off \<or> off + 1 \<le> o1; off + 1 \<le> length b\<rbrakk> \<Longrightarrow> rd32 (wr8 b off v8) o1 = rd32 b o1"
  "\<lbrakk>o1 + 4 \<le> off \<or> off + 2 \<le> o1; off + 2 \<le> length b\<rbrakk> \<Longrightarrow> rd32 (wr16 b off v16) o1 = rd32 b o1"
  "\<lbrakk>o1 + 4 \<le> off \<or> off + 4 \<le> o1; off + 4 \<le> length b\<rbrakk> \<Longrightarrow> rd32 (wr32 b off v32) o1 = rd32 b o1"
  "\<lbrakk>o1 + 4 \<le> off \<or> off + 8 \<le> o1; off + 8 \<le> length b\<rbrakk> \<Longrightarrow> rd32 (wr64 b off v64) o1 = rd32 b o1"
  by (rule rd_field_cong, simp add: layout)+

lemma rd64_other [layout]:
  "\<lbrakk>o1 + 8 \<le> off \<or> off + 1 \<le> o1; off + 1 \<le> length b\<rbrakk> \<Longrightarrow> rd64 (wr8 b off v8) o1 = rd64 b o1"
  "\<lbrakk>o1 + 8 \<le> off \<or> off + 2 \<le> o1; off + 2 \<le> length b\<rbrakk> \<Longrightarrow> rd64 (wr16 b off v16) o1 = rd64 b o1"
  "\<lbrakk>o1 + 8 \<le> off \<or> off + 4 \<le> o1; off + 4 \<le> length b\<rbrakk> \<Longrightarrow> rd64 (wr32 b off v32) o1 = rd64 b o1"
  "\<lbrakk>o1 + 8 \<le> off \<or> off + 8 \<le> o1; off + 8 \<le> length b\<rbrakk> \<Longrightarrow> rd64 (wr64 b off v64) o1 = rd64 b o1"
  by (rule rd_field_cong, simp add: layout)+

section \<open>Bitmaps in byte lists\<close>

text \<open>
  The bit helpers that \<^verbatim>\<open>src/croi/mm/page_alloc.c\<close> and \<^verbatim>\<open>src/logaic/carafs/alloc.c\<close> both
  define: bit \<open>i\<close> of the map is bit \<open>i mod 8\<close> of byte \<open>i div 8\<close>.
\<close>

definition bm_get :: "u8 list \<Rightarrow> nat \<Rightarrow> bool" where
  "bm_get bm i = bit (bm ! (i div 8)) (i mod 8)"

definition bm_set :: "u8 list \<Rightarrow> nat \<Rightarrow> u8 list" where
  "bm_set bm i = bm[i div 8 := bm ! (i div 8) OR push_bit (i mod 8) 1]"

definition bm_clr :: "u8 list \<Rightarrow> nat \<Rightarrow> u8 list" where
  "bm_clr bm i = bm[i div 8 := bm ! (i div 8) AND NOT (push_bit (i mod 8) 1)]"

text \<open>The loops that set or clear a run of bits.\<close>

fun bm_set_run :: "u8 list \<Rightarrow> nat \<Rightarrow> nat \<Rightarrow> u8 list" where
  "bm_set_run bm s 0 = bm"
| "bm_set_run bm s (Suc n) = bm_set_run (bm_set bm s) (Suc s) n"

fun bm_clr_run :: "u8 list \<Rightarrow> nat \<Rightarrow> nat \<Rightarrow> u8 list" where
  "bm_clr_run bm s 0 = bm"
| "bm_clr_run bm s (Suc n) = bm_clr_run (bm_clr bm s) (Suc s) n"

text \<open>The clear bits among the first \<open>n\<close>, whose number the allocators' counters track.\<close>

definition bm_free :: "u8 list \<Rightarrow> nat \<Rightarrow> nat set" where
  "bm_free bm n = {i. i < n \<and> \<not> bm_get bm i}"

lemma length_bm_set [simp]: "length (bm_set bm i) = length bm"
  by (simp add: bm_set_def)

lemma length_bm_clr [simp]: "length (bm_clr bm i) = length bm"
  by (simp add: bm_clr_def)

lemma divmod8_eq: "(i::nat) div 8 = j div 8 \<Longrightarrow> i mod 8 = j mod 8 \<Longrightarrow> i = j"
  by (metis div_mult_mod_eq)

lemma bm_get_set [bitmap_simps]:
  assumes "i div 8 < length bm"
  shows "bm_get (bm_set bm i) j = (j = i \<or> bm_get bm j)"
proof (cases "j div 8 = i div 8")
  case True
  have "j mod 8 < 8" by simp
  then show ?thesis
    using True assms divmod8_eq [of j i]
    by (auto simp: bm_get_def bm_set_def bit_simps)
next
  case False
  then show ?thesis by (auto simp: bm_get_def bm_set_def)
qed

lemma bm_get_clr [bitmap_simps]:
  assumes "i div 8 < length bm"
  shows "bm_get (bm_clr bm i) j = (j \<noteq> i \<and> bm_get bm j)"
proof (cases "j div 8 = i div 8")
  case True
  have "j mod 8 < 8" by simp
  then show ?thesis
    using True assms divmod8_eq [of j i]
    by (auto simp: bm_get_def bm_clr_def bit_simps)
next
  case False
  then show ?thesis by (auto simp: bm_get_def bm_clr_def)
qed

lemma length_bm_set_run [simp]: "length (bm_set_run bm s n) = length bm"
  by (induction n arbitrary: bm s) simp_all

lemma length_bm_clr_run [simp]: "length (bm_clr_run bm s n) = length bm"
  by (induction n arbitrary: bm s) simp_all

lemma bm_get_set_run [bitmap_simps]:
  "s + n \<le> 8 * length bm \<Longrightarrow> bm_get (bm_set_run bm s n) j = ((s \<le> j \<and> j < s + n) \<or> bm_get bm j)"
proof (induction n arbitrary: bm s)
  case 0
  then show ?case by auto
next
  case (Suc n)
  then have "s div 8 < length bm" by (simp add: div_less_iff_less_mult)
  with Suc show ?case by (auto simp: bm_get_set)
qed

lemma bm_get_clr_run [bitmap_simps]:
  "s + n \<le> 8 * length bm \<Longrightarrow> bm_get (bm_clr_run bm s n) j = (\<not> (s \<le> j \<and> j < s + n) \<and> bm_get bm j)"
proof (induction n arbitrary: bm s)
  case 0
  then show ?case by auto
next
  case (Suc n)
  then have "s div 8 < length bm" by (simp add: div_less_iff_less_mult)
  with Suc show ?case by (auto simp: bm_get_clr)
qed

lemma bm_get_replicate0 [simp]: "i < 8 * n \<Longrightarrow> \<not> bm_get (replicate n 0) i"
  by (simp add: bm_get_def div_less_iff_less_mult)

lemma finite_bm_free [simp]: "finite (bm_free bm n)"
  by (simp add: bm_free_def)

lemma card_bm_free_le: "card (bm_free bm n) \<le> n"
proof -
  have "bm_free bm n \<subseteq> {..<n}" by (auto simp: bm_free_def)
  then show ?thesis using card_mono [of "{..<n}"] by fastforce
qed

lemma card_bm_free_set_run:
  assumes "s + k \<le> n" and "n \<le> 8 * length bm" and "\<forall>j. s \<le> j \<and> j < s + k \<longrightarrow> \<not> bm_get bm j"
  shows "card (bm_free (bm_set_run bm s k) n) + k = card (bm_free bm n)"
proof -
  have eq: "bm_free bm n = bm_free (bm_set_run bm s k) n \<union> {s..<s + k}"
    using assms by (auto simp: bm_free_def bm_get_set_run)
  have "bm_free (bm_set_run bm s k) n \<inter> {s..<s + k} = {}"
    using assms by (auto simp: bm_free_def bm_get_set_run)
  then show ?thesis by (simp add: eq card_Un_disjoint)
qed

lemma card_bm_free_clr_run:
  assumes "s + k \<le> n" and "n \<le> 8 * length bm" and "\<forall>j. s \<le> j \<and> j < s + k \<longrightarrow> bm_get bm j"
  shows "card (bm_free (bm_clr_run bm s k) n) = card (bm_free bm n) + k"
proof -
  have eq: "bm_free (bm_clr_run bm s k) n = bm_free bm n \<union> {s..<s + k}"
    using assms by (auto simp: bm_free_def bm_get_clr_run)
  have "bm_free bm n \<inter> {s..<s + k} = {}"
    using assms by (auto simp: bm_free_def)
  then show ?thesis by (simp add: eq card_Un_disjoint)
qed

lemma bm_eqI:
  assumes "length a = length b" and "\<And>i. i < 8 * length a \<Longrightarrow> bm_get a i = bm_get b i"
  shows "a = b"
proof (rule nth_equalityI [OF assms(1)])
  fix k assume k: "k < length a"
  show "a ! k = b ! k"
  proof (rule bit_word_eqI)
    fix n assume "n < LENGTH(8)"
    with assms(2) [of "8 * k + n"] k show "bit (a ! k) n = bit (b ! k) n" by (simp add: bm_get_def)
  qed
qed

lemma bm_clr_set_run:
  assumes "s + n \<le> 8 * length bm" and "\<forall>j. s \<le> j \<and> j < s + n \<longrightarrow> \<not> bm_get bm j"
  shows "bm_clr_run (bm_set_run bm s n) s n = bm"
  by (rule bm_eqI) (use assms in \<open>auto simp: bm_get_clr_run bm_get_set_run\<close>)

end
