(* ===== verification/Ring_Buffer.thy ===== *)
theory Ring_Buffer
  imports Prelude
begin

text \<open>
  The single-producer single-consumer ring of \<^verbatim>\<open>include/cara/ring.h\<close>.  The sequential
  operations are modelled on the header and the external slot array, with the free-running
  32-bit head and tail counters kept at their width, and refine a bounded FIFO queue.  The
  atomic loads and stores of the two sides are then interleaved as an inductive step relation.
\<close>

section \<open>State and operations\<close>

record RingSlot =
  slot_kind :: u32
  slot_length :: u32
  slot_payload :: u64
  slot_reserved :: u64

record RingHeader =
  ring_head :: u32
  ring_tail :: u32
  ring_capacity :: u32
  ring_mask :: u32
  ring_signal_kobj :: u64

definition Ring_Init :: "u32 \<Rightarrow> u64 \<Rightarrow> RingHeader result" where
  "Ring_Init cap sig =
    (if cap = 0 \<or> cap AND (cap - 1) \<noteq> 0 then Inl CARA_EINVAL
     else Inr \<lparr>ring_head = 0, ring_tail = 0, ring_capacity = cap, ring_mask = cap - 1,
               ring_signal_kobj = sig\<rparr>)"

text \<open>The result is (returned flag, \<^verbatim>\<open>*signal_needed_out\<close>, header, slots).\<close>

definition Ring_Enqueue ::
  "RingHeader \<Rightarrow> RingSlot list \<Rightarrow> RingSlot \<Rightarrow> bool \<times> bool \<times> RingHeader \<times> RingSlot list" where
  "Ring_Enqueue r slots v =
    (let head = ring_head r; tail = ring_tail r in
     if head - tail \<ge> ring_capacity r then (False, False, r, slots)
     else (True, head = tail, r\<lparr>ring_head := head + 1\<rparr>, slots[unat (head AND ring_mask r) := v]))"

definition Ring_Dequeue ::
  "RingHeader \<Rightarrow> RingSlot list \<Rightarrow> (RingSlot \<times> RingHeader) option" where
  "Ring_Dequeue r slots =
    (let tail = ring_tail r; head = ring_head r in
     if head = tail then None
     else Some (slots ! unat (tail AND ring_mask r), r\<lparr>ring_tail := tail + 1\<rparr>))"

definition Ring_Count :: "RingHeader \<Rightarrow> u32" where
  "Ring_Count r = ring_head r - ring_tail r"

definition Ring_IsEmpty :: "RingHeader \<Rightarrow> bool" where
  "Ring_IsEmpty r = (Ring_Count r = 0)"

definition Ring_IsFull :: "RingHeader \<Rightarrow> bool" where
  "Ring_IsFull r = (Ring_Count r \<ge> ring_capacity r)"

section \<open>The bounded queue a ring implements\<close>

text \<open>
  What a message port relies on: an enqueue is refused exactly when the queue holds its
  capacity and appends otherwise; a dequeue is refused exactly when it is empty and takes the
  oldest element otherwise.
\<close>

locale bounded_queue =
  fixes enq :: "'q \<Rightarrow> 'e \<Rightarrow> 'q option"
    and deq :: "'q \<Rightarrow> ('e \<times> 'q) option"
    and items :: "'q \<Rightarrow> 'e list"
    and cap :: "'q \<Rightarrow> nat"
    and ok :: "'q \<Rightarrow> bool"
  assumes bound: "ok q \<Longrightarrow> length (items q) \<le> cap q"
    and enq_full: "ok q \<Longrightarrow> length (items q) = cap q \<Longrightarrow> enq q x = None"
    and enq_room: "ok q \<Longrightarrow> length (items q) < cap q \<Longrightarrow>
      \<exists>q'. enq q x = Some q' \<and> ok q' \<and> items q' = items q @ [x] \<and> cap q' = cap q"
    and deq_empty: "ok q \<Longrightarrow> items q = [] \<Longrightarrow> deq q = None"
    and deq_item: "ok q \<Longrightarrow> items q = x # xs \<Longrightarrow>
      \<exists>q'. deq q = Some (x, q') \<and> ok q' \<and> items q' = xs \<and> cap q' = cap q"
begin

primrec enq_all :: "'q \<Rightarrow> 'e list \<Rightarrow> 'q option" where
  "enq_all q [] = Some q"
| "enq_all q (x # xs) = (case enq q x of None \<Rightarrow> None | Some q' \<Rightarrow> enq_all q' xs)"

primrec deq_n :: "'q \<Rightarrow> nat \<Rightarrow> ('e list \<times> 'q) option" where
  "deq_n q 0 = Some ([], q)"
| "deq_n q (Suc n) = (case deq q of None \<Rightarrow> None
     | Some (x, q') \<Rightarrow> (case deq_n q' n of None \<Rightarrow> None | Some (xs, q'') \<Rightarrow> Some (x # xs, q'')))"

lemma enq_all_items:
  "ok q \<Longrightarrow> length (items q) + length xs \<le> cap q \<Longrightarrow>
   \<exists>q'. enq_all q xs = Some q' \<and> ok q' \<and> items q' = items q @ xs \<and> cap q' = cap q"
proof (induction xs arbitrary: q)
  case Nil
  then show ?case by simp
next
  case (Cons x xs)
  from Cons.prems enq_room [of q x] obtain q1 where
    "enq q x = Some q1" "ok q1" "items q1 = items q @ [x]" "cap q1 = cap q" by auto
  with Cons.IH [of q1] Cons.prems show ?case by auto
qed

lemma deq_n_items:
  "ok q \<Longrightarrow> items q = xs @ ys \<Longrightarrow>
   \<exists>q'. deq_n q (length xs) = Some (xs, q') \<and> ok q' \<and> items q' = ys \<and> cap q' = cap q"
proof (induction xs arbitrary: q)
  case Nil
  then show ?case by simp
next
  case (Cons x xs)
  from Cons.prems deq_item [of q x "xs @ ys"] obtain q1 where
    "deq q = Some (x, q1)" "ok q1" "items q1 = xs @ ys" "cap q1 = cap q" by auto
  with Cons.IH [of q1] show ?case by auto
qed

text \<open>A burst that fits is delivered completely and in order, behind what was queued before.\<close>

lemma burst_fifo:
  assumes "ok q" and "length (items q) + length xs \<le> cap q"
  shows "\<exists>q1 q2. enq_all q xs = Some q1 \<and>
    deq_n q1 (length (items q) + length xs) = Some (items q @ xs, q2) \<and> items q2 = []"
proof -
  from enq_all_items [OF assms] obtain q1 where
    q1: "enq_all q xs = Some q1" "ok q1" "items q1 = (items q @ xs) @ []" by auto
  from deq_n_items [OF q1(2,3)] q1(1) show ?thesis by auto
qed

end

section \<open>Power-of-two capacities\<close>

lemma nat_and_pred_zero:
  fixes n :: nat
  assumes "0 < n" and "n AND (n - 1) = 0"
  shows "\<exists>k. n = 2 ^ k"
  using assms
proof (induction n rule: less_induct)
  case (less n)
  show ?case
  proof (cases "even n")
    case True
    then obtain q where q: "n = 2 * q" by blast
    with less.prems have "0 < q" by simp
    then have "2 * q - 1 = 1 + 2 * (q - 1)" by simp
    with q less.prems have "2 * (q AND (q - 1)) = 0"
      using and_nat_rec [of n "n - 1"] by (simp add: and_nat_rec [of "2 * q"])
    then have "q AND (q - 1) = 0" by simp
    with less.IH [of q] q \<open>0 < q\<close> obtain k where "q = 2 ^ k" by auto
    with q have "n = 2 ^ Suc k" by simp
    then show ?thesis by blast
  next
    case False
    then obtain q where q: "n = 2 * q + 1" using oddE by blast
    then have "n AND (n - 1) = 2 * q" by (simp add: and_nat_rec [of "Suc (2 * q)"])
    with less.prems q have "n = 2 ^ 0" by simp
    then show ?thesis by blast
  qed
qed

lemma word_and_pred_zero:
  fixes c :: u32
  assumes "c \<noteq> 0" and "c AND (c - 1) = 0"
  shows "\<exists>k<32. c = 2 ^ k"
proof -
  have pos: "0 < unat c" using assms(1) by (simp add: word_neq_0_conv unat_gt_0)
  have "unat (c - 1) = unat c - 1"
    using assms(1) by (simp add: unat_minus_one)
  then have "unat c AND (unat c - 1) = 0"
    using arg_cong [OF assms(2), of unat] by (simp add: unsigned_and_eq)
  from nat_and_pred_zero [OF pos this] obtain k where k: "unat c = 2 ^ k" by blast
  from unat_lt2p [of c] k have "(2::nat) ^ k < 2 ^ 32" by simp
  then have "k < 32" by (rule pow2_less_imp)
  moreover have "c = 2 ^ k"
    using k unat_pow2 [of k, where 'a = 32] \<open>k < 32\<close> by (simp add: word_unat_eq_iff)
  ultimately show ?thesis by blast
qed

section \<open>Representation invariant and contents\<close>

definition ring_inv :: "RingHeader \<Rightarrow> RingSlot list \<Rightarrow> bool" where
  "ring_inv r slots \<longleftrightarrow>
    ring_capacity r \<noteq> 0 \<and> ring_capacity r AND (ring_capacity r - 1) = 0 \<and>
    ring_mask r = ring_capacity r - 1 \<and> length slots = unat (ring_capacity r) \<and>
    Ring_Count r \<le> ring_capacity r"

definition ring_items :: "RingHeader \<Rightarrow> RingSlot list \<Rightarrow> RingSlot list" where
  "ring_items r slots =
    map (\<lambda>i. slots ! unat ((ring_tail r + of_nat i) AND ring_mask r)) [0..<unat (Ring_Count r)]"

lemma length_ring_items [simp]: "length (ring_items r slots) = unat (Ring_Count r)"
  by (simp add: ring_items_def)

text \<open>The masked counter is the counter modulo the capacity, also across the 32-bit wrap.\<close>

lemma masked_index:
  fixes t c :: u32
  assumes "c \<noteq> 0" and "c AND (c - 1) = 0"
  shows "unat ((t + of_nat i) AND (c - 1)) = (unat t + i) mod unat c"
proof -
  from word_and_pred_zero [OF assms] obtain k where k: "k < 32" "c = 2 ^ k" by blast
  then have uc: "unat c = 2 ^ k" by (simp add: unat_pow2)
  have "(t + of_nat i) AND (c - 1) = take_bit k (t + of_nat i)"
    by (simp add: k take_bit_eq_mask mask_eq_decr_exp)
  then have "unat ((t + of_nat i) AND (c - 1)) = take_bit k (unat (t + of_nat i))"
    by (simp add: unsigned_take_bit_eq)
  also have "unat (t + of_nat i) = (unat t + i) mod 2 ^ 32"
    by (simp add: unat_word_ariths unat_of_nat mod_add_right_eq take_bit_eq_mod)
  also have "take_bit k ((unat t + i) mod 2 ^ 32) = (unat t + i) mod 2 ^ k"
    using le_imp_power_dvd [of k 32 "2::nat"] k(1)
    unfolding take_bit_eq_mod by (simp only: mod_mod_cancel)
  finally show ?thesis by (simp add: uc)
qed

lemma mod_index_neq:
  "\<lbrakk>i < (j::nat); j < i + n\<rbrakk> \<Longrightarrow> (a + i) mod n \<noteq> (a + j) mod n"
proof
  assume *: "i < j" "j < i + n" "(a + i) mod n = (a + j) mod n"
  then have "n dvd (a + j) - (a + i)" using mod_eq_dvd_iff_nat [of "a + i" "a + j" n] by simp
  then have "n dvd j - i" by simp
  with * show False by (auto dest: dvd_imp_le)
qed

lemma ring_inv_shape:
  "ring_inv r slots \<Longrightarrow> ring_capacity r \<noteq> 0 \<and> ring_capacity r AND (ring_capacity r - 1) = 0"
  by (simp add: ring_inv_def)

lemma ring_index:
  assumes "ring_inv r slots"
  shows "unat ((t + of_nat i) AND ring_mask r) = (unat t + i) mod length slots"
  using assms masked_index [of "ring_capacity r" t i] by (simp add: ring_inv_def)

lemma head_index:
  assumes "ring_inv r slots"
  shows "unat (ring_head r AND ring_mask r) = (unat (ring_tail r) + unat (Ring_Count r)) mod length slots"
  using ring_index [OF assms, of "ring_tail r" "unat (Ring_Count r)"]
  by (simp add: Ring_Count_def)

text \<open>
  The three moves every path through the ring is made of: writing the slot under the head
  does not disturb the queue, publishing the head appends that slot, and publishing the
  tail drops the first.
\<close>

lemma items_store:
  assumes inv: "ring_inv r slots" and room: "Ring_Count r < ring_capacity r"
  shows "ring_items r (slots[unat (ring_head r AND ring_mask r) := v]) = ring_items r slots"
proof -
  have "unat (Ring_Count r) < length slots"
    using inv room by (simp add: ring_inv_def word_less_nat_alt)
  then have neq: "(unat (ring_tail r) + unat (Ring_Count r)) mod length slots
      \<noteq> (unat (ring_tail r) + i) mod length slots"
    if "i < unat (Ring_Count r)" for i
    using that by (intro not_sym [OF mod_index_neq]) auto
  show ?thesis
    unfolding ring_items_def head_index [OF inv] ring_index [OF inv]
    by (rule map_cong [OF refl], rule nth_list_update_neq, rule neq) simp
qed

lemma items_publish:
  assumes inv: "ring_inv r slots" and room: "Ring_Count r < ring_capacity r"
  shows "ring_items (r\<lparr>ring_head := ring_head r + 1\<rparr>) slots
    = ring_items r slots @ [slots ! unat (ring_head r AND ring_mask r)]"
proof -
  have c: "Ring_Count (r\<lparr>ring_head := ring_head r + 1\<rparr>) = Ring_Count r + 1"
    by (simp add: Ring_Count_def)
  show ?thesis
    unfolding ring_items_def c unat_Suc_less [OF room]
    by (simp add: Ring_Count_def)
qed

lemma items_consume:
  assumes "Ring_Count r \<noteq> 0"
  shows "ring_items r slots = slots ! unat (ring_tail r AND ring_mask r)
    # ring_items (r\<lparr>ring_tail := ring_tail r + 1\<rparr>) slots"
proof -
  have c: "Ring_Count (r\<lparr>ring_tail := ring_tail r + 1\<rparr>) = Ring_Count r - 1"
    by (simp add: Ring_Count_def)
  have "unat (Ring_Count r) = Suc (unat (Ring_Count r - 1))"
    using assms by (simp add: unat_pred unat_gt_0)
  then show ?thesis
    by (simp add: ring_items_def c upt_conv_Cons map_Suc_upt [symmetric] comp_def add.assoc
        del: upt_Suc)
qed

lemma ring_inv_store [simp]: "ring_inv r (slots[i := v]) = ring_inv r slots"
  by (simp add: ring_inv_def)

lemma ring_inv_publish:
  "ring_inv r slots \<Longrightarrow> Ring_Count r < ring_capacity r \<Longrightarrow> ring_inv (r\<lparr>ring_head := ring_head r + 1\<rparr>) slots"
  using unat_Suc_less [of "Ring_Count r" "ring_capacity r"]
  by (auto simp: ring_inv_def Ring_Count_def word_less_nat_alt word_le_nat_alt algebra_simps)

lemma ring_inv_consume:
  "ring_inv r slots \<Longrightarrow> Ring_Count r \<noteq> 0 \<Longrightarrow> ring_inv (r\<lparr>ring_tail := ring_tail r + 1\<rparr>) slots"
  using unat_pred [of "Ring_Count r"]
  by (auto simp: ring_inv_def Ring_Count_def word_le_nat_alt algebra_simps)

section \<open>The ring refines the bounded queue\<close>

type_synonym ring = "RingHeader \<times> RingSlot list"

definition ring_enq :: "ring \<Rightarrow> RingSlot \<Rightarrow> ring option" where
  "ring_enq q v = (case q of (r, slots) \<Rightarrow>
     (case Ring_Enqueue r slots v of (ok, _, r', slots') \<Rightarrow> if ok then Some (r', slots') else None))"

definition ring_deq :: "ring \<Rightarrow> (RingSlot \<times> ring) option" where
  "ring_deq q = (case q of (r, slots) \<Rightarrow>
     (case Ring_Dequeue r slots of None \<Rightarrow> None | Some (v, r') \<Rightarrow> Some (v, (r', slots))))"

lemma count_full_iff:
  assumes "ring_inv r slots"
  shows "ring_capacity r \<le> Ring_Count r \<longleftrightarrow> length (ring_items r slots) = unat (ring_capacity r)"
  using assms by (auto simp: ring_inv_def word_le_nat_alt)

lemma items_empty_iff: "ring_items r slots = [] \<longleftrightarrow> ring_head r = ring_tail r"
  by (simp add: ring_items_def Ring_Count_def unat_0_iff)

lemma Ring_Enqueue_room:
  assumes "ring_inv r slots" and "length (ring_items r slots) < unat (ring_capacity r)"
  shows "\<exists>r' slots'. Ring_Enqueue r slots v = (True, ring_items r slots = [], r', slots') \<and>
    ring_inv r' slots' \<and> ring_items r' slots' = ring_items r slots @ [v] \<and>
    ring_capacity r' = ring_capacity r"
proof -
  have room: "Ring_Count r < ring_capacity r"
    using assms(2) by (simp add: word_less_nat_alt)
  let ?h = "unat (ring_head r AND ring_mask r)"
  let ?r = "r\<lparr>ring_head := ring_head r + 1\<rparr>" and ?slots = "slots[?h := v]"
  have "?h < length slots"
    using head_index [OF assms(1)] assms(1) by (simp add: ring_inv_def unat_gt_0)
  moreover have inv: "ring_inv r ?slots" using assms(1) by simp
  ultimately have "ring_items ?r ?slots = ring_items r slots @ [v]"
    using items_publish [OF inv room] items_store [OF assms(1) room, of v] by simp
  moreover have "Ring_Enqueue r slots v = (True, ring_items r slots = [], ?r, ?slots)"
    using room unfolding Ring_Enqueue_def Let_def items_empty_iff Ring_Count_def by simp
  ultimately show ?thesis
    using ring_inv_publish [OF inv room] by simp
qed

interpretation rq: bounded_queue ring_enq ring_deq
  "\<lambda>(r, slots). ring_items r slots" "\<lambda>(r, slots). unat (ring_capacity r)"
  "\<lambda>(r, slots). ring_inv r slots"
proof unfold_locales
  fix q :: ring and x :: RingSlot and xs :: "RingSlot list"
  obtain r slots where q: "q = (r, slots)" by (cases q)
  assume "case q of (r, slots) \<Rightarrow> ring_inv r slots"
  then have inv: "ring_inv r slots" by (simp add: q)
  show "length (case q of (r, slots) \<Rightarrow> ring_items r slots)
      \<le> (case q of (r, slots) \<Rightarrow> unat (ring_capacity r))"
    using inv by (simp add: q ring_inv_def word_le_nat_alt)
  show "ring_enq q x = None"
    if "length (case q of (r, slots) \<Rightarrow> ring_items r slots)
      = (case q of (r, slots) \<Rightarrow> unat (ring_capacity r))"
    using that count_full_iff [OF inv]
    by (simp add: q ring_enq_def Ring_Enqueue_def Let_def Ring_Count_def)
  show "\<exists>q'. ring_enq q x = Some q' \<and> (case q' of (r, slots) \<Rightarrow> ring_inv r slots) \<and>
      (case q' of (r, slots) \<Rightarrow> ring_items r slots) = (case q of (r, slots) \<Rightarrow> ring_items r slots) @ [x] \<and>
      (case q' of (r, slots) \<Rightarrow> unat (ring_capacity r)) = (case q of (r, slots) \<Rightarrow> unat (ring_capacity r))"
    if "length (case q of (r, slots) \<Rightarrow> ring_items r slots)
      < (case q of (r, slots) \<Rightarrow> unat (ring_capacity r))"
    using that Ring_Enqueue_room [OF inv, of x] by (auto simp: q ring_enq_def)
  show "ring_deq q = None" if "(case q of (r, slots) \<Rightarrow> ring_items r slots) = []"
    using that by (simp add: q items_empty_iff ring_deq_def Ring_Dequeue_def)
  show "\<exists>q'. ring_deq q = Some (x, q') \<and> (case q' of (r, slots) \<Rightarrow> ring_inv r slots) \<and>
      (case q' of (r, slots) \<Rightarrow> ring_items r slots) = xs \<and>
      (case q' of (r, slots) \<Rightarrow> unat (ring_capacity r)) = (case q of (r, slots) \<Rightarrow> unat (ring_capacity r))"
    if "(case q of (r, slots) \<Rightarrow> ring_items r slots) = x # xs"
  proof -
    from that have items: "ring_items r slots = x # xs" by (simp add: q)
    then have ne: "Ring_Count r \<noteq> 0"
      by (auto simp: ring_items_def)
    then show ?thesis
      using items items_consume [OF ne, of slots] ring_inv_consume [OF inv ne]
      by (simp add: q ring_deq_def Ring_Dequeue_def Ring_Count_def Let_def)
  qed
qed

section \<open>Producer and consumer interleaved\<close>

text \<open>
  Each side's atomic accesses as separate steps: the producer loads its own head, loads the
  tail, writes the slot and stores the head; the consumer loads its own tail, loads the head,
  reads the slot and stores the tail.  Release stores paired with acquire loads are taken as
  sequentially consistent steps.  \<open>sent\<close>, \<open>rcvd\<close> and \<open>sigs\<close> record the published slots, the
  consumed slots and the \<^verbatim>\<open>signal_needed_out\<close> flags of the successful enqueues.
\<close>

datatype producer = PIdle | PHead RingSlot u32 | PTail RingSlot u32 u32 | PStored RingSlot u32 u32

datatype consumer = CIdle | CTail u32 | CHead u32 u32 | CRead u32 RingSlot

record spsc =
  hdr :: RingHeader
  slots :: "RingSlot list"
  prod :: producer
  cons :: consumer
  sent :: "RingSlot list"
  rcvd :: "RingSlot list"
  sigs :: "bool list"

inductive spsc_step :: "spsc \<Rightarrow> spsc \<Rightarrow> bool" where
  p_head: "prod s = PIdle \<Longrightarrow> spsc_step s (s\<lparr>prod := PHead v (ring_head (hdr s))\<rparr>)"
| p_tail: "prod s = PHead v h \<Longrightarrow> spsc_step s (s\<lparr>prod := PTail v h (ring_tail (hdr s))\<rparr>)"
| p_full: "prod s = PTail v h t \<Longrightarrow> h - t \<ge> ring_capacity (hdr s) \<Longrightarrow> spsc_step s (s\<lparr>prod := PIdle\<rparr>)"
| p_store: "prod s = PTail v h t \<Longrightarrow> h - t < ring_capacity (hdr s) \<Longrightarrow>
    spsc_step s (s\<lparr>slots := (slots s)[unat (h AND ring_mask (hdr s)) := v], prod := PStored v h t\<rparr>)"
| p_publish: "prod s = PStored v h t \<Longrightarrow>
    spsc_step s (s\<lparr>hdr := (hdr s)\<lparr>ring_head := h + 1\<rparr>, prod := PIdle,
      sent := sent s @ [v], sigs := sigs s @ [h = t]\<rparr>)"
| c_tail: "cons s = CIdle \<Longrightarrow> spsc_step s (s\<lparr>cons := CTail (ring_tail (hdr s))\<rparr>)"
| c_head: "cons s = CTail t \<Longrightarrow> spsc_step s (s\<lparr>cons := CHead t (ring_head (hdr s))\<rparr>)"
| c_empty: "cons s = CHead t h \<Longrightarrow> h = t \<Longrightarrow> spsc_step s (s\<lparr>cons := CIdle\<rparr>)"
| c_read: "cons s = CHead t h \<Longrightarrow> h \<noteq> t \<Longrightarrow>
    spsc_step s (s\<lparr>cons := CRead t (slots s ! unat (t AND ring_mask (hdr s)))\<rparr>)"
| c_publish: "cons s = CRead t v \<Longrightarrow>
    spsc_step s (s\<lparr>hdr := (hdr s)\<lparr>ring_tail := t + 1\<rparr>, cons := CIdle, rcvd := rcvd s @ [v]\<rparr>)"

definition spsc_init :: "RingHeader \<Rightarrow> RingSlot list \<Rightarrow> spsc" where
  "spsc_init r sl = \<lparr>hdr = r, slots = sl, prod = PIdle, cons = CIdle, sent = [], rcvd = [], sigs = []\<rparr>"

text \<open>
  The stale tail the producer holds never underestimates the room, and the stale head the
  consumer holds never overestimates the contents.
\<close>

definition prod_ok :: "spsc \<Rightarrow> bool" where
  "prod_ok s = (case prod s of PIdle \<Rightarrow> True
     | PHead v h \<Rightarrow> h = ring_head (hdr s)
     | PTail v h t \<Rightarrow> h = ring_head (hdr s) \<and> Ring_Count (hdr s) \<le> h - t
     | PStored v h t \<Rightarrow> h = ring_head (hdr s) \<and> Ring_Count (hdr s) < ring_capacity (hdr s) \<and>
         slots s ! unat (h AND ring_mask (hdr s)) = v)"

definition cons_ok :: "spsc \<Rightarrow> bool" where
  "cons_ok s = (case cons s of CIdle \<Rightarrow> True
     | CTail t \<Rightarrow> t = ring_tail (hdr s)
     | CHead t h \<Rightarrow> t = ring_tail (hdr s) \<and> h - t \<le> Ring_Count (hdr s)
     | CRead t v \<Rightarrow> t = ring_tail (hdr s) \<and> Ring_Count (hdr s) \<noteq> 0 \<and>
         slots s ! unat (t AND ring_mask (hdr s)) = v)"

definition spsc_inv :: "spsc \<Rightarrow> bool" where
  "spsc_inv s \<longleftrightarrow> ring_inv (hdr s) (slots s) \<and> sent s = rcvd s @ ring_items (hdr s) (slots s) \<and>
     prod_ok s \<and> cons_ok s"

inductive_cases spsc_stepE: "spsc_step s s'"

lemma count_publish: "Ring_Count (r\<lparr>ring_head := ring_head r + 1\<rparr>) = Ring_Count r + 1"
  by (simp add: Ring_Count_def)

lemma count_consume: "Ring_Count (r\<lparr>ring_tail := ring_tail r + 1\<rparr>) = Ring_Count r - 1"
  by (simp add: Ring_Count_def)

lemma read_slot_unaffected:
  assumes inv: "ring_inv r sl" and "Ring_Count r \<noteq> 0" and room: "Ring_Count r < ring_capacity r"
  shows "sl[unat (ring_head r AND ring_mask r) := v] ! unat (ring_tail r AND ring_mask r)
    = sl ! unat (ring_tail r AND ring_mask r)"
  using items_store [OF inv room, of v] items_consume [OF assms(2)] by (metis list.inject)

lemma cons_ok_publish:
  assumes "cons_ok s" and "Ring_Count (hdr s) < ring_capacity (hdr s)"
  shows "cons_ok (s\<lparr>hdr := (hdr s)\<lparr>ring_head := ring_head (hdr s) + 1\<rparr>, prod := p, sent := x, sigs := y\<rparr>)"
  using assms unat_Suc_less [OF assms(2)]
  by (auto simp: cons_ok_def count_publish word_le_nat_alt unat_eq_zero split: consumer.splits)

lemma prod_ok_consume:
  assumes "prod_ok s" and "Ring_Count (hdr s) \<noteq> 0"
  shows "prod_ok (s\<lparr>hdr := (hdr s)\<lparr>ring_tail := ring_tail (hdr s) + 1\<rparr>, cons := c, rcvd := x\<rparr>)"
  using assms unat_pred [OF assms(2)]
  by (auto simp: prod_ok_def count_consume word_le_nat_alt word_less_nat_alt split: producer.splits)

lemma spsc_inv_step:
  assumes "spsc_inv s" and "spsc_step s s'"
  shows "spsc_inv s'"
proof -
  from assms(1) have inv: "ring_inv (hdr s) (slots s)"
    and items: "sent s = rcvd s @ ring_items (hdr s) (slots s)"
    and p: "prod_ok s" and c: "cons_ok s" by (auto simp: spsc_inv_def)
  note local = prod_ok_def cons_ok_def
  from assms(2) show ?thesis
  proof cases
    case (p_store v h t)
    with p have h: "h = ring_head (hdr s)" and room: "Ring_Count (hdr s) < ring_capacity (hdr s)"
      by (auto simp: local)
    have idx: "unat (h AND ring_mask (hdr s)) < length (slots s)"
      using head_index [OF inv] inv by (simp add: h ring_inv_def unat_gt_0)
    have "cons_ok s'"
      using c read_slot_unaffected [OF inv _ room, of v]
      by (auto simp: p_store h cons_ok_def split: consumer.splits)
    with idx inv items room show ?thesis
      by (simp add: p_store spsc_inv_def prod_ok_def h items_store)
  next
    case (p_publish v h t)
    with p have h: "h = ring_head (hdr s)" and room: "Ring_Count (hdr s) < ring_capacity (hdr s)"
      and v: "slots s ! unat (h AND ring_mask (hdr s)) = v" by (auto simp: local)
    show ?thesis
      using cons_ok_publish [OF c room] ring_inv_publish [OF inv room] items_publish [OF inv room] v
      by (simp add: p_publish h spsc_inv_def prod_ok_def items)
  next
    case (c_publish t v)
    with c have t: "t = ring_tail (hdr s)" and ne: "Ring_Count (hdr s) \<noteq> 0"
      and v: "slots s ! unat (t AND ring_mask (hdr s)) = v" by (auto simp: local)
    show ?thesis
      using prod_ok_consume [OF p ne] ring_inv_consume [OF inv ne] items_consume [OF ne, of "slots s"] v
      by (simp add: c_publish t spsc_inv_def cons_ok_def items)
  next
    case (c_read t h)
    with c have t: "t = ring_tail (hdr s)" and "h - t \<le> Ring_Count (hdr s)" by (auto simp: local)
    then have "Ring_Count (hdr s) \<noteq> 0" using c_read by auto
    then show ?thesis using assms(1) t
      by (auto simp: c_read spsc_inv_def local split: producer.splits)
  qed (use assms(1) in \<open>auto simp: spsc_inv_def local Ring_Count_def split: producer.splits consumer.splits\<close>)
qed

lemma spsc_inv_reach:
  assumes "spsc_step\<^sup>*\<^sup>* s s'" and "spsc_inv s"
  shows "spsc_inv s'"
  using assms by (induction rule: rtranclp_induct) (auto intro: spsc_inv_step)

lemma Ring_Init_inv:
  assumes "Ring_Init cap sig = Inr r" and "length sl = unat cap"
  shows "ring_inv r sl \<and> ring_items r sl = [] \<and> ring_capacity r = cap"
  using assms by (auto simp: Ring_Init_def ring_inv_def ring_items_def Ring_Count_def split: if_splits)

lemma spsc_inv_init:
  "Ring_Init cap sig = Inr r \<Longrightarrow> length sl = unat cap \<Longrightarrow> spsc_inv (spsc_init r sl)"
  using Ring_Init_inv [of cap sig r sl]
  by (simp add: spsc_inv_def spsc_init_def prod_ok_def cons_ok_def)

text \<open>A schedule of the two sides, executed: \<open>True\<close> moves the producer, \<open>False\<close> the consumer.\<close>

fun spsc_exec :: "RingSlot \<Rightarrow> bool \<Rightarrow> spsc \<Rightarrow> spsc" where
  "spsc_exec v True s = (case prod s of
     PIdle \<Rightarrow> s\<lparr>prod := PHead v (ring_head (hdr s))\<rparr>
   | PHead v h \<Rightarrow> s\<lparr>prod := PTail v h (ring_tail (hdr s))\<rparr>
   | PTail v h t \<Rightarrow> if h - t \<ge> ring_capacity (hdr s) then s\<lparr>prod := PIdle\<rparr>
       else s\<lparr>slots := (slots s)[unat (h AND ring_mask (hdr s)) := v], prod := PStored v h t\<rparr>
   | PStored v h t \<Rightarrow> s\<lparr>hdr := (hdr s)\<lparr>ring_head := h + 1\<rparr>, prod := PIdle,
       sent := sent s @ [v], sigs := sigs s @ [h = t]\<rparr>)"
| "spsc_exec v False s = (case cons s of
     CIdle \<Rightarrow> s\<lparr>cons := CTail (ring_tail (hdr s))\<rparr>
   | CTail t \<Rightarrow> s\<lparr>cons := CHead t (ring_head (hdr s))\<rparr>
   | CHead t h \<Rightarrow> if h = t then s\<lparr>cons := CIdle\<rparr>
       else s\<lparr>cons := CRead t (slots s ! unat (t AND ring_mask (hdr s)))\<rparr>
   | CRead t v \<Rightarrow> s\<lparr>hdr := (hdr s)\<lparr>ring_tail := t + 1\<rparr>, cons := CIdle, rcvd := rcvd s @ [v]\<rparr>)"

lemma spsc_exec_step: "spsc_step s (spsc_exec v b s)"
  by (cases b; cases "prod s"; cases "cons s")
    (auto intro: spsc_step.intros simp: not_le)

lemma spsc_exec_reach: "spsc_step\<^sup>*\<^sup>* s (fold (spsc_exec v) bs s)"
proof (induction bs arbitrary: s)
  case Nil
  then show ?case by simp
next
  case (Cons b bs)
  from spsc_exec_step Cons.IH show ?case
    by (metis converse_rtranclp_into_rtranclp fold_simps(2))
qed

section \<open>Properties\<close>

text \<open>
  C7. \<^verbatim>\<open>Ring_Enqueue\<close> on a well-formed ring, whatever the values of the free-running 32-bit
  counters: when the queue holds its capacity the call fails, raises no signal and changes
  nothing; otherwise it succeeds, appends the slot at the end of the queue, keeps the
  invariant, and asks for a wake-up exactly when the queue was empty.
\<close>

theorem Ring_Enqueue_correct:
  assumes "ring_inv r sl"
  shows "(if length (ring_items r sl) = unat (ring_capacity r)
          then Ring_Enqueue r sl v = (False, False, r, sl)
          else (\<exists>r' sl'. Ring_Enqueue r sl v = (True, ring_items r sl = [], r', sl') \<and>
                 ring_inv r' sl' \<and> ring_items r' sl' = ring_items r sl @ [v]))"
proof (cases "length (ring_items r sl) = unat (ring_capacity r)")
  case True
  then show ?thesis
    using count_full_iff [OF assms] by (simp add: Ring_Enqueue_def Ring_Count_def Let_def)
next
  case False
  have "length (ring_items r sl) \<le> unat (ring_capacity r)"
    using assms by (simp add: ring_inv_def word_le_nat_alt)
  with False show ?thesis using Ring_Enqueue_room [OF assms, of v] by auto
qed

text \<open>
  C25. A burst of slots that fits into a ring made by \<^verbatim>\<open>Ring_Init\<close> is accepted completely, and
  dequeuing as many times returns exactly the burst in order and leaves the ring empty.
\<close>

theorem ring_burst_roundtrip:
  assumes "Ring_Init cap sig = Inr r" and "length sl = unat cap" and "length xs \<le> unat cap"
  shows "\<exists>q1 q2. rq.enq_all (r, sl) xs = Some q1 \<and> rq.deq_n q1 (length xs) = Some (xs, q2) \<and>
    Ring_IsEmpty (fst q2)"
proof -
  have ri: "ring_inv r sl" "ring_items r sl = []" "ring_capacity r = cap"
    using Ring_Init_inv [OF assms(1,2)] by auto
  obtain q1 q2 where "rq.enq_all (r, sl) xs = Some q1" "rq.deq_n q1 (length xs) = Some (xs, q2)"
    and e: "(case q2 of (r, sl) \<Rightarrow> ring_items r sl) = []"
    using rq.burst_fifo [of "(r, sl)" xs] ri assms(3) by auto
  moreover have "Ring_IsEmpty (fst q2)"
    using e by (cases q2) (simp add: items_empty_iff Ring_IsEmpty_def Ring_Count_def)
  ultimately show ?thesis by blast
qed

text \<open>
  C11. However the producer's and the consumer's atomic accesses interleave, starting from an
  initialised ring the slots received are, at every moment, a prefix of the slots sent, and
  what is missing is exactly what the ring holds: nothing is lost, duplicated, reordered or
  read half written, and the ring never holds more than its capacity.
\<close>

theorem spsc_no_loss:
  assumes "Ring_Init cap sig = Inr r" and "length sl = unat cap"
    and "spsc_step\<^sup>*\<^sup>* (spsc_init r sl) s"
  shows "sent s = rcvd s @ ring_items (hdr s) (slots s) \<and>
    length (ring_items (hdr s) (slots s)) \<le> unat (ring_capacity (hdr s))"
  using spsc_inv_reach [OF assms(3) spsc_inv_init [OF assms(1,2)]]
  by (simp add: spsc_inv_def ring_inv_def word_le_nat_alt)

text \<open>
  C26. The wake-up flag compares with the tail loaded before the slot was written.  There is an
  interleaving from an initialised ring in which a publish takes the ring from empty to
  non-empty and the flag it reports is false, so the flag is not set \<^emph>\<open>exactly when\<close> the
  enqueue made the queue non-empty once the consumer runs concurrently.
\<close>

theorem spsc_signal_missed:
  "\<exists>r v s s'. Ring_Init 2 0 = Inr r \<and>
     spsc_step\<^sup>*\<^sup>* (spsc_init r [v, v]) s \<and> spsc_step s s' \<and>
     Ring_Count (hdr s) = 0 \<and> Ring_Count (hdr s') = 1 \<and> sent s' = sent s @ [v] \<and>
     \<not> last (sigs s')"
proof -
  let ?v = "\<lparr>slot_kind = 0, slot_length = 0, slot_payload = 0, slot_reserved = 0\<rparr>"
  let ?r = "\<lparr>ring_head = 0, ring_tail = 0, ring_capacity = 2, ring_mask = 1, ring_signal_kobj = 0\<rparr>"
  let ?sched = "[True, True, True, True, True, True, False, False, False, False, True]"
  let ?s = "fold (spsc_exec ?v) ?sched (spsc_init ?r [?v, ?v])"
  have "Ring_Init 2 0 = Inr ?r" by (simp add: Ring_Init_def)
  moreover have "spsc_step\<^sup>*\<^sup>* (spsc_init ?r [?v, ?v]) ?s" by (rule spsc_exec_reach)
  moreover have "spsc_step ?s (spsc_exec ?v True ?s)" by (rule spsc_exec_step)
  moreover have "Ring_Count (hdr ?s) = 0 \<and> Ring_Count (hdr (spsc_exec ?v True ?s)) = 1 \<and>
      sent (spsc_exec ?v True ?s) = sent ?s @ [?v] \<and> \<not> last (sigs (spsc_exec ?v True ?s))"
    by code_simp
  ultimately show ?thesis by blast
qed

section \<open>The properties at concrete rings\<close>

definition ring_ex :: "u32 \<Rightarrow> u32 \<Rightarrow> RingHeader" where
  "ring_ex h t = \<lparr>ring_head = h, ring_tail = t, ring_capacity = 2, ring_mask = 1, ring_signal_kobj = 0\<rparr>"

definition slot_ex :: "u32 \<Rightarrow> RingSlot" where
  "slot_ex k = \<lparr>slot_kind = k, slot_length = 0, slot_payload = 0, slot_reserved = 0\<rparr>"

text \<open>Enqueue into a ring whose head counter is about to wrap to zero.\<close>

theorem Ring_Enqueue_correct_witness:
  "\<exists>r' sl'. Ring_Enqueue (ring_ex (-1) (-2)) [slot_ex 7, slot_ex 0] (slot_ex 9) = (True, False, r', sl') \<and>
     ring_inv r' sl' \<and> ring_items r' sl' = [slot_ex 7, slot_ex 9]"
proof -
  let ?r = "ring_ex (-1) (-2)" and ?sl = "[slot_ex 7, slot_ex 0]"
  have inv: "ring_inv ?r ?sl" and items: "ring_items ?r ?sl = [slot_ex 7]" by code_simp+
  have cap: "unat (ring_capacity ?r) = 2" by (simp add: ring_ex_def)
  show ?thesis
    using Ring_Enqueue_correct [OF inv, of "slot_ex 9"] unfolding items cap by simp
qed

theorem ring_burst_roundtrip_witness:
  "\<exists>q1 q2. rq.enq_all (ring_ex 0 0, [slot_ex 0, slot_ex 0]) [slot_ex 1, slot_ex 2] = Some q1 \<and>
     rq.deq_n q1 (length [slot_ex 1, slot_ex 2]) = Some ([slot_ex 1, slot_ex 2], q2) \<and>
     Ring_IsEmpty (fst q2)"
  by (rule ring_burst_roundtrip [of 2 0]) (simp_all add: Ring_Init_def ring_ex_def)

theorem spsc_no_loss_witness:
  "\<exists>s. spsc_step\<^sup>*\<^sup>* (spsc_init (ring_ex 0 0) [slot_ex 0, slot_ex 0]) s \<and> sent s = [slot_ex 1, slot_ex 1] \<and>
     rcvd s = [slot_ex 1] \<and> ring_items (hdr s) (slots s) = [slot_ex 1]"
proof -
  let ?i = "spsc_init (ring_ex 0 0) [slot_ex 0, slot_ex 0]"
  let ?s = "fold (spsc_exec (slot_ex 1)) (replicate 8 True @ replicate 4 False) ?i"
  have reach: "spsc_step\<^sup>*\<^sup>* ?i ?s" by (rule spsc_exec_reach)
  have vals: "sent ?s = [slot_ex 1, slot_ex 1]" "rcvd ?s = [slot_ex 1]" by code_simp+
  have "sent ?s = rcvd ?s @ ring_items (hdr ?s) (slots ?s)"
    using spsc_no_loss [OF _ _ reach, of 2 0] by (simp add: Ring_Init_def ring_ex_def)
  with vals have "ring_items (hdr ?s) (slots ?s) = [slot_ex 1]" by simp
  with reach vals show ?thesis by blast
qed

end
