(* ===== verification/Kobj_Handles.thy ===== *)
theory Kobj_Handles
  imports Prelude
begin

text \<open>
  Kernel objects (\<^verbatim>\<open>src/croi/kobj/kobj.c\<close>) and per-task handle tables
  (\<^verbatim>\<open>src/croi/kobj/handle_table.c\<close>), with the types of \<^verbatim>\<open>include/cara/kobj.h\<close>.  Object
  pointers are addresses into a store of objects; a null pointer is \<open>None\<close>.  The table itself is
  passed by value and its result in place of an out-parameter, so the early returns on a null
  table or out pointer have no counterpart.  The type-specific
  destroy callback is an opaque value and each call of it is appended to a log.  The table's
  slots keep the source's embedded free list.
\<close>

section \<open>Kernel objects\<close>

datatype KobjType =
    KOBJ_NONE | KOBJ_TASK | KOBJ_MSGPORT | KOBJ_LIBRARY | KOBJ_SIGNAL | KOBJ_RING
  | KOBJ_MEMREGION | KOBJ_DEVICE | KOBJ_VOLUME | KOBJ_LOCK

type_synonym kptr = nat

record Kobj =
  kobj_type :: KobjType
  kobj_flags :: u16
  kobj_refcount :: u32
  kobj_id :: u64
  kobj_destroy :: "nat option"

record kstore =
  kobjs :: "kptr \<Rightarrow> Kobj"
  next_kobj_id :: u64
  destroy_log :: "(nat \<times> kptr) list"

definition upd_kobj :: "kptr \<Rightarrow> (Kobj \<Rightarrow> Kobj) \<Rightarrow> kstore \<Rightarrow> kstore" where
  "upd_kobj k f st = st\<lparr>kobjs := (kobjs st)(k := f (kobjs st k))\<rparr>"

definition Kobj_Init :: "kptr option \<Rightarrow> KobjType \<Rightarrow> nat option \<Rightarrow> kstore \<Rightarrow> kstore" where
  "Kobj_Init k ty destroy st = (case k of None \<Rightarrow> st
     | Some p \<Rightarrow>
         (upd_kobj p (\<lambda>o1. o1\<lparr>kobj_type := ty, kobj_flags := 0, kobj_refcount := 1,
            kobj_id := next_kobj_id st, kobj_destroy := destroy\<rparr>) st)
         \<lparr>next_kobj_id := next_kobj_id st + 1\<rparr>)"

definition Kobj_Retain :: "kptr option \<Rightarrow> kstore \<Rightarrow> kstore" where
  "Kobj_Retain k st = (case k of None \<Rightarrow> st
     | Some p \<Rightarrow> upd_kobj p (\<lambda>o1. o1\<lparr>kobj_refcount := kobj_refcount o1 + 1\<rparr>) st)"

definition Kobj_Release :: "kptr option \<Rightarrow> kstore \<Rightarrow> kstore" where
  "Kobj_Release k st = (case k of None \<Rightarrow> st
     | Some p \<Rightarrow>
         (let prev = kobj_refcount (kobjs st p);
              st1 = upd_kobj p (\<lambda>o1. o1\<lparr>kobj_refcount := kobj_refcount o1 - 1\<rparr>) st
          in if prev = 1 then
               (case kobj_destroy (kobjs st p) of None \<Rightarrow> st1
                | Some d \<Rightarrow> st1\<lparr>destroy_log := destroy_log st1 @ [(d, p)]\<rparr>)
             else st1))"

section \<open>Handle tables\<close>

type_synonym Handle = u32

definition HANDLE_INVALID :: Handle where
  "HANDLE_INVALID = 0xFFFFFFFF"

definition SLOT_INDEX_MASK :: u32 where
  "SLOT_INDEX_MASK = 0xFFFF"

definition GEN_SHIFT :: nat where
  "GEN_SHIFT = 16"

record HandleSlot =
  hs_target :: "kptr option"
  hs_generation :: u16
  hs_pad :: u16
  hs_next_free :: u32

record HandleTable =
  ht_slots :: "HandleSlot list option"
  ht_cap :: u32
  ht_free_head :: u32

text \<open>\<open>mem\<close> says whether the heap grants the slot array.\<close>

definition HandleTable_Init :: "bool \<Rightarrow> u32 \<Rightarrow> HandleTable result" where
  "HandleTable_Init mem cap =
    (if cap = 0 \<or> cap > 0xFFFF then Inl CARA_EINVAL
     else if \<not> mem then Inl CARA_ENOMEM
     else Inr \<lparr>ht_slots = Some (map (\<lambda>i. \<lparr>hs_target = None, hs_generation = 0, hs_pad = 0,
                  hs_next_free = (if of_nat i + 1 < cap then of_nat i + 1 else HANDLE_INVALID)\<rparr>)
                  [0..<unat cap]),
               ht_cap = cap, ht_free_head = 0\<rparr>)"

fun release_all :: "HandleSlot list \<Rightarrow> kstore \<Rightarrow> kstore" where
  "release_all [] st = st"
| "release_all (s # sl) st =
     release_all sl (if hs_target s \<noteq> None then Kobj_Release (hs_target s) st else st)"

definition HandleTable_Destroy :: "HandleTable \<Rightarrow> kstore \<Rightarrow> HandleTable \<times> kstore" where
  "HandleTable_Destroy ht st =
    (let st' = (case ht_slots ht of None \<Rightarrow> st | Some sl \<Rightarrow> release_all (take (unat (ht_cap ht)) sl) st)
     in (ht\<lparr>ht_slots := None, ht_cap := 0, ht_free_head := HANDLE_INVALID\<rparr>, st'))"

definition mk_handle :: "u16 \<Rightarrow> u32 \<Rightarrow> Handle" where
  "mk_handle gen idx = push_bit GEN_SHIFT (ucast gen) OR (idx AND SLOT_INDEX_MASK)"

definition slot_at :: "HandleTable \<Rightarrow> u32 \<Rightarrow> HandleSlot" where
  "slot_at ht idx = the (ht_slots ht) ! unat idx"

definition set_slot :: "HandleTable \<Rightarrow> u32 \<Rightarrow> HandleSlot \<Rightarrow> HandleTable" where
  "set_slot ht idx s = ht\<lparr>ht_slots := map_option (\<lambda>sl. sl[unat idx := s]) (ht_slots ht)\<rparr>"

definition HandleTable_Open ::
  "HandleTable \<Rightarrow> kptr option \<Rightarrow> kstore \<Rightarrow> Handle result \<times> HandleTable \<times> kstore" where
  "HandleTable_Open ht target st =
    (if target = None then (Inl CARA_EINVAL, ht, st)
     else if ht_free_head ht = HANDLE_INVALID then (Inl CARA_ENOMEM, ht, st)
     else let idx = ht_free_head ht; s = slot_at ht idx;
              ht1 = ht\<lparr>ht_free_head := hs_next_free s\<rparr>;
              ht2 = set_slot ht1 idx (s\<lparr>hs_target := target\<rparr>);
              st1 = Kobj_Retain target st
          in (Inr (mk_handle (hs_generation s) idx), ht2, st1))"

definition HandleTable_Lookup :: "HandleTable \<Rightarrow> Handle \<Rightarrow> KobjType \<Rightarrow> kstore \<Rightarrow> kptr result" where
  "HandleTable_Lookup ht h expected st =
    (let idx = h AND SLOT_INDEX_MASK; gen = drop_bit GEN_SHIFT h in
     if idx \<ge> ht_cap ht then Inl CARA_EBADF
     else let s = slot_at ht idx in
       (case hs_target s of None \<Rightarrow> Inl CARA_EBADF
        | Some t \<Rightarrow>
            if gen \<noteq> ucast (hs_generation s) then Inl CARA_EBADF
            else if expected \<noteq> KOBJ_NONE \<and> kobj_type (kobjs st t) \<noteq> expected then Inl CARA_EBADF
            else Inr t))"

definition HandleTable_Close :: "HandleTable \<Rightarrow> Handle \<Rightarrow> kstore \<Rightarrow> unit result \<times> HandleTable \<times> kstore" where
  "HandleTable_Close ht h st =
    (let idx = h AND SLOT_INDEX_MASK; gen = drop_bit GEN_SHIFT h in
     if idx \<ge> ht_cap ht then (Inl CARA_EBADF, ht, st)
     else let s = slot_at ht idx in
       if hs_target s = None \<or> gen \<noteq> ucast (hs_generation s) then (Inl CARA_EBADF, ht, st)
       else let target = hs_target s;
                s' = s\<lparr>hs_target := None, hs_generation := hs_generation s + 1,
                       hs_next_free := ht_free_head ht\<rparr>;
                ht1 = (set_slot ht idx s')\<lparr>ht_free_head := idx\<rparr>
            in (Inr (), ht1, Kobj_Release target st))"

section \<open>Handle encoding\<close>

lemma handle_fields:
  assumes "idx \<le> 0xFFFF"
  shows "mk_handle gen idx AND SLOT_INDEX_MASK = idx"
    and "drop_bit GEN_SHIFT (mk_handle gen idx) = (ucast gen :: u32)"
proof -
  have idx: "idx AND 0xFFFF = idx"
  proof -
    have "(0xFFFF :: u32) = mask 16" by (simp add: mask_eq_decr_exp)
    moreover have "take_bit 16 idx = idx"
      using assms by (intro take_bit_small) (simp add: word_le_nat_alt)
    ultimately show ?thesis by (simp add: take_bit_eq_mask)
  qed
  have m: "(0xFFFF :: u32) = mask 16" by (simp add: mask_eq_decr_exp)
  show "mk_handle gen idx AND SLOT_INDEX_MASK = idx"
    unfolding mk_handle_def SLOT_INDEX_MASK_def GEN_SHIFT_def idx
    using idx unfolding m by (auto simp: bit_eq_iff bit_simps)
  show "drop_bit GEN_SHIFT (mk_handle gen idx) = (ucast gen :: u32)"
    unfolding mk_handle_def SLOT_INDEX_MASK_def GEN_SHIFT_def m
    by (rule bit_word_eqI) (auto simp: bit_simps dest: bit_imp_le_length)
qed

section \<open>The table invariant\<close>

text \<open>\<open>free_path sl h fl\<close>: following \<open>hs_next_free\<close> from \<open>h\<close> visits exactly the slots \<open>fl\<close>.\<close>

fun free_path :: "HandleSlot list \<Rightarrow> u32 \<Rightarrow> nat list \<Rightarrow> bool" where
  "free_path sl h [] = (h = HANDLE_INVALID)"
| "free_path sl h (i # fl) =
    (h = of_nat i \<and> i < length sl \<and> free_path sl (hs_next_free (sl ! i)) fl)"

definition ht_inv :: "HandleTable \<Rightarrow> bool" where
  "ht_inv ht \<longleftrightarrow> (\<exists>sl fl. ht_slots ht = Some sl \<and> length sl = unat (ht_cap ht) \<and>
     0 < ht_cap ht \<and> ht_cap ht \<le> 0xFFFF \<and>
     free_path sl (ht_free_head ht) fl \<and> distinct fl \<and>
     set fl = {i. i < length sl \<and> hs_target (sl ! i) = None})"

text \<open>How many of the table's slots hold a given object, and the handles it answers.\<close>

definition handle_refs :: "HandleTable \<Rightarrow> kptr \<Rightarrow> nat" where
  "handle_refs ht k = length (filter (\<lambda>s. hs_target s = Some k) (the (ht_slots ht)))"

definition ht_full :: "HandleTable \<Rightarrow> bool" where
  "ht_full ht \<longleftrightarrow> (\<forall>s \<in> set (the (ht_slots ht)). hs_target s \<noteq> None)"

lemma free_path_update:
  "i \<notin> set fl \<Longrightarrow> free_path (sl[i := s]) h fl = free_path sl h fl"
  by (induction fl arbitrary: h) auto

lemma free_path_cong:
  assumes "length sl' = length sl" and "\<And>j. j < length sl \<Longrightarrow> hs_next_free (sl' ! j) = hs_next_free (sl ! j)"
  shows "free_path sl' h fl = free_path sl h fl"
proof (induction fl arbitrary: h)
  case (Cons i fl)
  show ?case
    using assms(2) [of i] by (cases "i < length sl") (simp_all add: assms(1) Cons.IH)
qed simp

lemma of_nat_not_invalid:
  assumes "i < n" and "n \<le> 0xFFFF"
  shows "(of_nat i :: u32) \<noteq> HANDLE_INVALID"
proof
  assume "(of_nat i :: u32) = HANDLE_INVALID"
  then have "unat (of_nat i :: u32) = 4294967295" by (simp add: HANDLE_INVALID_def)
  then have "i mod 4294967296 = 4294967295" by (simp add: unat_of_nat)
  with assms show False by simp
qed

lemma ht_invE:
  assumes "ht_inv ht"
  obtains sl fl where "ht_slots ht = Some sl" "length sl = unat (ht_cap ht)" "0 < ht_cap ht"
    "length sl \<le> 0xFFFF" "free_path sl (ht_free_head ht) fl" "distinct fl"
    "set fl = {i. i < length sl \<and> hs_target (sl ! i) = None}"
  using assms by (auto simp: ht_inv_def word_le_nat_alt)

lemma ht_invI:
  assumes "ht_slots ht = Some sl" "length sl = unat (ht_cap ht)" "0 < ht_cap ht"
    "length sl \<le> 0xFFFF" "free_path sl (ht_free_head ht) fl" "distinct fl"
    "set fl = {i. i < length sl \<and> hs_target (sl ! i) = None}"
  shows "ht_inv ht"
  using assms by (auto simp: ht_inv_def word_le_nat_alt)

lemma free_path_init:
  assumes "length sl = n" and "n \<le> 0xFFFF" and "m \<le> n"
    and "\<And>i. i < n \<Longrightarrow> hs_next_free (sl ! i) = (if Suc i < n then of_nat (Suc i) else HANDLE_INVALID)"
  shows "free_path sl (if m < n then of_nat m else HANDLE_INVALID) [m..<n]"
  using assms(3)
proof (induction m rule: inc_induct)
  case base
  then show ?case by simp
next
  case (step m)
  with assms show ?case by (auto simp: upt_conv_Cons split: if_splits)
qed

lemma HandleTable_Init_inv:
  assumes "HandleTable_Init mem cap = Inr ht"
  shows "ht_inv ht \<and> ht_cap ht = cap \<and> handle_refs ht k = 0"
proof -
  from assms have mem: "mem" and cap: "cap \<noteq> 0" "cap \<le> 0xFFFF"
    by (auto simp: HandleTable_Init_def not_less split: if_splits)
  let ?sl = "the (ht_slots ht)"
  from assms have sl: "ht_slots ht = Some ?sl" "length ?sl = unat cap" "ht_cap ht = cap"
    "ht_free_head ht = 0" "\<And>i. i < unat cap \<Longrightarrow> hs_target (?sl ! i) = None"
    by (auto simp: HandleTable_Init_def split: if_splits)
  have le: "unat cap \<le> 0xFFFF" using cap(2) by (simp add: word_le_nat_alt)
  have "(of_nat i + 1 < cap) = (Suc i < unat cap)" if "i < unat cap" for i
  proof -
    have "unat (of_nat (Suc i) :: u32) = Suc i"
      using that le by (simp add: unat_of_nat del: of_nat_Suc)
    then show ?thesis by (simp add: word_less_nat_alt add.commute)
  qed
  then have next_free: "hs_next_free (?sl ! i) = (if Suc i < unat cap then of_nat (Suc i) else HANDLE_INVALID)"
    if "i < unat cap" for i
    using assms that by (auto simp: HandleTable_Init_def add.commute split: if_splits)
  have pos: "0 < unat cap" using cap(1) by (simp add: unat_gt_0)
  then have path: "free_path ?sl (ht_free_head ht) [0..<unat cap]"
    using free_path_init [OF sl(2) le _ next_free, of 0] sl(4) by simp
  have "ht_inv ht"
    using sl(1) by (rule ht_invI [OF _ _ _ _ path]) (use sl le cap(1) in \<open>auto simp: word_neq_0_conv\<close>)
  moreover have "handle_refs ht k = 0"
    using assms by (auto simp: handle_refs_def HandleTable_Init_def filter_empty_conv split: if_splits)
  ultimately show ?thesis using sl(3) by simp
qed

section \<open>The table as a map from handles to objects\<close>

definition resolve :: "HandleTable \<Rightarrow> Handle \<Rightarrow> kptr option" where
  "resolve ht h = (let idx = h AND SLOT_INDEX_MASK; s = slot_at ht idx in
     if idx < ht_cap ht \<and> drop_bit GEN_SHIFT h = ucast (hs_generation s) then hs_target s else None)"

lemma Lookup_resolve:
  "HandleTable_Lookup ht h expected st = (case resolve ht h of None \<Rightarrow> Inl CARA_EBADF
     | Some t \<Rightarrow> if expected \<noteq> KOBJ_NONE \<and> kobj_type (kobjs st t) \<noteq> expected
         then Inl CARA_EBADF else Inr t)"
  by (auto simp: HandleTable_Lookup_def resolve_def Let_def split: option.splits)

lemma handle_eqI:
  assumes "h AND SLOT_INDEX_MASK = idx" and "drop_bit GEN_SHIFT h = (ucast gen :: u32)"
  shows "h = mk_handle gen idx"
proof -
  have m: "(0xFFFF :: u32) = mask 16" by (simp add: mask_eq_decr_exp)
  have "mk_handle gen idx = push_bit 16 (drop_bit 16 h) OR ((h AND mask 16) AND mask 16)"
    using assms unfolding mk_handle_def SLOT_INDEX_MASK_def GEN_SHIFT_def m by simp
  also have "\<dots> = h"
    by (rule bit_word_eqI) (auto simp: bit_simps)
  finally show ?thesis by simp
qed

lemma slot_set_slot:
  assumes "ht_slots ht = Some sl" and "unat idx < length sl"
  shows "slot_at (set_slot ht idx s) j = (if j = idx then s else slot_at ht j)"
proof -
  have "unat j = unat idx \<longleftrightarrow> j = idx" by (simp add: word_unat_eq_iff)
  with assms show ?thesis by (simp add: slot_at_def set_slot_def nth_list_update eq_commute)
qed

lemma resolve_set_slot:
  assumes "ht_slots ht = Some sl" and "unat idx < length sl" and "idx < ht_cap ht"
  shows "resolve ((set_slot ht idx s)\<lparr>ht_free_head := f\<rparr>) h =
    (if h AND SLOT_INDEX_MASK = idx
     then (if drop_bit GEN_SHIFT h = ucast (hs_generation s) then hs_target s else None)
     else resolve ht h)"
proof -
  have "slot_at ((set_slot ht idx s)\<lparr>ht_free_head := f\<rparr>) j = slot_at (set_slot ht idx s) j" for j
    by (simp add: slot_at_def)
  moreover have "ht_cap (set_slot ht idx s) = ht_cap ht" by (simp add: set_slot_def)
  ultimately show ?thesis
    using assms slot_set_slot [OF assms(1,2), of s] by (simp add: resolve_def Let_def)
qed

lemma mk_handle_fields:
  assumes "unat idx < n" and "n \<le> 0xFFFF"
  shows "mk_handle gen idx AND SLOT_INDEX_MASK = idx"
    and "drop_bit GEN_SHIFT (mk_handle gen idx) = (ucast gen :: u32)"
  using handle_fields [of idx gen] assms by (simp_all add: word_le_nat_alt)

lemma refs_update:
  assumes "i < length sl" and "length (filter P (take i sl)) + length (filter P (drop (Suc i) sl)) = n"
  shows "length (filter P (sl[i := s])) = n + (if P s then 1 else 0)"
    and "length (filter P sl) = n + (if P (sl ! i) then 1 else 0)"
proof -
  show "length (filter P (sl[i := s])) = n + (if P s then 1 else 0)"
    using assms by (simp add: upd_conv_take_nth_drop)
  have "sl = take i sl @ sl ! i # drop (Suc i) sl" using assms(1) by (simp add: id_take_nth_drop)
  then have "length (filter P sl) = length (filter P (take i sl @ sl ! i # drop (Suc i) sl))" by simp
  then show "length (filter P sl) = n + (if P (sl ! i) then 1 else 0)" using assms(2) by simp
qed

lemma handle_refs_set:
  assumes "ht_slots ht = Some sl" and "unat idx < length sl"
  shows "handle_refs ((set_slot ht idx s)\<lparr>ht_free_head := f\<rparr>) k
      + (if hs_target (slot_at ht idx) = Some k then 1 else 0)
    = handle_refs ht k + (if hs_target s = Some k then 1 else 0)"
  using refs_update [OF assms(2) refl, of "\<lambda>s. hs_target s = Some k"] assms(1)
  by (simp add: handle_refs_def set_slot_def slot_at_def)

lemma full_free_head:
  assumes "ht_inv ht"
  shows "ht_free_head ht = HANDLE_INVALID \<longleftrightarrow> ht_full ht"
proof -
  from assms obtain sl fl where ht: "ht_slots ht = Some sl" "length sl \<le> 0xFFFF"
    "free_path sl (ht_free_head ht) fl" "set fl = {i. i < length sl \<and> hs_target (sl ! i) = None}"
    by (rule ht_invE)
  have "ht_free_head ht = HANDLE_INVALID \<longleftrightarrow> fl = []"
    using ht(2,3) of_nat_not_invalid by (cases fl) auto
  also have "\<dots> \<longleftrightarrow> set fl = {}" by simp
  also have "\<dots> \<longleftrightarrow> ht_full ht"
    unfolding ht(4) by (auto simp: ht_full_def ht(1) all_set_conv_all_nth)
  finally show ?thesis .
qed

lemma Open_room:
  assumes inv: "ht_inv ht" and room: "\<not> ht_full ht"
  obtains h ht' where
    "HandleTable_Open ht (Some k) st = (Inr h, ht', Kobj_Retain (Some k) st)"
    "ht_inv ht'" "resolve ht h = None" "resolve ht' = (resolve ht)(h \<mapsto> k)"
    "handle_refs ht' k' = handle_refs ht k' + (if k' = k then 1 else 0)"
proof -
  from inv obtain sl fl where ht: "ht_slots ht = Some sl" "length sl = unat (ht_cap ht)" "0 < ht_cap ht"
    "length sl \<le> 0xFFFF" "free_path sl (ht_free_head ht) fl" "distinct fl"
    "set fl = {i. i < length sl \<and> hs_target (sl ! i) = None}"
    by (rule ht_invE)
  from room full_free_head [OF inv] have nz: "ht_free_head ht \<noteq> HANDLE_INVALID" by simp
  with ht(5) obtain i js where i: "fl = i # js" by (cases fl) auto
  let ?idx = "ht_free_head ht" and ?s = "slot_at ht (ht_free_head ht)"
  from ht(5) i have il: "i < length sl" and hd: "?idx = of_nat i" by auto
  then have ui: "unat ?idx = i" using ht(4) by (simp add: unat_of_nat)
  then have idx: "unat ?idx < length sl" "?idx < ht_cap ht"
    using il ht(2) by (simp_all add: word_less_nat_alt)
  have s: "?s = sl ! i" by (simp add: slot_at_def ht(1) ui)
  have free: "hs_target ?s = None" using ht(7) i s by auto
  let ?h = "mk_handle (hs_generation ?s) ?idx"
  let ?ht = "(set_slot ht ?idx (?s\<lparr>hs_target := Some k\<rparr>))\<lparr>ht_free_head := hs_next_free ?s\<rparr>"
  have op: "HandleTable_Open ht (Some k) st = (Inr ?h, ?ht, Kobj_Retain (Some k) st)"
    using nz by (simp add: HandleTable_Open_def Let_def set_slot_def)
  have slots': "ht_slots ?ht = Some (sl[i := ?s\<lparr>hs_target := Some k\<rparr>])"
    by (simp add: set_slot_def ht(1) ui)
  have "ht_inv ?ht"
  proof (rule ht_invI [OF slots', where fl = js])
    show "free_path (sl[i := ?s\<lparr>hs_target := Some k\<rparr>]) (ht_free_head ?ht) js"
      using ht(5,6) i s by (simp add: free_path_update)
    have "set js = set fl - {i}" using ht(6) i by auto
    then show "set js = {j. j < length (sl[i := ?s\<lparr>hs_target := Some k\<rparr>]) \<and>
        hs_target (sl[i := ?s\<lparr>hs_target := Some k\<rparr>] ! j) = None}"
      unfolding ht(7) using il by (auto simp: nth_list_update split: if_splits)
  qed (use ht i in \<open>auto simp: set_slot_def\<close>)
  moreover have "resolve ?ht = (resolve ht)(?h \<mapsto> k)"
  proof
    fix h
    note r = resolve_set_slot [OF ht(1) idx, where s = "?s\<lparr>hs_target := Some k\<rparr>" and f = "hs_next_free ?s" and h = h]
    show "resolve ?ht h = ((resolve ht)(?h \<mapsto> k)) h"
    proof (cases "h = ?h")
      case True
      then show ?thesis using r mk_handle_fields [OF idx(1) ht(4)] by simp
    next
      case False
      then have "\<not> (h AND SLOT_INDEX_MASK = ?idx \<and> drop_bit GEN_SHIFT h = ucast (hs_generation ?s))"
        using handle_eqI by blast
      then show ?thesis using r False free by (auto simp: resolve_def Let_def)
    qed
  qed
  moreover have "resolve ht ?h = None"
    using free mk_handle_fields [OF idx(1) ht(4)] by (simp add: resolve_def Let_def)
  moreover have "handle_refs ?ht k' = handle_refs ht k' + (if k' = k then 1 else 0)"
    using handle_refs_set [OF ht(1) idx(1), where s = "?s\<lparr>hs_target := Some k\<rparr>" and f = "hs_next_free ?s" and k = k'] free
    by auto
  ultimately show ?thesis by (intro that [OF op])
qed

lemma Open_full:
  "ht_inv ht \<Longrightarrow> ht_full ht \<Longrightarrow> HandleTable_Open ht (Some k) st = (Inl CARA_ENOMEM, ht, st)"
  by (simp add: HandleTable_Open_def full_free_head)

lemma Close_bad:
  "resolve ht h = None \<Longrightarrow> HandleTable_Close ht h st = (Inl CARA_EBADF, ht, st)"
  by (auto simp: HandleTable_Close_def resolve_def Let_def not_le split: if_splits)

lemma Close_valid:
  assumes inv: "ht_inv ht" and res: "resolve ht h = Some k"
  obtains ht' where
    "HandleTable_Close ht h st = (Inr (), ht', Kobj_Release (Some k) st)"
    "ht_inv ht'" "resolve ht' = (resolve ht)(h := None)"
    "handle_refs ht k' = handle_refs ht' k' + (if k' = k then 1 else 0)"
proof -
  from inv obtain sl fl where ht: "ht_slots ht = Some sl" "length sl = unat (ht_cap ht)" "0 < ht_cap ht"
    "length sl \<le> 0xFFFF" "free_path sl (ht_free_head ht) fl" "distinct fl"
    "set fl = {i. i < length sl \<and> hs_target (sl ! i) = None}"
    by (rule ht_invE)
  let ?idx = "h AND SLOT_INDEX_MASK"
  let ?s = "slot_at ht ?idx"
  from res have idx: "?idx < ht_cap ht" and gen: "drop_bit GEN_SHIFT h = ucast (hs_generation ?s)"
    and tgt: "hs_target ?s = Some k"
    by (auto simp: resolve_def Let_def split: if_splits)
  have il: "unat ?idx < length sl" using idx ht(2) by (simp add: word_less_nat_alt)
  let ?s' = "?s\<lparr>hs_target := None, hs_generation := hs_generation ?s + 1, hs_next_free := ht_free_head ht\<rparr>"
  let ?ht = "(set_slot ht ?idx ?s')\<lparr>ht_free_head := ?idx\<rparr>"
  have cl: "HandleTable_Close ht h st = (Inr (), ?ht, Kobj_Release (Some k) st)"
    using idx gen tgt by (simp add: HandleTable_Close_def Let_def not_le)
  have fresh: "unat ?idx \<notin> set fl" using ht(7) tgt by (auto simp: slot_at_def ht(1))
  have slots': "ht_slots ?ht = Some (sl[unat ?idx := ?s'])"
    by (simp add: set_slot_def ht(1))
  have "ht_inv ?ht"
  proof (rule ht_invI [OF slots', where fl = "unat ?idx # fl"])
    show "free_path (sl[unat ?idx := ?s']) (ht_free_head ?ht) (unat ?idx # fl)"
      using ht(5) fresh il by (simp add: free_path_update)
    show "set (unat ?idx # fl) = {j. j < length (sl[unat ?idx := ?s']) \<and>
        hs_target (sl[unat ?idx := ?s'] ! j) = None}"
      unfolding list.set ht(7) using il by (auto simp: nth_list_update split: if_splits)
  qed (use ht fresh in \<open>auto simp: set_slot_def\<close>)
  moreover have "resolve ?ht = (resolve ht)(h := None)"
  proof
    fix g
    note r = resolve_set_slot [OF ht(1) il idx, where s = ?s' and f = ?idx and h = g]
    show "resolve ?ht g = ((resolve ht)(h := None)) g"
    proof (cases "g = h")
      case True
      then show ?thesis using r by simp
    next
      case False
      then have "\<not> (g AND SLOT_INDEX_MASK = ?idx \<and> drop_bit GEN_SHIFT g = ucast (hs_generation ?s))"
        using handle_eqI [OF refl gen] handle_eqI [of g] by metis
      then show ?thesis using r False by (auto simp: resolve_def Let_def)
    qed
  qed
  moreover have "handle_refs ht k' = handle_refs ?ht k' + (if k' = k then 1 else 0)"
    using handle_refs_set [OF ht(1) il, where s = ?s' and f = ?idx and k = k'] tgt by auto
  ultimately show ?thesis by (intro that [OF cl])
qed

section \<open>The contract clients of a handle table rely on\<close>

locale handle_map =
  fixes lookup :: "'t \<Rightarrow> 'h \<Rightarrow> 'k option"
    and open_h :: "'t \<Rightarrow> 'k \<Rightarrow> ('h \<times> 't) option"
    and close_h :: "'t \<Rightarrow> 'h \<Rightarrow> 't option"
    and inv :: "'t \<Rightarrow> bool"
    and full :: "'t \<Rightarrow> bool"
  assumes open_full: "inv t \<Longrightarrow> full t \<Longrightarrow> open_h t k = None"
    and open_room: "inv t \<Longrightarrow> \<not> full t \<Longrightarrow> \<exists>h t'. open_h t k = Some (h, t') \<and> inv t' \<and>
      lookup t h = None \<and> lookup t' = (lookup t)(h \<mapsto> k)"
    and close_bad: "lookup t h = None \<Longrightarrow> close_h t h = None"
    and close_ok: "inv t \<Longrightarrow> lookup t h = Some k \<Longrightarrow>
      \<exists>t'. close_h t h = Some t' \<and> inv t' \<and> lookup t' = (lookup t)(h := None)"
begin

lemma open_then_close:
  assumes "inv t" and "open_h t k = Some (h, t')"
  shows "\<exists>t''. close_h t' h = Some t'' \<and> inv t'' \<and> lookup t'' = lookup t"
proof -
  have "\<not> full t" using assms open_full by fastforce
  with open_room [OF assms(1), of k] assms(2) have
    t': "inv t'" "lookup t h = None" "lookup t' = (lookup t)(h \<mapsto> k)" by auto
  with close_ok [of t' h k] show ?thesis by (metis fun_upd_same fun_upd_triv fun_upd_upd)
qed

text \<open>Handles that are valid at the same time are different for different opens.\<close>

lemma open_fresh:
  assumes "inv t" and "open_h t k1 = Some (h1, t1)" and "open_h t1 k2 = Some (h2, t2)"
  shows "h1 \<noteq> h2 \<and> lookup t2 h1 = Some k1 \<and> lookup t2 h2 = Some k2"
proof -
  have "\<not> full t" using assms open_full by fastforce
  with open_room [OF assms(1), of k1] assms(2) have
    t1: "inv t1" "lookup t1 = (lookup t)(h1 \<mapsto> k1)" by auto
  then have "\<not> full t1" using assms open_full by fastforce
  with open_room [OF t1(1), of k2] assms(3) t1(2) show ?thesis by auto
qed

text \<open>Closing twice fails the second time.\<close>

lemma double_close:
  assumes "inv t" and "close_h t h = Some t'"
  shows "close_h t' h = None"
  using assms close_bad [of t h] close_ok [OF assms(1), of h] close_bad [of t' h]
  by (cases "lookup t h") fastforce+

end

type_synonym htab = "HandleTable \<times> kstore"

definition ht_open :: "htab \<Rightarrow> kptr \<Rightarrow> (Handle \<times> htab) option" where
  "ht_open t k = (case HandleTable_Open (fst t) (Some k) (snd t) of
     (Inl _, _) \<Rightarrow> None | (Inr h, t') \<Rightarrow> Some (h, t'))"

definition ht_close :: "htab \<Rightarrow> Handle \<Rightarrow> htab option" where
  "ht_close t h = (case HandleTable_Close (fst t) h (snd t) of
     (Inl _, _) \<Rightarrow> None | (Inr _, t') \<Rightarrow> Some t')"

interpretation hm: handle_map "\<lambda>t. resolve (fst t)" ht_open ht_close
  "\<lambda>t. ht_inv (fst t)" "\<lambda>t. ht_full (fst t)"
proof unfold_locales
  fix t :: htab and k :: kptr and h :: Handle
  show "ht_open t k = None" if "ht_inv (fst t)" "ht_full (fst t)"
    using that by (simp add: ht_open_def Open_full)
  show "\<exists>h t'. ht_open t k = Some (h, t') \<and> ht_inv (fst t') \<and> resolve (fst t) h = None \<and>
      resolve (fst t') = (resolve (fst t))(h \<mapsto> k)" if "ht_inv (fst t)" "\<not> ht_full (fst t)"
    using Open_room [OF that, of k "snd t"] by (fastforce simp: ht_open_def)
  show "ht_close t h = None" if "resolve (fst t) h = None"
    using that by (simp add: ht_close_def Close_bad)
  show "\<exists>t'. ht_close t h = Some t' \<and> ht_inv (fst t') \<and>
      resolve (fst t') = (resolve (fst t))(h := None)"
    if "ht_inv (fst t)" "resolve (fst t) h = Some k"
    using Close_valid [OF that, of "snd t"] by (fastforce simp: ht_close_def)
qed

section \<open>Reference counts\<close>

lemma refcount_retain:
  "kobj_refcount (kobjs (Kobj_Retain (Some k) st) k')
    = kobj_refcount (kobjs st k') + (if k' = k then 1 else 0)"
  by (simp add: Kobj_Retain_def upd_kobj_def)

lemma refcount_release:
  "kobj_refcount (kobjs (Kobj_Release (Some k) st) k')
    = kobj_refcount (kobjs st k') - (if k' = k then 1 else 0)"
  by (simp add: Kobj_Release_def upd_kobj_def Let_def split: option.splits)

lemma refcount_release_all:
  "kobj_refcount (kobjs (release_all sl st) k)
    = kobj_refcount (kobjs st k) - of_nat (length (filter (\<lambda>s. hs_target s = Some k) sl))"
  by (induction sl arbitrary: st) (auto simp: refcount_release)

text \<open>Any sequence of opens and closes on one table.\<close>

inductive ht_step :: "htab \<Rightarrow> htab \<Rightarrow> bool" where
  step_open: "HandleTable_Open ht (Some k) st = (r, ht', st') \<Longrightarrow> ht_step (ht, st) (ht', st')"
| step_close: "HandleTable_Close ht h st = (r, ht', st') \<Longrightarrow> ht_step (ht, st) (ht', st')"

inductive_cases ht_stepE: "ht_step (ht, st) (ht', st')"

definition refs_balanced :: "(kptr \<Rightarrow> u32) \<Rightarrow> htab \<Rightarrow> bool" where
  "refs_balanced base t \<longleftrightarrow> ht_inv (fst t) \<and>
     (\<forall>k. kobj_refcount (kobjs (snd t) k) = base k + of_nat (handle_refs (fst t) k))"

lemma refs_balanced_step:
  assumes bal: "refs_balanced base (ht, st)" and "ht_step (ht, st) (ht', st')"
  shows "refs_balanced base (ht', st')"
proof -
  from bal have inv: "ht_inv ht" by (simp add: refs_balanced_def)
  from assms(2) consider
      (1) k r where "HandleTable_Open ht (Some k) st = (r, ht', st')"
    | (2) h r where "HandleTable_Close ht h st = (r, ht', st')"
    by (rule ht_stepE)
  then show ?thesis
  proof cases
    case 1
    show ?thesis
    proof (cases "ht_full ht")
      case True
      with 1 inv bal show ?thesis by (simp add: Open_full)
    next
      case False
      with Open_room [OF inv False, of k st] 1 have
        "ht_inv ht'" "st' = Kobj_Retain (Some k) st"
        "handle_refs ht' k' = handle_refs ht k' + (if k' = k then 1 else 0)" for k'
        by (metis prod.inject)+
      with bal show ?thesis by (simp add: refs_balanced_def refcount_retain)
    qed
  next
    case 2
    show ?thesis
    proof (cases "resolve ht h")
      case None
      with 2 bal show ?thesis by (simp add: Close_bad)
    next
      case (Some k)
      with Close_valid [OF inv Some, of st] 2 have
        "ht_inv ht'" "st' = Kobj_Release (Some k) st"
        "handle_refs ht k' = handle_refs ht' k' + (if k' = k then 1 else 0)" for k'
        by (metis prod.inject)+
      with bal show ?thesis by (simp add: refs_balanced_def refcount_release)
    qed
  qed
qed

lemma refs_balanced_reach:
  assumes "ht_step\<^sup>*\<^sup>* t t'" and "refs_balanced base t"
  shows "refs_balanced base t'"
  using assms
proof (induction rule: rtranclp_induct)
  case (step y z)
  then show ?case using refs_balanced_step by (metis prod.collapse)
qed simp

section \<open>Re-use of a slot\<close>

text \<open>\<open>churn n k\<close>: \<open>n\<close> times open a handle to \<open>k\<close> and close it again.\<close>

primrec churn :: "nat \<Rightarrow> kptr \<Rightarrow> htab \<Rightarrow> htab" where
  "churn 0 k t = t"
| "churn (Suc n) k t = (case HandleTable_Open (fst t) (Some k) (snd t) of
     (Inl _, ht1, st1) \<Rightarrow> churn n k (ht1, st1)
   | (Inr h, ht1, st1) \<Rightarrow> (case HandleTable_Close ht1 h st1 of (_, t2) \<Rightarrow> churn n k t2))"

lemma free_slot_index:
  assumes "ht_inv ht" and "\<not> ht_full ht"
  obtains sl where "ht_slots ht = Some sl" "unat (ht_free_head ht) < length sl"
    "ht_free_head ht < ht_cap ht" "length sl \<le> 0xFFFF" "hs_target (slot_at ht (ht_free_head ht)) = None"
    "ht_free_head ht \<noteq> HANDLE_INVALID"
proof -
  from assms(1) obtain sl fl where ht: "ht_slots ht = Some sl" "length sl = unat (ht_cap ht)"
    "length sl \<le> 0xFFFF" "free_path sl (ht_free_head ht) fl"
    "set fl = {i. i < length sl \<and> hs_target (sl ! i) = None}"
    by (rule ht_invE)
  from assms full_free_head have nz: "ht_free_head ht \<noteq> HANDLE_INVALID" by blast
  with ht(4) obtain i js where i: "fl = i # js" by (cases fl) auto
  with ht(4) have "i < length sl" "ht_free_head ht = of_nat i" by auto
  moreover from this have "unat (ht_free_head ht) = i" using ht(3) by (simp add: unat_of_nat)
  moreover have "hs_target (sl ! i) = None" using ht(5) i by auto
  ultimately show ?thesis
    using that [OF ht(1)] ht nz by (simp add: slot_at_def word_less_nat_alt)
qed

lemma slot_same_target:
  "hs_target (s::HandleSlot) = None \<Longrightarrow> s\<lparr>hs_target := None, hs_generation := g\<rparr> = s\<lparr>hs_generation := g\<rparr>"
  by (cases s) simp

lemma open_close_cycle:
  assumes inv: "ht_inv ht" and room: "\<not> ht_full ht"
  defines "idx \<equiv> ht_free_head ht"
  shows "\<exists>st'. churn (Suc 0) k (ht, st) =
    (set_slot ht idx ((slot_at ht idx)\<lparr>hs_generation := hs_generation (slot_at ht idx) + 1\<rparr>), st')"
proof -
  obtain sl where f: "ht_slots ht = Some sl" "unat idx < length sl" "idx < ht_cap ht"
    "length sl \<le> 0xFFFF" "hs_target (slot_at ht idx) = None" "idx \<noteq> HANDLE_INVALID"
    unfolding idx_def using inv room by (rule free_slot_index)
  let ?s = "slot_at ht idx"
  let ?ht1 = "(set_slot ht idx (?s\<lparr>hs_target := Some k\<rparr>))\<lparr>ht_free_head := hs_next_free ?s\<rparr>"
  have open1: "HandleTable_Open ht (Some k) st
      = (Inr (mk_handle (hs_generation ?s) idx), ?ht1, Kobj_Retain (Some k) st)"
    using f(6) by (simp add: HandleTable_Open_def Let_def idx_def set_slot_def)
  have s1: "slot_at ?ht1 idx = ?s\<lparr>hs_target := Some k\<rparr>"
    using slot_set_slot [OF f(1,2)] by (simp add: slot_at_def)
  have "ht_cap ?ht1 = ht_cap ht" by (simp add: set_slot_def)
  then have "HandleTable_Close ?ht1 (mk_handle (hs_generation ?s) idx) st'
      = (Inr (), (set_slot ?ht1 idx (?s\<lparr>hs_target := None, hs_generation := hs_generation ?s + 1,
           hs_next_free := hs_next_free ?s\<rparr>))\<lparr>ht_free_head := idx\<rparr>, Kobj_Release (Some k) st')" for st'
    using f(3) s1 mk_handle_fields [OF f(2,4)]
    by (simp add: HandleTable_Close_def Let_def not_le)
  moreover have "(set_slot ?ht1 idx (?s\<lparr>hs_target := None, hs_generation := hs_generation ?s + 1,
           hs_next_free := hs_next_free ?s\<rparr>))\<lparr>ht_free_head := idx\<rparr>
      = set_slot ht idx (?s\<lparr>hs_generation := hs_generation ?s + 1\<rparr>)"
    using f(1) slot_same_target [OF f(5)] by (simp add: set_slot_def idx_def)
  ultimately show ?thesis by (simp add: open1)
qed

lemma inv_set_generation:
  fixes g :: u16
  assumes inv: "ht_inv ht" and room: "\<not> ht_full ht"
  defines "ht' \<equiv> set_slot ht (ht_free_head ht) ((slot_at ht (ht_free_head ht))\<lparr>hs_generation := g\<rparr>)"
  shows "ht_inv ht' \<and> \<not> ht_full ht' \<and> ht_free_head ht' = ht_free_head ht \<and>
    slot_at ht' (ht_free_head ht) = (slot_at ht (ht_free_head ht))\<lparr>hs_generation := g\<rparr>"
proof -
  obtain sl0 where f: "ht_slots ht = Some sl0" "unat (ht_free_head ht) < length sl0"
    "hs_target (slot_at ht (ht_free_head ht)) = None"
    using inv room by (rule free_slot_index)
  from inv obtain sl fl where ht: "ht_slots ht = Some sl" "length sl = unat (ht_cap ht)" "0 < ht_cap ht"
    "length sl \<le> 0xFFFF" "free_path sl (ht_free_head ht) fl" "distinct fl"
    "set fl = {i. i < length sl \<and> hs_target (sl ! i) = None}"
    by (rule ht_invE)
  let ?i = "unat (ht_free_head ht)"
  let ?sl = "sl[?i := (sl ! ?i)\<lparr>hs_generation := g\<rparr>]"
  have il: "?i < length sl" using f ht(1) by simp
  have next_free: "hs_next_free (?sl ! j) = hs_next_free (sl ! j)" and tgt: "hs_target (?sl ! j) = hs_target (sl ! j)"
    if "j < length sl" for j
    using that il by (auto simp: nth_list_update)
  have path: "free_path ?sl h js = free_path sl h js" for h js
    by (rule free_path_cong) (use next_free in auto)
  have slots': "ht_slots ht' = Some ?sl" by (simp add: ht'_def set_slot_def slot_at_def ht(1))
  have "ht_inv ht'"
    by (rule ht_invI [OF slots', of fl])
      (use ht in \<open>simp_all add: path tgt ht'_def set_slot_def cong: conj_cong\<close>)
  moreover have "\<not> ht_full ht'"
    using f(3) il ht(1) by (auto simp: ht_full_def slots' all_set_conv_all_nth slot_at_def tgt intro!: exI [of _ ?i])
  ultimately show ?thesis
    using slot_set_slot [OF f(1,2)] by (simp add: ht'_def set_slot_def)
qed

lemma churn_generation:
  "ht_inv ht \<Longrightarrow> \<not> ht_full ht \<Longrightarrow>
   \<exists>ht' st'. churn n k (ht, st) = (ht', st') \<and> ht_inv ht' \<and> \<not> ht_full ht' \<and>
     ht_free_head ht' = ht_free_head ht \<and>
     hs_generation (slot_at ht' (ht_free_head ht)) = hs_generation (slot_at ht (ht_free_head ht)) + of_nat n"
proof (induction n arbitrary: ht st)
  case 0
  then show ?case by simp
next
  case (Suc n)
  let ?ht1 = "set_slot ht (ht_free_head ht) ((slot_at ht (ht_free_head ht))
    \<lparr>hs_generation := hs_generation (slot_at ht (ht_free_head ht)) + 1\<rparr>)"
  from open_close_cycle [OF Suc.prems] obtain st1 where
    "churn (Suc 0) k (ht, st) = (?ht1, st1)" by blast
  then have step: "churn (Suc n) k (ht, st) = churn n k (?ht1, st1)"
    by (auto split: prod.splits sum.splits)
  from inv_set_generation [OF Suc.prems] Suc.IH [of ?ht1 st1] show ?case
    unfolding step by (auto simp: add.assoc)
qed

section \<open>Properties\<close>

text \<open>
  C5. \<^verbatim>\<open>HandleTable_Open\<close> on a well-formed table: with no free slot it returns \<^verbatim>\<open>CARA_ENOMEM\<close>
  and changes nothing; otherwise it returns a handle that was not valid before, that now
  resolves to the object, while every other handle value resolves as before; the object's
  reference count goes up by one and the free list stays well formed.
\<close>

theorem HandleTable_Open_correct:
  assumes "ht_inv ht"
  shows "if ht_full ht then HandleTable_Open ht (Some k) st = (Inl CARA_ENOMEM, ht, st)
    else \<exists>h ht'. HandleTable_Open ht (Some k) st = (Inr h, ht', Kobj_Retain (Some k) st) \<and> ht_inv ht' \<and>
      resolve ht h = None \<and> resolve ht' = (resolve ht)(h \<mapsto> k) \<and>
      HandleTable_Lookup ht' h KOBJ_NONE st = Inr k"
  using Open_full [OF assms] Open_room [OF assms, of k st]
  by (fastforce simp: Lookup_resolve)

text \<open>
  C16. \<^verbatim>\<open>HandleTable_Close\<close>: a handle that does not resolve is refused with \<^verbatim>\<open>CARA_EBADF\<close> and
  nothing changes; a valid one is removed, so that looking it up or closing it again gives
  \<^verbatim>\<open>CARA_EBADF\<close>, every other handle resolves as before, and the object is released once.
\<close>

theorem HandleTable_Close_correct:
  assumes "ht_inv ht"
  shows "case resolve ht h of
      None \<Rightarrow> HandleTable_Close ht h st = (Inl CARA_EBADF, ht, st)
    | Some k \<Rightarrow> \<exists>ht'. HandleTable_Close ht h st = (Inr (), ht', Kobj_Release (Some k) st) \<and> ht_inv ht' \<and>
        resolve ht' = (resolve ht)(h := None) \<and>
        HandleTable_Lookup ht' h expected st = Inl CARA_EBADF \<and>
        HandleTable_Close ht' h st' = (Inl CARA_EBADF, ht', st')"
proof (cases "resolve ht h")
  case None
  then show ?thesis by (simp add: Close_bad)
next
  case (Some k)
  from assms Some obtain ht' where
    ht': "HandleTable_Close ht h st = (Inr (), ht', Kobj_Release (Some k) st)"
    "ht_inv ht'" "resolve ht' = (resolve ht)(h := None)"
    by (rule Close_valid)
  then have "resolve ht' h = None" by simp
  then show ?thesis using Some ht' by (simp add: Lookup_resolve Close_bad)
qed

text \<open>
  C17. Reference counting: after any sequence of opens and closes on a table made by
  \<^verbatim>\<open>HandleTable_Init\<close>, every object's reference count is what it was at the start plus the
  number of slots that hold it, and \<^verbatim>\<open>HandleTable_Destroy\<close> brings every count back to the
  starting value and leaves the table empty.
\<close>

theorem handle_refcount_balance:
  assumes "HandleTable_Init True cap = Inr ht0" and "ht_step\<^sup>*\<^sup>* (ht0, st0) (ht, st)"
  shows "kobj_refcount (kobjs st k) = kobj_refcount (kobjs st0 k) + of_nat (handle_refs ht k) \<and>
    kobj_refcount (kobjs (snd (HandleTable_Destroy ht st)) k) = kobj_refcount (kobjs st0 k) \<and>
    ht_slots (fst (HandleTable_Destroy ht st)) = None"
proof -
  have "refs_balanced (\<lambda>k. kobj_refcount (kobjs st0 k)) (ht0, st0)"
    using HandleTable_Init_inv [OF assms(1)] by (simp add: refs_balanced_def)
  from refs_balanced_reach [OF assms(2) this]
  have inv: "ht_inv ht" and bal: "kobj_refcount (kobjs st k) = kobj_refcount (kobjs st0 k) + of_nat (handle_refs ht k)"
    by (simp_all add: refs_balanced_def)
  from inv obtain sl where "ht_slots ht = Some sl" "length sl = unat (ht_cap ht)" by (rule ht_invE)
  then show ?thesis
    using bal by (simp add: HandleTable_Destroy_def refcount_release_all handle_refs_def)
qed

text \<open>
  C24. The 16-bit generation wraps, so a stale handle does become valid again: after a handle
  to \<open>k1\<close> is opened and closed, and the slot is opened and closed 65535 more times, the next
  open of a different object \<open>k2\<close> returns the very same handle value, and the stale handle
  resolves to \<open>k2\<close>.
\<close>

theorem stale_handle_revalidated:
  assumes "ht_inv ht" and "\<not> ht_full ht"
  shows "\<exists>h ht1 st1 ht2 st2 ht3 st3.
    HandleTable_Open ht (Some k1) st = (Inr h, ht1, st1) \<and>
    HandleTable_Close ht1 h st1 = (Inr (), ht2, st2) \<and>
    HandleTable_Lookup ht2 h KOBJ_NONE st2 = Inl CARA_EBADF \<and>
    HandleTable_Open (fst (churn 65535 k1 (ht2, st2))) (Some k2) (snd (churn 65535 k1 (ht2, st2)))
      = (Inr h, ht3, st3) \<and>
    HandleTable_Lookup ht3 h KOBJ_NONE st3 = Inr k2"
proof -
  obtain h ht1 where o1: "HandleTable_Open ht (Some k1) st = (Inr h, ht1, Kobj_Retain (Some k1) st)"
    "ht_inv ht1" "resolve ht1 = (resolve ht)(h \<mapsto> k1)" using assms by (rule Open_room)
  let ?st1 = "Kobj_Retain (Some k1) st"
  have "resolve ht1 h = Some k1" using o1(3) by simp
  with o1(2) obtain ht2 where c1: "HandleTable_Close ht1 h ?st1 = (Inr (), ht2, Kobj_Release (Some k1) ?st1)"
    "ht_inv ht2" "resolve ht2 = (resolve ht1)(h := None)" by (rule Close_valid)
  let ?st2 = "Kobj_Release (Some k1) ?st1" and ?idx = "ht_free_head ht"
  have h: "h = mk_handle (hs_generation (slot_at ht ?idx)) ?idx"
    using o1(1) by (auto simp: HandleTable_Open_def Let_def split: if_splits)
  have cycle: "churn (Suc n) k1 (ht, st) = churn n k1 (ht2, ?st2)" for n by (simp add: o1(1) c1(1))
  from churn_generation [OF assms, of 65536 k1 st] obtain ht3 st3 where
    ch: "churn 65536 k1 (ht, st) = (ht3, st3)" "ht_inv ht3" "\<not> ht_full ht3" "ht_free_head ht3 = ?idx"
    "hs_generation (slot_at ht3 ?idx) = hs_generation (slot_at ht ?idx)"
    by auto
  then have ch2: "churn 65535 k1 (ht2, ?st2) = (ht3, st3)" using cycle [of 65535] by simp
  obtain h' ht4 where o2: "HandleTable_Open ht3 (Some k2) st3 = (Inr h', ht4, Kobj_Retain (Some k2) st3)"
    "resolve ht4 = (resolve ht3)(h' \<mapsto> k2)" using ch(2,3) by (rule Open_room)
  then have "h' = h"
    using ch(4,5) h by (auto simp: HandleTable_Open_def Let_def split: if_splits)
  then show ?thesis
    using o1(1) c1 ch2 o2 by (auto simp: Lookup_resolve)
qed

section \<open>The properties on a table of two slots\<close>

definition kobj_ex :: "KobjType \<Rightarrow> Kobj" where
  "kobj_ex ty = \<lparr>kobj_type = ty, kobj_flags = 0, kobj_refcount = 1, kobj_id = 1, kobj_destroy = Some 7\<rparr>"

definition kstore_ex :: kstore where
  "kstore_ex = \<lparr>kobjs = (\<lambda>_. kobj_ex KOBJ_TASK), next_kobj_id = 2, destroy_log = []\<rparr>"

definition ht_ex :: HandleTable where
  "ht_ex = \<lparr>ht_slots = Some [\<lparr>hs_target = Some 5, hs_generation = 3, hs_pad = 0, hs_next_free = 1\<rparr>,
      \<lparr>hs_target = None, hs_generation = 0xFFFF, hs_pad = 0, hs_next_free = HANDLE_INVALID\<rparr>],
    ht_cap = 2, ht_free_head = 1\<rparr>"

lemma ht_ex_inv: "ht_inv ht_ex \<and> \<not> ht_full ht_ex"
proof -
  have "ht_inv ht_ex"
    by (rule ht_invI [of _ _ "[1]"]) (auto simp: ht_ex_def less_Suc_eq)
  then show ?thesis by (simp add: ht_full_def ht_ex_def)
qed

theorem HandleTable_Open_correct_witness:
  "\<exists>h ht'. HandleTable_Open ht_ex (Some 9) kstore_ex = (Inr h, ht', Kobj_Retain (Some 9) kstore_ex) \<and>
     HandleTable_Lookup ht' h KOBJ_NONE kstore_ex = Inr 9"
  using HandleTable_Open_correct [of ht_ex 9 kstore_ex] ht_ex_inv by auto

theorem HandleTable_Close_correct_witness:
  "\<exists>ht'. HandleTable_Close ht_ex 0x30000 kstore_ex = (Inr (), ht', Kobj_Release (Some 5) kstore_ex) \<and>
     HandleTable_Lookup ht' 0x30000 KOBJ_TASK kstore_ex = Inl CARA_EBADF"
proof -
  have "resolve ht_ex 0x30000 = Some 5" by code_simp
  then show ?thesis
    using HandleTable_Close_correct [of ht_ex "0x30000" kstore_ex KOBJ_TASK] ht_ex_inv by auto
qed

theorem handle_refcount_balance_witness:
  "\<exists>ht0 ht st. HandleTable_Init True 2 = Inr ht0 \<and>
     HandleTable_Open ht0 (Some 9) kstore_ex = (Inr 0, ht, st) \<and>
     kobj_refcount (kobjs st 9) = 2 \<and> handle_refs ht 9 = 1 \<and>
     kobj_refcount (kobjs (snd (HandleTable_Destroy ht st)) 9) = 1"
proof -
  obtain ht0 where i: "HandleTable_Init True 2 = Inr ht0" by (simp add: HandleTable_Init_def)
  obtain ht st where o1: "HandleTable_Open ht0 (Some 9) kstore_ex = (Inr 0, ht, st)"
    and r: "handle_refs ht 9 = 1"
    using i by (auto simp: HandleTable_Init_def HandleTable_Open_def Let_def HANDLE_INVALID_def
        slot_at_def set_slot_def mk_handle_def handle_refs_def upt_conv_Cons)
  from o1 have "ht_step\<^sup>*\<^sup>* (ht0, kstore_ex) (ht, st)" by (blast intro: step_open)
  from handle_refcount_balance [OF i this, where k = 9] r i o1 show ?thesis
    by (auto simp: kstore_ex_def kobj_ex_def)
qed

theorem stale_handle_revalidated_witness:
  "\<exists>h ht1 st1 ht2 st2 ht3 st3.
    HandleTable_Open ht_ex (Some 1) kstore_ex = (Inr h, ht1, st1) \<and>
    HandleTable_Close ht1 h st1 = (Inr (), ht2, st2) \<and>
    HandleTable_Lookup ht2 h KOBJ_NONE st2 = Inl CARA_EBADF \<and>
    HandleTable_Open (fst (churn 65535 1 (ht2, st2))) (Some 2) (snd (churn 65535 1 (ht2, st2)))
      = (Inr h, ht3, st3) \<and>
    HandleTable_Lookup ht3 h KOBJ_NONE st3 = Inr 2"
  by (rule stale_handle_revalidated) (simp_all add: ht_ex_inv)

end
