(* ===== verification/Exec_Lists.thy ===== *)
theory Exec_Lists
  imports Prelude
begin

text \<open>
  The intrusive doubly-linked lists: the kernel's \<^verbatim>\<open>MinList_*\<close> helpers
  (\<^verbatim>\<open>include/cara/list.h\<close>) and the exec.library list calls
  (\<^verbatim>\<open>src/croi/exec_lib/list_ops.c\<close>) over the layouts of \<^verbatim>\<open>include/exec/lists.h\<close> and
  \<^verbatim>\<open>include/exec/nodes.h\<close>.  Memory maps the address of a pointer-sized cell to the pointer it
  holds, so that the header-overlay trick is visible: a node at \<open>n\<close> has its successor at \<open>n\<close>
  and its predecessor at \<open>n + 8\<close>; a header at \<open>l\<close> has head, tail and tail-predecessor at \<open>l\<close>,
  \<open>l + 8\<close> and \<open>l + 16\<close>, and \<open>l\<close> and \<open>l + 8\<close> double as sentinel nodes.  A null pointer is 0.
\<close>

type_synonym addr = nat
type_synonym cells = "addr \<Rightarrow> addr"

section \<open>Layout\<close>

definition ln_Succ :: "cells \<Rightarrow> addr \<Rightarrow> addr" where "ln_Succ m n = m n"
definition ln_Pred :: "cells \<Rightarrow> addr \<Rightarrow> addr" where "ln_Pred m n = m (n + 8)"
definition lh_Head :: "cells \<Rightarrow> addr \<Rightarrow> addr" where "lh_Head m l = m l"
definition lh_Tail :: "cells \<Rightarrow> addr \<Rightarrow> addr" where "lh_Tail m l = m (l + 8)"
definition lh_TailPred :: "cells \<Rightarrow> addr \<Rightarrow> addr" where "lh_TailPred m l = m (l + 16)"

definition set_Succ :: "addr \<Rightarrow> addr \<Rightarrow> cells \<Rightarrow> cells" where "set_Succ n v m = m(n := v)"
definition set_Pred :: "addr \<Rightarrow> addr \<Rightarrow> cells \<Rightarrow> cells" where "set_Pred n v m = m(n + 8 := v)"
definition set_Head :: "addr \<Rightarrow> addr \<Rightarrow> cells \<Rightarrow> cells" where "set_Head l v m = m(l := v)"
definition set_Tail :: "addr \<Rightarrow> addr \<Rightarrow> cells \<Rightarrow> cells" where "set_Tail l v m = m(l + 8 := v)"
definition set_TailPred :: "addr \<Rightarrow> addr \<Rightarrow> cells \<Rightarrow> cells" where "set_TailPred l v m = m(l + 16 := v)"

definition HEAD_NODE :: "addr \<Rightarrow> addr" where "HEAD_NODE l = l"
definition TAIL_NODE :: "addr \<Rightarrow> addr" where "TAIL_NODE l = l + 8"

lemmas field_defs = ln_Succ_def ln_Pred_def lh_Head_def lh_Tail_def lh_TailPred_def
  set_Succ_def set_Pred_def set_Head_def set_Tail_def set_TailPred_def HEAD_NODE_def TAIL_NODE_def

section \<open>Kernel helpers (list.h)\<close>

definition MinList_Init :: "addr \<Rightarrow> cells \<Rightarrow> cells" where
  "MinList_Init l m = set_TailPred l (HEAD_NODE l) (set_Tail l 0 (set_Head l (TAIL_NODE l) m))"

definition MinList_IsEmpty :: "addr \<Rightarrow> cells \<Rightarrow> bool" where
  "MinList_IsEmpty l m = (lh_TailPred m l = HEAD_NODE l)"

definition MinList_AddHead :: "addr \<Rightarrow> addr \<Rightarrow> cells \<Rightarrow> cells" where
  "MinList_AddHead l n m =
    (let m1 = set_Pred n (HEAD_NODE l) m;
         m2 = set_Succ n (lh_Head m1 l) m1;
         m3 = set_Pred (lh_Head m2 l) n m2
     in set_Head l n m3)"

definition MinList_AddTail :: "addr \<Rightarrow> addr \<Rightarrow> cells \<Rightarrow> cells" where
  "MinList_AddTail l n m =
    (let m1 = set_Succ n (TAIL_NODE l) m;
         m2 = set_Pred n (lh_TailPred m1 l) m1;
         m3 = set_Succ (lh_TailPred m2 l) n m2
     in set_TailPred l n m3)"

definition MinList_Remove :: "addr \<Rightarrow> cells \<Rightarrow> cells" where
  "MinList_Remove n m =
    (let m1 = set_Succ (ln_Pred m n) (ln_Succ m n) m;
         m2 = set_Pred (ln_Succ m1 n) (ln_Pred m1 n) m1;
         m3 = set_Succ n 0 m2
     in set_Pred n 0 m3)"

definition MinList_RemHead :: "addr \<Rightarrow> cells \<Rightarrow> addr option \<times> cells" where
  "MinList_RemHead l m =
    (if MinList_IsEmpty l m then (None, m)
     else let n = lh_Head m l in (Some n, MinList_Remove n m))"

definition MinList_RemTail :: "addr \<Rightarrow> cells \<Rightarrow> addr option \<times> cells" where
  "MinList_RemTail l m =
    (if MinList_IsEmpty l m then (None, m)
     else let n = lh_TailPred m l in (Some n, MinList_Remove n m))"

section \<open>exec.library calls (list_ops.c)\<close>

definition Croi_Exec_AddHead :: "addr \<Rightarrow> addr \<Rightarrow> cells \<Rightarrow> cells" where
  "Croi_Exec_AddHead l n m =
    (let head = lh_Head m l;
         m1 = set_Succ n head m;
         m2 = set_Pred n (HEAD_NODE l) m1;
         m3 = set_Pred head n m2
     in set_Head l n m3)"

definition Croi_Exec_AddTail :: "addr \<Rightarrow> addr \<Rightarrow> cells \<Rightarrow> cells" where
  "Croi_Exec_AddTail l n m =
    (let tailpred = lh_TailPred m l;
         m1 = set_Succ n (TAIL_NODE l) m;
         m2 = set_Pred n tailpred m1;
         m3 = set_Succ tailpred n m2
     in set_TailPred l n m3)"

definition Croi_Exec_Remove :: "addr \<Rightarrow> cells \<Rightarrow> cells" where
  "Croi_Exec_Remove n m =
    (let m1 = set_Succ (ln_Pred m n) (ln_Succ m n) m
     in set_Pred (ln_Succ m1 n) (ln_Pred m1 n) m1)"

definition Croi_Exec_RemHead :: "addr \<Rightarrow> cells \<Rightarrow> addr option \<times> cells" where
  "Croi_Exec_RemHead l m =
    (let node = lh_Head m l; succ = ln_Succ m node in
     if succ = 0 then (None, m)
     else (Some node, set_Pred succ (HEAD_NODE l) (set_Head l succ m)))"

definition Croi_Exec_RemTail :: "addr \<Rightarrow> cells \<Rightarrow> addr option \<times> cells" where
  "Croi_Exec_RemTail l m =
    (let node = lh_TailPred m l; pred = ln_Pred m node in
     if pred = 0 then (None, m)
     else (Some node, set_Succ pred (TAIL_NODE l) (set_TailPred l pred m)))"

definition Croi_Exec_Insert :: "addr \<Rightarrow> addr \<Rightarrow> addr \<Rightarrow> cells \<Rightarrow> cells" where
  "Croi_Exec_Insert l n pred m =
    (if pred \<noteq> 0 \<and> ln_Succ m pred \<noteq> 0 then
       (let succ = ln_Succ m pred;
            m1 = set_Pred n pred m;
            m2 = set_Succ n succ m1;
            m3 = set_Pred succ n m2
        in set_Succ pred n m3)
     else
       (let head = lh_Head m l;
            m1 = set_Succ n head m;
            m2 = set_Pred n (HEAD_NODE l) m1;
            m3 = set_Pred head n m2
        in set_Head l n m3))"

text \<open>
  The walk of \<^verbatim>\<open>Enqueue\<close> follows successor pointers until the priority drops or the tail
  sentinel is reached; it returns \<open>(cur, next)\<close>.  On a memory whose pointers form a cycle it
  does not return, which is the value \<open>None\<close>.  Priorities are signed bytes.
\<close>

partial_function (option) enqueue_walk ::
  "(addr \<Rightarrow> 8 word) \<Rightarrow> addr \<Rightarrow> cells \<Rightarrow> addr \<Rightarrow> (addr \<times> addr) option" where
  "enqueue_walk pri node m cur =
    (let nxt = ln_Succ m cur in
     if ln_Succ m nxt \<noteq> 0 then
       if sint (pri nxt) < sint (pri node) then Some (cur, nxt)
       else enqueue_walk pri node m nxt
     else Some (cur, nxt))"

definition Croi_Exec_Enqueue :: "(addr \<Rightarrow> 8 word) \<Rightarrow> addr \<Rightarrow> addr \<Rightarrow> cells \<Rightarrow> cells option" where
  "Croi_Exec_Enqueue pri l n m =
    (case enqueue_walk pri n m (HEAD_NODE l) of None \<Rightarrow> None
     | Some (cur, nxt) \<Rightarrow>
         Some (set_Succ cur n (set_Pred nxt n (set_Succ n nxt (set_Pred n cur m)))))"

text \<open>
  C strings are byte lists without their terminator; reading at or after the end gives the
  terminator.  \<open>cmp_names have want i\<close> is the inner comparison loop from index \<open>i\<close>.
\<close>

definition cstr_at :: "u8 list \<Rightarrow> nat \<Rightarrow> u8" where
  "cstr_at s i = (if i < length s then s ! i else 0)"

function cmp_names :: "u8 list \<Rightarrow> u8 list \<Rightarrow> nat \<Rightarrow> bool" where
  "cmp_names have want i =
    (if cstr_at have i \<noteq> 0 \<and> cstr_at have i = cstr_at want i then cmp_names have want (Suc i)
     else cstr_at have i = 0 \<and> cstr_at want i = 0)"
  by auto
termination
  by (relation "measure (\<lambda>(have, want, i). length have - i)") (auto simp: cstr_at_def split: if_splits)

partial_function (option) find_walk ::
  "(addr \<Rightarrow> u8 list option) \<Rightarrow> u8 list \<Rightarrow> cells \<Rightarrow> addr \<Rightarrow> addr option option" where
  "find_walk name want m n =
    (if ln_Succ m n \<noteq> 0 then
       (case name n of None \<Rightarrow> find_walk name want m (ln_Succ m n)
        | Some have \<Rightarrow> if cmp_names have want 0 then Some (Some n)
                       else find_walk name want m (ln_Succ m n))
     else Some None)"

definition Croi_Exec_FindName ::
  "(addr \<Rightarrow> u8 list option) \<Rightarrow> addr \<Rightarrow> u8 list \<Rightarrow> cells \<Rightarrow> addr option option" where
  "Croi_Exec_FindName name l want m = find_walk name want m (lh_Head m l)"

section \<open>The sequence a header represents\<close>

text \<open>\<open>linked m xs\<close>: successive addresses point at each other, forwards and backwards.\<close>

fun linked :: "cells \<Rightarrow> addr list \<Rightarrow> bool" where
  "linked m (x # y # zs) = (m x = y \<and> m (y + 8) = x \<and> linked m (y # zs))"
| "linked m _ = True"

text \<open>The cells a header and its nodes occupy.\<close>

definition list_cells :: "addr \<Rightarrow> addr list \<Rightarrow> addr list" where
  "list_cells l ns = [l, l + 8, l + 16] @ ns @ map (\<lambda>n. n + 8) ns"

text \<open>The list at header \<open>l\<close> consists of the nodes \<open>ns\<close>, in order.\<close>

definition exec_list :: "cells \<Rightarrow> addr \<Rightarrow> addr list \<Rightarrow> bool" where
  "exec_list m l ns \<longleftrightarrow> linked m (l # ns @ [l + 8]) \<and> m (l + 8) = 0 \<and>
     distinct (list_cells l ns) \<and> l \<noteq> 0 \<and> 0 \<notin> set ns"

text \<open>A node that can be added: its two cells are not in use by the list.\<close>

definition fresh_node :: "addr \<Rightarrow> addr list \<Rightarrow> addr \<Rightarrow> bool" where
  "fresh_node l ns n \<longleftrightarrow> n \<noteq> 0 \<and> n \<notin> set (list_cells l ns) \<and> n + 8 \<notin> set (list_cells l ns)"

lemma linked_split:
  "linked m (xs @ x # y # ys) \<longleftrightarrow>
     linked m (xs @ [x]) \<and> m x = y \<and> m (y + 8) = x \<and> linked m (y # ys)"
  by (induction m xs rule: linked.induct) auto

lemma linked_frame:
  assumes "a \<notin> set (butlast xs)" and "a \<notin> (\<lambda>n. n + 8) ` set (tl xs)"
  shows "linked (m(a := v)) xs = linked m xs"
  using assms by (induction m xs rule: linked.induct) (auto split: if_splits)

text \<open>The two rewirings all operations reduce to.\<close>

definition link_in :: "addr \<Rightarrow> addr \<Rightarrow> addr \<Rightarrow> cells \<Rightarrow> cells" where
  "link_in x n y m = m(n := y, n + 8 := x, y + 8 := n, x := n)"

definition link_out :: "addr \<Rightarrow> addr \<Rightarrow> cells \<Rightarrow> cells" where
  "link_out x y m = m(x := y, y + 8 := x)"

definition seq_ok :: "addr list \<Rightarrow> bool" where
  "seq_ok zs \<longleftrightarrow> distinct (butlast zs @ map (\<lambda>n. n + 8) (tl zs))"

lemma seq_ok_list:
  "distinct (list_cells l ns) \<Longrightarrow> seq_ok (l # ns @ [l + 8])"
  by (auto simp: seq_ok_def list_cells_def butlast_append add.commute [of 16])

lemma linked_in:
  assumes "linked m (xs @ x # y # ys)" and "seq_ok (xs @ x # n # y # ys)"
  shows "linked (link_in x n y m) (xs @ x # n # y # ys)"
proof -
  from assms(1) have l: "linked m (xs @ [x])" "linked m (y # ys)" by (simp_all add: linked_split)
  from assms(2) have d: "distinct (xs @ x # n # butlast (y # ys) @ map (\<lambda>n. n + 8) (tl (xs @ [x]))
      @ (n + 8) # (y + 8) # map (\<lambda>n. n + 8) ys)"
    by (cases xs) (simp_all add: seq_ok_def butlast_append)
  have "linked (link_in x n y m) (xs @ [x])"
    unfolding link_in_def using d l(1) by (subst linked_frame, force, force)+
  moreover have "linked (link_in x n y m) (y # ys)"
    unfolding link_in_def using d l(2) by (subst linked_frame, force, force)+
  moreover have "link_in x n y m x = n \<and> link_in x n y m (n + 8) = x \<and>
      link_in x n y m n = y \<and> link_in x n y m (y + 8) = n"
    using d by (auto simp: link_in_def)
  ultimately show ?thesis
    using linked_split [of _ xs x n "y # ys"] by simp
qed

lemma linked_out:
  assumes "linked m (xs @ x # n # y # ys)" and "seq_ok (xs @ x # n # y # ys)"
  shows "linked (link_out x y m) (xs @ x # y # ys)"
proof -
  from assms(1) have l: "linked m (xs @ [x])" "linked m (y # ys)"
    using linked_split [of m xs x n "y # ys"] by simp_all
  from assms(2) have d: "distinct (xs @ x # n # butlast (y # ys) @ map (\<lambda>n. n + 8) (tl (xs @ [x]))
      @ (n + 8) # (y + 8) # map (\<lambda>n. n + 8) ys)"
    by (cases xs) (simp_all add: seq_ok_def butlast_append)
  have "linked (link_out x y m) (xs @ [x])"
    unfolding link_out_def using d l(1) by (subst linked_frame, force, force)+
  moreover have "linked (link_out x y m) (y # ys)"
    unfolding link_out_def using d l(2) by (subst linked_frame, force, force)+
  moreover have "link_out x y m x = y \<and> link_out x y m (y + 8) = x"
    using d by (auto simp: link_out_def)
  ultimately show ?thesis by (simp add: linked_split)
qed

lemma split_at:
  fixes l :: addr
  shows "\<exists>B C. \<forall>zs. l # (xs @ zs @ ys) @ [l + 8] = B @ last (l # xs) # zs @ hd (ys @ [l + 8]) # C"
proof -
  have "l # xs = butlast (l # xs) @ [last (l # xs)]" by (metis append_butlast_last_id list.distinct(1))
  moreover have "ys @ [l + 8] = hd (ys @ [l + 8]) # tl (ys @ [l + 8])" by (cases ys) simp_all
  ultimately have "l # (xs @ zs @ ys) @ [l + 8]
      = butlast (l # xs) @ last (l # xs) # zs @ hd (ys @ [l + 8]) # tl (ys @ [l + 8])" for zs
    by (metis append.assoc append_Cons append_Nil)
  then show ?thesis by blast
qed

lemma ends_neq:
  "distinct (list_cells l (xs @ n # ys)) \<Longrightarrow> last (l # xs) \<noteq> l + 8 \<and> hd (ys @ [l + 8]) + 8 \<noteq> l + 8"
  by (cases xs rule: rev_cases; cases ys) (auto simp: list_cells_def)

lemma exec_list_in:
  assumes el: "exec_list m l (xs @ ys)" and fresh: "fresh_node l (xs @ ys) n"
  shows "exec_list (link_in (last (l # xs)) n (hd (ys @ [l + 8])) m) l (xs @ n # ys)"
proof -
  define x y where "x = last (l # xs)" and "y = hd (ys @ [l + 8])"
  obtain B C where seq: "\<And>zs. l # (xs @ zs @ ys) @ [l + 8] = B @ x # zs @ y # C"
    unfolding x_def y_def using split_at [of l xs ys] by blast
  have d: "distinct (list_cells l (xs @ n # ys))"
    using el fresh by (auto simp: exec_list_def fresh_node_def list_cells_def)
  then have ok: "seq_ok (B @ x # n # y # C)"
    using seq_ok_list [of l "xs @ n # ys"] seq [of "[n]"] by simp
  have "linked m (B @ x # y # C)"
    using el seq [of "[]"] by (simp add: exec_list_def)
  from linked_in [OF this ok] have "linked (link_in x n y m) (l # (xs @ n # ys) @ [l + 8])"
    using seq [of "[n]"] by simp
  moreover have "x \<noteq> l + 8" and "y + 8 \<noteq> l + 8"
    using ends_neq [OF d] unfolding x_def y_def by blast+
  then have "link_in x n y m (l + 8) = 0"
    using el d by (auto simp: link_in_def exec_list_def list_cells_def)
  moreover have "l \<noteq> 0 \<and> 0 \<notin> set (xs @ n # ys)"
    using el fresh by (auto simp: exec_list_def fresh_node_def)
  ultimately show ?thesis
    using d unfolding exec_list_def x_def [symmetric] y_def [symmetric] by blast
qed

lemma exec_list_out:
  assumes el: "exec_list m l (xs @ n # ys)"
  shows "exec_list (link_out (last (l # xs)) (hd (ys @ [l + 8])) m) l (xs @ ys)"
    and "m n = hd (ys @ [l + 8])" and "m (n + 8) = last (l # xs)"
proof -
  define x y where "x = last (l # xs)" and "y = hd (ys @ [l + 8])"
  obtain B C where seq: "\<And>zs. l # (xs @ zs @ ys) @ [l + 8] = B @ x # zs @ y # C"
    unfolding x_def y_def using split_at [of l xs ys] by blast
  have d: "distinct (list_cells l (xs @ n # ys))" using el by (simp add: exec_list_def)
  then have ok: "seq_ok (B @ x # n # y # C)"
    using seq_ok_list [of l "xs @ n # ys"] seq [of "[n]"] by simp
  have l: "linked m (B @ x # n # y # C)"
    using el seq [of "[n]"] by (simp add: exec_list_def)
  then show "m n = hd (ys @ [l + 8])" and "m (n + 8) = last (l # xs)"
    using linked_split [of m B x n "y # C"] by (simp_all only: linked.simps simp_thms flip: x_def y_def)
  from linked_out [OF l ok] have "linked (link_out x y m) (l # (xs @ ys) @ [l + 8])"
    using seq [of "[]"] by simp
  moreover have "x \<noteq> l + 8" and "y + 8 \<noteq> l + 8"
    using ends_neq [OF d] unfolding x_def y_def by blast+
  then have "link_out x y m (l + 8) = 0" using el by (auto simp: link_out_def exec_list_def)
  moreover have "distinct (list_cells l (xs @ ys))" using d by (auto simp: list_cells_def)
  moreover have "l \<noteq> 0 \<and> 0 \<notin> set (xs @ ys)" using el by (auto simp: exec_list_def)
  ultimately show "exec_list (link_out (last (l # xs)) (hd (ys @ [l + 8])) m) l (xs @ ys)"
    unfolding exec_list_def x_def [symmetric] y_def [symmetric] by blast
qed

lemma exec_list_ends:
  assumes "exec_list m l ns"
  shows "m l = hd (ns @ [l + 8])" and "m (l + 16) = last (l # ns)"
proof -
  from assms have l: "linked m (l # ns @ [l + 8])" by (simp add: exec_list_def)
  show "m l = hd (ns @ [l + 8])" using l by (cases ns) simp_all
  obtain B C where seq: "\<And>zs. l # (ns @ zs @ []) @ [l + 8] = B @ last (l # ns) # zs @ hd ([] @ [l + 8]) # C"
    using split_at [of l ns "[]"] by blast
  then have "linked m (B @ last (l # ns) # (l + 8) # C)"
    using l seq [of "[]"] by (simp del: last.simps)
  then have "m (l + 8 + 8) = last (l # ns)" using linked_split by blast
  moreover have "l + 8 + 8 = l + 16" by (rule trans [OF add.assoc]) simp
  ultimately show "m (l + 16) = last (l # ns)" by (simp only:)
qed

lemma exec_list_frame:
  "a \<notin> set (list_cells l ns) \<Longrightarrow> exec_list (m(a := v)) l ns = exec_list m l ns"
  unfolding exec_list_def
  by (subst linked_frame) (auto simp: list_cells_def butlast_append add.commute [of 16])

lemma exec_list_node_nonzero:
  "exec_list m l (xs @ n # ys) \<Longrightarrow> n \<noteq> 0 \<and> hd (ys @ [l + 8]) \<noteq> 0 \<and> last (l # xs) \<noteq> 0"
  by (cases ys; cases xs rule: rev_cases) (auto simp: exec_list_def)

section \<open>The contract of the list calls\<close>

text \<open>
  Both families of calls keep the same promises about the sequence a header represents; the
  clients (run queue, sleeper queues, library and device lists) rely on these.
\<close>

locale exec_deque =
  fixes add_head :: "addr \<Rightarrow> addr \<Rightarrow> cells \<Rightarrow> cells"
    and add_tail :: "addr \<Rightarrow> addr \<Rightarrow> cells \<Rightarrow> cells"
    and rem_head :: "addr \<Rightarrow> cells \<Rightarrow> addr option \<times> cells"
    and rem_tail :: "addr \<Rightarrow> cells \<Rightarrow> addr option \<times> cells"
    and remove :: "addr \<Rightarrow> cells \<Rightarrow> cells"
  assumes add_head: "exec_list m l ns \<Longrightarrow> fresh_node l ns n \<Longrightarrow> exec_list (add_head l n m) l (n # ns)"
    and add_tail: "exec_list m l ns \<Longrightarrow> fresh_node l ns n \<Longrightarrow> exec_list (add_tail l n m) l (ns @ [n])"
    and rem_head_empty: "exec_list m l [] \<Longrightarrow> rem_head l m = (None, m)"
    and rem_head: "exec_list m l (n # ns) \<Longrightarrow> \<exists>m'. rem_head l m = (Some n, m') \<and> exec_list m' l ns"
    and rem_tail_empty: "exec_list m l [] \<Longrightarrow> rem_tail l m = (None, m)"
    and rem_tail: "exec_list m l (ns @ [n]) \<Longrightarrow> \<exists>m'. rem_tail l m = (Some n, m') \<and> exec_list m' l ns"
    and remove: "exec_list m l (xs @ n # ys) \<Longrightarrow> exec_list (remove n m) l (xs @ ys)"
begin

primrec drain :: "nat \<Rightarrow> addr \<Rightarrow> cells \<Rightarrow> addr list \<times> cells" where
  "drain 0 l m = ([], m)"
| "drain (Suc k) l m = (case rem_head l m of (None, m') \<Rightarrow> ([], m')
     | (Some n, m') \<Rightarrow> (case drain k l m' of (ns, m'') \<Rightarrow> (n # ns, m'')))"

lemma drain_all:
  "exec_list m l ns \<Longrightarrow> \<exists>m'. drain (length ns) l m = (ns, m') \<and> exec_list m' l []"
proof (induction ns arbitrary: m)
  case (Cons n ns)
  from rem_head [OF Cons.prems] obtain m' where "rem_head l m = (Some n, m')" "exec_list m' l ns" by blast
  with Cons.IH [of m'] show ?case by auto
qed simp

lemma add_tail_all:
  "exec_list m l ns \<Longrightarrow> distinct (list_cells l (ns @ xs)) \<Longrightarrow> 0 \<notin> set xs \<Longrightarrow>
   exec_list (fold (add_tail l) xs m) l (ns @ xs)"
proof (induction xs arbitrary: m ns)
  case (Cons x xs)
  have "fresh_node l ns x" using Cons.prems by (auto simp: fresh_node_def list_cells_def)
  with add_tail Cons.prems have "exec_list (add_tail l x m) l (ns @ [x])" by blast
  from Cons.IH [OF this] Cons.prems show ?case by simp
qed simp

lemma fifo:
  assumes "exec_list m l []" and "distinct (list_cells l xs)" and "0 \<notin> set xs"
  shows "\<exists>m'. drain (length xs) l (fold (add_tail l) xs m) = (xs, m') \<and> exec_list m' l []"
  using drain_all add_tail_all [OF assms(1), of xs] assms(2,3) by simp

end

lemma exec_list_succ:
  assumes "exec_list m l (xs @ ys)"
  shows "m (last (l # xs)) = hd (ys @ [l + 8])"
proof -
  obtain B C where seq: "\<And>zs. l # (xs @ zs @ ys) @ [l + 8] = B @ last (l # xs) # zs @ hd (ys @ [l + 8]) # C"
    using split_at [of l xs ys] by blast
  have "linked m (B @ last (l # xs) # hd (ys @ [l + 8]) # C)"
    using assms seq [of "[]"] by (simp only: exec_list_def append_Nil append.assoc)
  then show ?thesis using linked_split by blast
qed

lemma link_in_add_head:
  assumes "fresh_node l ns n"
  shows "MinList_AddHead l n m = link_in l n (m l) m"
    and "Croi_Exec_AddHead l n m = link_in l n (m l) m"
  using assms
  by (auto simp: MinList_AddHead_def Croi_Exec_AddHead_def field_defs link_in_def fresh_node_def
      list_cells_def Let_def fun_eq_iff)

lemma link_in_add_tail:
  assumes "fresh_node l ns n"
  shows "MinList_AddTail l n m = m(n := l + 8, n + 8 := m (l + 16), m (l + 16) := n, l + 16 := n)"
    and "Croi_Exec_AddTail l n m = m(n := l + 8, n + 8 := m (l + 16), m (l + 16) := n, l + 16 := n)"
  using assms
  by (auto simp: MinList_AddTail_def Croi_Exec_AddTail_def field_defs fresh_node_def
      list_cells_def Let_def fun_eq_iff)

lemma add_tail_link:
  assumes el: "exec_list m l ns" and fresh: "fresh_node l ns n"
  shows "m(n := l + 8, n + 8 := m (l + 16), m (l + 16) := n, l + 16 := n)
    = link_in (last (l # ns)) n (l + 8) m"
proof -
  have "last (l # ns) \<noteq> l + 16" using el
    by (cases ns rule: rev_cases) (auto simp: exec_list_def list_cells_def)
  moreover have "l + 8 + 8 = l + 16" by (rule trans [OF add.assoc]) simp
  ultimately show ?thesis
    unfolding exec_list_ends(2) [OF el] link_in_def by (metis fun_upd_twist)
qed

lemma remove_links:
  assumes "exec_list m l (xs @ n # ys)"
  shows "Croi_Exec_Remove n m = link_out (last (l # xs)) (hd (ys @ [l + 8])) m"
    and "MinList_Remove n m = (link_out (last (l # xs)) (hd (ys @ [l + 8])) m)(n := 0, n + 8 := 0)"
proof -
  have d: "distinct (list_cells l (xs @ n # ys))" using assms by (simp add: exec_list_def)
  have ne: "last (l # xs) \<noteq> n" "last (l # xs) \<noteq> n + 8"
    using d by (cases xs rule: rev_cases; auto simp: list_cells_def)+
  then show "Croi_Exec_Remove n m = link_out (last (l # xs)) (hd (ys @ [l + 8])) m"
    and "MinList_Remove n m = (link_out (last (l # xs)) (hd (ys @ [l + 8])) m)(n := 0, n + 8 := 0)"
    using exec_list_out(2,3) [OF assms] ne
    by (simp_all add: Croi_Exec_Remove_def MinList_Remove_def field_defs link_out_def Let_def
        del: last.simps)
qed

lemma MinList_IsEmpty_iff:
  assumes "exec_list m l ns"
  shows "MinList_IsEmpty l m \<longleftrightarrow> ns = []"
  using exec_list_ends(2) [OF assms] assms
  by (cases ns rule: rev_cases) (auto simp: MinList_IsEmpty_def field_defs exec_list_def list_cells_def)

lemma exec_list_remove:
  assumes "exec_list m l (xs @ n # ys)"
  shows "exec_list (MinList_Remove n m) l (xs @ ys)" and "exec_list (Croi_Exec_Remove n m) l (xs @ ys)"
proof -
  have fr: "n \<notin> set (list_cells l (xs @ ys))" "n + 8 \<notin> set (list_cells l (xs @ ys))"
    using assms by (auto simp: exec_list_def list_cells_def)
  show "exec_list (MinList_Remove n m) l (xs @ ys)" "exec_list (Croi_Exec_Remove n m) l (xs @ ys)"
    using exec_list_out(1) [OF assms] fr unfolding remove_links [OF assms]
    by (simp_all add: exec_list_frame del: last.simps)
qed

interpretation min_list: exec_deque MinList_AddHead MinList_AddTail MinList_RemHead MinList_RemTail MinList_Remove
proof unfold_locales
  fix m l ns n xs ys
  show "exec_list (MinList_AddHead l n m) l (n # ns)" if "exec_list m l ns" "fresh_node l ns n"
    using that exec_list_in [of m l "[]" ns n] by (simp add: link_in_add_head exec_list_ends)
  show "exec_list (MinList_AddTail l n m) l (ns @ [n])" if "exec_list m l ns" "fresh_node l ns n"
    using that exec_list_in [of m l ns "[]" n]
    by (simp add: link_in_add_tail add_tail_link del: last.simps)
  show "MinList_RemHead l m = (None, m)" "MinList_RemTail l m = (None, m)" if "exec_list m l []"
    using that by (simp_all add: MinList_RemHead_def MinList_RemTail_def MinList_IsEmpty_iff)
  show "\<exists>m'. MinList_RemHead l m = (Some n, m') \<and> exec_list m' l ns" if "exec_list m l (n # ns)"
    using exec_list_remove(1) [of m l "[]" n ns] exec_list_ends(1) [OF that] that
    by (simp add: MinList_RemHead_def MinList_IsEmpty_iff field_defs)
  show "\<exists>m'. MinList_RemTail l m = (Some n, m') \<and> exec_list m' l ns" if "exec_list m l (ns @ [n])"
    using exec_list_remove(1) [of m l ns n "[]"] exec_list_ends(2) [OF that] that
    by (simp add: MinList_RemTail_def MinList_IsEmpty_iff field_defs)
  show "exec_list (MinList_Remove n m) l (xs @ ys)" if "exec_list m l (xs @ n # ys)"
    using that by (rule exec_list_remove)
qed

interpretation exec_lib: exec_deque Croi_Exec_AddHead Croi_Exec_AddTail Croi_Exec_RemHead Croi_Exec_RemTail Croi_Exec_Remove
proof unfold_locales
  fix m l ns n xs ys
  show "exec_list (Croi_Exec_AddHead l n m) l (n # ns)" if "exec_list m l ns" "fresh_node l ns n"
    using that exec_list_in [of m l "[]" ns n] by (simp add: link_in_add_head exec_list_ends)
  show "exec_list (Croi_Exec_AddTail l n m) l (ns @ [n])" if "exec_list m l ns" "fresh_node l ns n"
    using that exec_list_in [of m l ns "[]" n]
    by (simp add: link_in_add_tail add_tail_link del: last.simps)
  show "Croi_Exec_RemHead l m = (None, m)" "Croi_Exec_RemTail l m = (None, m)" if "exec_list m l []"
    using exec_list_ends [OF that] that
    by (simp_all add: Croi_Exec_RemHead_def Croi_Exec_RemTail_def field_defs exec_list_def)
  show "\<exists>m'. Croi_Exec_RemHead l m = (Some n, m') \<and> exec_list m' l ns" if "exec_list m l (n # ns)"
  proof -
    have "exec_list m l ([] @ n # ns)" using that by simp
    from exec_list_out [OF this] exec_list_node_nonzero [OF this] exec_list_ends(1) [OF that]
    show ?thesis by (simp add: Croi_Exec_RemHead_def field_defs link_out_def Let_def)
  qed
  show "\<exists>m'. Croi_Exec_RemTail l m = (Some n, m') \<and> exec_list m' l ns" if "exec_list m l (ns @ [n])"
  proof -
    define p where "p = last (l # ns)"
    have "p \<noteq> l + 16"
      using that by (cases ns rule: rev_cases) (auto simp: p_def exec_list_def list_cells_def)
    moreover have "l + 8 + 8 = l + 16" by (rule trans [OF add.assoc]) simp
    ultimately have out: "m(l + 16 := p, p := l + 8) = link_out p (l + 8) m"
      unfolding link_out_def by (metis fun_upd_twist)
    have "exec_list (link_out p (l + 8) m) l ns" "m (n + 8) = p" "p \<noteq> 0" "m (l + 16) = n"
      using exec_list_out [OF that] exec_list_node_nonzero [OF that] exec_list_ends(2) [OF that]
      by (simp_all flip: p_def del: last.simps) (simp add: p_def)
    with out show ?thesis by (simp add: Croi_Exec_RemTail_def field_defs Let_def)
  qed
  show "exec_list (Croi_Exec_Remove n m) l (xs @ ys)" if "exec_list m l (xs @ n # ys)"
    using that by (rule exec_list_remove)
qed

section \<open>Enqueue, Insert and FindName\<close>

lemma enqueue_walk_list:
  assumes "exec_list m l (xs @ ys)"
  shows "enqueue_walk pri n m (last (l # xs)) =
    Some (last (l # xs @ takeWhile (\<lambda>x. sint (pri n) \<le> sint (pri x)) ys),
          hd (dropWhile (\<lambda>x. sint (pri n) \<le> sint (pri x)) ys @ [l + 8]))"
  using assms
proof (induction ys arbitrary: xs)
  case Nil
  then have "m (last (l # xs)) = l + 8" "m (l + 8) = 0"
    using exec_list_succ [OF Nil] by (simp_all add: exec_list_def)
  then show ?case
    by (subst enqueue_walk.simps) (simp add: ln_Succ_def)
next
  case (Cons y ys)
  have nxt: "m (last (l # xs)) = y" using exec_list_succ [OF Cons.prems] by simp
  have yy: "m y \<noteq> 0"
    using exec_list_out(2) [OF Cons.prems] exec_list_node_nonzero [OF Cons.prems] by simp
  show ?case
  proof (cases "sint (pri y) < sint (pri n)")
    case True
    then show ?thesis
      using nxt yy by (subst enqueue_walk.simps) (simp add: ln_Succ_def Let_def del: last.simps)
  next
    case False
    have "enqueue_walk pri n m (last (l # xs)) = enqueue_walk pri n m (last (l # xs @ [y]))"
      using nxt yy False by (subst enqueue_walk.simps) (simp add: ln_Succ_def Let_def del: last.simps, simp)
    with Cons.IH [of "xs @ [y]"] Cons.prems False show ?thesis by simp
  qed
qed

lemma Enqueue_list:
  fixes pri :: "addr \<Rightarrow> 8 word"
  assumes el: "exec_list m l ns" and fresh: "fresh_node l ns n"
  defines "A \<equiv> takeWhile (\<lambda>x. sint (pri n) \<le> sint (pri x)) ns"
    and "B \<equiv> dropWhile (\<lambda>x. sint (pri n) \<le> sint (pri x)) ns"
  shows "\<exists>m'. Croi_Exec_Enqueue pri l n m = Some m' \<and> exec_list m' l (A @ n # B)"
proof -
  have ns: "ns = A @ B" by (simp add: A_def B_def)
  have walk: "enqueue_walk pri n m (HEAD_NODE l) = Some (last (l # A), hd (B @ [l + 8]))"
    using enqueue_walk_list [of m l "[]" ns pri n] el by (simp add: HEAD_NODE_def A_def B_def)
  have "set_Succ x n (set_Pred y n (set_Succ n y (set_Pred n x m))) = link_in x n y m" for x y
    by (simp add: field_defs link_in_def fun_upd_twist)
  with walk have "Croi_Exec_Enqueue pri l n m = Some (link_in (last (l # A)) n (hd (B @ [l + 8])) m)"
    by (simp add: Croi_Exec_Enqueue_def del: last.simps)
  with exec_list_in [of m l A B n] el fresh ns show ?thesis by (simp del: last.simps)
qed

lemma Insert_list:
  assumes el: "exec_list m l (xs @ p # ys)" and fresh: "fresh_node l (xs @ p # ys) n"
  shows "exec_list (Croi_Exec_Insert l n p m) l (xs @ p # n # ys)"
proof -
  have "m p = hd (ys @ [l + 8])" using exec_list_out(2) [OF el] .
  moreover have "p \<noteq> 0" "hd (ys @ [l + 8]) \<noteq> 0" using exec_list_node_nonzero [OF el] by auto
  moreover have "p \<noteq> n" "p \<noteq> n + 8" using fresh by (auto simp: fresh_node_def list_cells_def)
  ultimately have "Croi_Exec_Insert l n p m = link_in p n (hd (ys @ [l + 8])) m"
    by (simp add: Croi_Exec_Insert_def field_defs link_in_def Let_def fun_upd_twist)
  with exec_list_in [of m l "xs @ [p]" ys n] el fresh show ?thesis by simp
qed

lemma cmp_names_suffix:
  assumes "0 \<notin> set have" and "0 \<notin> set want" and "i \<le> length have" and "i \<le> length want"
    and "take i have = take i want"
  shows "cmp_names have want i \<longleftrightarrow> have = want"
  using assms
proof (induction "length have - i" arbitrary: i)
  case 0
  then have "i = length have" by simp
  with 0 show ?case
    by (subst cmp_names.simps) (auto simp: cstr_at_def dest: nth_mem)
next
  case (Suc k)
  then have i: "i < length have" by simp
  have nz: "have ! i \<noteq> 0" using Suc.prems(1) i nth_mem by metis
  show ?case
  proof (cases "i < length want \<and> have ! i = want ! i")
    case True
    then have "take (Suc i) have = take (Suc i) want"
      using Suc.prems i by (simp add: take_Suc_conv_app_nth)
    with Suc True i nz show ?thesis by (subst cmp_names.simps) (simp add: cstr_at_def)
  next
    case False
    then have "have \<noteq> want" using i by auto
    with False i nz show ?thesis by (subst cmp_names.simps) (auto simp: cstr_at_def)
  qed
qed

lemma cmp_names_eq:
  "0 \<notin> set have \<Longrightarrow> 0 \<notin> set want \<Longrightarrow> cmp_names have want 0 \<longleftrightarrow> have = want"
  by (rule cmp_names_suffix) simp_all

lemma find_walk_list:
  assumes "exec_list m l (xs @ ys)" and "0 \<notin> set want" and "\<forall>x have. name x = Some have \<longrightarrow> 0 \<notin> set have"
  shows "find_walk name want m (hd (ys @ [l + 8])) = Some (find (\<lambda>x. name x = Some want) ys)"
  using assms(1)
proof (induction ys arbitrary: xs)
  case Nil
  then have "m (l + 8) = 0" by (simp add: exec_list_def)
  then show ?case by (subst find_walk.simps) (simp add: ln_Succ_def)
next
  case (Cons y ys)
  have y: "m y = hd (ys @ [l + 8])" "hd (ys @ [l + 8]) \<noteq> 0"
    using exec_list_out(2) [OF Cons.prems] exec_list_node_nonzero [OF Cons.prems] by auto
  have "find_walk name want m (hd (ys @ [l + 8])) = Some (find (\<lambda>x. name x = Some want) ys)"
    using Cons.IH [of "xs @ [y]"] Cons.prems by simp
  note IH = this
  show ?case
  proof (cases "name y")
    case None
    with y IH show ?thesis by (subst find_walk.simps) (simp add: ln_Succ_def)
  next
    case (Some nm)
    then have "cmp_names nm want 0 \<longleftrightarrow> nm = want" using assms(2,3) cmp_names_eq by blast
    with y IH Some show ?thesis by (subst find_walk.simps) (simp add: ln_Succ_def del: cmp_names.simps)
  qed
qed

lemma MinList_Init_list:
  "l \<noteq> 0 \<Longrightarrow> exec_list (MinList_Init l m) l []"
  by (simp add: MinList_Init_def field_defs exec_list_def list_cells_def)

lemma sorted_insert_after:
  fixes f :: "'a \<Rightarrow> int"
  assumes "sorted_wrt (\<lambda>x y. f x \<ge> f y) ns"
  shows "sorted_wrt (\<lambda>x y. f x \<ge> f y) (takeWhile (\<lambda>x. f n \<le> f x) ns @ n # dropWhile (\<lambda>x. f n \<le> f x) ns)"
  using assms
proof (induction ns)
  case (Cons x ns)
  show ?case
  proof (cases "f n \<le> f x")
    case True
    have "set (takeWhile (\<lambda>x. f n \<le> f x) ns) \<union> set (dropWhile (\<lambda>x. f n \<le> f x) ns) \<subseteq> set ns"
      by (auto dest: set_takeWhileD set_dropWhileD)
    with Cons True show ?thesis by auto
  next
    case False
    with Cons.prems show ?thesis by fastforce
  qed
qed simp

lemma sorted_dropWhile:
  fixes f :: "'a \<Rightarrow> int"
  shows "sorted_wrt (\<lambda>x y. f x \<ge> f y) ns \<Longrightarrow> x \<in> set (dropWhile (\<lambda>x. c \<le> f x) ns) \<Longrightarrow> f x < c"
  by (induction ns) (auto split: if_splits)

section \<open>Properties\<close>

text \<open>
  C6. \<^verbatim>\<open>Croi_Exec_Enqueue\<close> terminates on every well-formed list and inserts the node behind all
  nodes of the same or a higher priority: a list in descending priority order stays so, and
  nodes of equal priority keep their order of arrival.
\<close>

theorem Croi_Exec_Enqueue_sorted:
  assumes "exec_list m l ns" and "fresh_node l ns n"
    and "sorted_wrt (\<lambda>x y. sint (pri x) \<ge> sint (pri y)) ns"
  shows "\<exists>m' A B. Croi_Exec_Enqueue pri l n m = Some m' \<and> exec_list m' l (A @ n # B) \<and> ns = A @ B \<and>
    (\<forall>x \<in> set A. sint (pri n) \<le> sint (pri x)) \<and> (\<forall>x \<in> set B. sint (pri x) < sint (pri n)) \<and>
    sorted_wrt (\<lambda>x y. sint (pri x) \<ge> sint (pri y)) (A @ n # B)"
proof -
  let ?A = "takeWhile (\<lambda>x. sint (pri n) \<le> sint (pri x)) ns"
  let ?B = "dropWhile (\<lambda>x. sint (pri n) \<le> sint (pri x)) ns"
  have s: "sorted_wrt (\<lambda>x y. sint (pri x) \<ge> sint (pri y)) (?A @ n # ?B)"
    using sorted_insert_after [OF assms(3), of n] .
  have "\<forall>x \<in> set ?B. sint (pri x) < sint (pri n)"
    using sorted_dropWhile [OF assms(3)] by blast
  moreover have "\<forall>x \<in> set ?A. sint (pri n) \<le> sint (pri x)" by (auto dest: set_takeWhileD)
  moreover obtain m' where "Croi_Exec_Enqueue pri l n m = Some m'" "exec_list m' l (?A @ n # ?B)"
    using Enqueue_list [OF assms(1,2), of pri] by blast
  ultimately show ?thesis
    using s by (intro exI [of _ m'] exI [of _ ?A] exI [of _ ?B] conjI) simp_all
qed

text \<open>
  C18. Adding a batch of nodes with \<^verbatim>\<open>MinList_AddTail\<close> to a header made by \<^verbatim>\<open>MinList_Init\<close> and
  removing with \<^verbatim>\<open>MinList_RemHead\<close> gives the nodes back in the order they were added and leaves
  the list empty; the pointer structure is well formed throughout.
\<close>

theorem MinList_fifo:
  assumes "l \<noteq> 0" and "distinct (list_cells l xs)" and "0 \<notin> set xs"
  shows "\<exists>m'. min_list.drain (length xs) l (fold (MinList_AddTail l) xs (MinList_Init l m)) = (xs, m') \<and>
    exec_list m' l [] \<and> MinList_IsEmpty l m'"
  using min_list.fifo [OF MinList_Init_list [OF assms(1), of m] assms(2,3)] MinList_IsEmpty_iff by blast


text \<open>
  C20. \<^verbatim>\<open>Croi_Exec_FindName\<close> returns on every well-formed list, with the first node whose name is
  exactly the wanted one, skipping nodes without a name; and null when there is none.
\<close>

theorem Croi_Exec_FindName_first:
  assumes "exec_list m l ns" and "0 \<notin> set want" and "\<forall>x have. name x = Some have \<longrightarrow> 0 \<notin> set have"
  shows "Croi_Exec_FindName name l want m = Some (find (\<lambda>x. name x = Some want) ns)"
  using find_walk_list [of m l "[]" ns want name] exec_list_ends(1) [OF assms(1)] assms
  by (simp add: Croi_Exec_FindName_def lh_Head_def)

section \<open>The properties on a list of two nodes\<close>

text \<open>Header at 800, nodes at 1000 and 2000 linked with the kernel's own calls.\<close>

definition cells_ex :: cells where
  "cells_ex = MinList_AddTail 800 2000 (MinList_AddTail 800 1000 (MinList_Init 800 (\<lambda>_. 0)))"

definition pri_ex :: "addr \<Rightarrow> 8 word" where
  "pri_ex n = (if n = 1000 then 5 else if n = 2000 then -3 else 0)"

definition name_ex :: "addr \<Rightarrow> u8 list option" where
  "name_ex n = (if n = 2000 then Some [100, 111, 115] else None)"

lemma cells_ex_list: "exec_list cells_ex 800 [1000, 2000] \<and> fresh_node 800 [1000, 2000] 3000"
  by (simp add: cells_ex_def exec_list_def fresh_node_def list_cells_def MinList_AddTail_def MinList_Init_def
      field_defs Let_def)

theorem Croi_Exec_Enqueue_sorted_witness:
  "\<exists>m'. Croi_Exec_Enqueue pri_ex 800 3000 cells_ex = Some m' \<and> exec_list m' 800 [1000, 3000, 2000]"
proof -
  from Croi_Exec_Enqueue_sorted [of cells_ex 800 "[1000, 2000]" 3000 pri_ex] cells_ex_list
  obtain m' A B where "Croi_Exec_Enqueue pri_ex 800 3000 cells_ex = Some m'"
    "exec_list m' 800 (A @ 3000 # B)" "[1000, 2000] = A @ B"
    "\<forall>x \<in> set A. sint (pri_ex 3000) \<le> sint (pri_ex x)" "\<forall>x \<in> set B. sint (pri_ex x) < sint (pri_ex 3000)"
    by (auto simp: pri_ex_def)
  then show ?thesis by (auto simp: Cons_eq_append_conv pri_ex_def)
qed

theorem MinList_fifo_witness:
  "\<exists>m'. min_list.drain (length [1000, 2000 :: addr]) 800
       (fold (MinList_AddTail 800) [1000, 2000] (MinList_Init 800 (\<lambda>_. 0))) = ([1000, 2000], m') \<and>
     exec_list m' 800 [] \<and> MinList_IsEmpty 800 m'"
  by (rule MinList_fifo) (simp_all add: list_cells_def)


theorem Croi_Exec_FindName_first_witness:
  "Croi_Exec_FindName name_ex 800 [100, 111, 115] cells_ex = Some (Some 2000)"
  using Croi_Exec_FindName_first [of cells_ex 800 "[1000, 2000]" "[100, 111, 115]" name_ex] cells_ex_list
  by (simp add: name_ex_def)

end
