(* ===== verification/Phys_Pages.thy ===== *)
theory Phys_Pages
  imports Prelude
begin

text \<open>
  The physical page allocator, \<^verbatim>\<open>src/croi/mm/page_alloc.c\<close>, with the structures of
  \<^verbatim>\<open>include/cara/mm.h\<close>.  Physical memory is a function from page number and word index to a
  64-bit word; a run's bitmap, which lives in the first pages of the run itself, is kept as a
  byte list in the run's record.  Counters have the source's widths.
\<close>

section \<open>State\<close>

definition CARA_PAGE_SIZE :: u64 where "CARA_PAGE_SIZE = 4096"
definition CARA_KERNEL_VA_OFFSET :: u64 where "CARA_KERNEL_VA_OFFSET = 0xFFFFFFC000000000"
definition CARA_MAX_PHYS_RUNS :: nat where "CARA_MAX_PHYS_RUNS = 32"

definition Mm_PhysToVirt :: "u64 \<Rightarrow> u64" where
  "Mm_PhysToVirt phys = phys + CARA_KERNEL_VA_OFFSET"

definition Mm_VirtToPhys :: "u64 \<Rightarrow> u64" where
  "Mm_VirtToPhys virt = virt - CARA_KERNEL_VA_OFFSET"

type_synonym pmem = "nat \<Rightarrow> nat \<Rightarrow> u64"

record PhysRun =
  pr_base :: u64
  pr_size :: u64

record PageRun =
  run_base :: u64
  run_n_pages :: u32
  run_bitmap_pages :: u32
  run_bitmap :: "u8 list"
  run_data_pages :: u32
  run_free_pages :: u32

record PageAllocator =
  pa_runs :: "PageRun list"
  pa_total_data_pages :: u64
  pa_free_pages :: u64
  pa_peak_in_flight_pages :: u64

section \<open>Operations\<close>

definition align_up_u64 :: "u64 \<Rightarrow> u64 \<Rightarrow> u64" where
  "align_up_u64 v a = (v + a - 1) AND NOT (a - 1)"

definition zero_pages_at :: "u64 \<Rightarrow> u32 \<Rightarrow> pmem \<Rightarrow> pmem" where
  "zero_pages_at phys n mem = (\<lambda>p. if unat phys div 4096 \<le> p \<and> p < unat phys div 4096 + unat n
     then (\<lambda>_. 0) else mem p)"

text \<open>One iteration of the loop of \<^verbatim>\<open>Page_Init\<close>: skip the run, reject it, or append it.\<close>

definition page_init_run :: "PageAllocator \<Rightarrow> PhysRun \<Rightarrow> PageAllocator result" where
  "page_init_run pa src =
    (if length (pa_runs pa) \<ge> CARA_MAX_PHYS_RUNS then Inl CARA_ERANGE
     else if pr_base src AND (CARA_PAGE_SIZE - 1) \<noteq> 0 \<or> pr_size src AND (CARA_PAGE_SIZE - 1) \<noteq> 0
     then Inl CARA_EINVAL
     else let n_pages = ucast (pr_size src div CARA_PAGE_SIZE) :: u32 in
       if n_pages < 2 then Inr pa
       else let bitmap_bytes = (n_pages + 8 - 1) div 8;
                bitmap_pages = ucast (align_up_u64 (ucast bitmap_bytes) CARA_PAGE_SIZE) div 4096 in
         if bitmap_pages \<ge> n_pages then Inr pa
         else let data_pages = n_pages - bitmap_pages in
           Inr (pa\<lparr>pa_runs := pa_runs pa @ [\<lparr>run_base = pr_base src, run_n_pages = n_pages,
                     run_bitmap_pages = bitmap_pages, run_bitmap = replicate (unat bitmap_pages * 4096) 0,
                     run_data_pages = data_pages, run_free_pages = data_pages\<rparr>],
                   pa_total_data_pages := pa_total_data_pages pa + ucast data_pages,
                   pa_free_pages := pa_free_pages pa + ucast data_pages\<rparr>))"

fun page_init_loop :: "PhysRun list \<Rightarrow> PageAllocator \<Rightarrow> PageAllocator result" where
  "page_init_loop [] pa = (if pa_runs pa \<noteq> [] then Inr pa else Inl CARA_ENOTFOUND)"
| "page_init_loop (src # rest) pa =
    (case page_init_run pa src of Inl e \<Rightarrow> Inl e | Inr pa' \<Rightarrow> page_init_loop rest pa')"

definition Page_Init :: "PhysRun list \<Rightarrow> PageAllocator result" where
  "Page_Init usable = page_init_loop usable
     \<lparr>pa_runs = [], pa_total_data_pages = 0, pa_free_pages = 0, pa_peak_in_flight_pages = 0\<rparr>"

text \<open>The first-fit scan for \<open>n\<close> contiguous clear bits, with the loop variables of the source.\<close>

function page_scan :: "u8 list \<Rightarrow> nat \<Rightarrow> nat \<Rightarrow> nat \<Rightarrow> nat \<Rightarrow> nat \<Rightarrow> nat option" where
  "page_scan bm data n i run_start run_len =
    (if i < data then
       if \<not> bm_get bm i then
         (let rs = (if run_len = 0 then i else run_start); rl = Suc run_len in
          if rl = n then Some rs else page_scan bm data n (Suc i) rs rl)
       else page_scan bm data n (Suc i) run_start 0
     else None)"
  by auto
termination by (relation "measure (\<lambda>(bm, data, n, i, rs, rl). data - i)") auto

declare page_scan.simps [simp del]

text \<open>What \<^verbatim>\<open>Page_Alloc\<close> does to the run once the scan has found a place.\<close>

definition take_pages :: "PageRun \<Rightarrow> nat \<Rightarrow> u32 \<Rightarrow> PageRun" where
  "take_pages r start n = r\<lparr>run_bitmap := bm_set_run (run_bitmap r) start (unat n),
     run_free_pages := run_free_pages r - n\<rparr>"

definition run_phys :: "PageRun \<Rightarrow> nat \<Rightarrow> u64" where
  "run_phys r start = run_base r + ucast (run_bitmap_pages r + of_nat start) * CARA_PAGE_SIZE"

fun alloc_in_runs :: "PageRun list \<Rightarrow> u32 \<Rightarrow> (u64 \<times> PageRun list) option" where
  "alloc_in_runs [] n = None"
| "alloc_in_runs (r # rs) n =
    (if run_free_pages r < n then map_option (\<lambda>(p, rs'). (p, r # rs')) (alloc_in_runs rs n)
     else case page_scan (run_bitmap r) (unat (run_data_pages r)) (unat n) 0 0 0 of
       None \<Rightarrow> map_option (\<lambda>(p, rs'). (p, r # rs')) (alloc_in_runs rs n)
     | Some s \<Rightarrow> Some (run_phys r s, take_pages r s n # rs))"

definition Page_Alloc :: "PageAllocator \<Rightarrow> u32 \<Rightarrow> pmem \<Rightarrow> u64 \<times> PageAllocator \<times> pmem" where
  "Page_Alloc pa n mem =
    (if n = 0 then (0, pa, mem)
     else case alloc_in_runs (pa_runs pa) n of
       None \<Rightarrow> (0, pa, mem)
     | Some (phys, runs') \<Rightarrow>
         (let free' = pa_free_pages pa - ucast n; in_flight = pa_total_data_pages pa - free' in
          (phys,
           pa\<lparr>pa_runs := runs', pa_free_pages := free',
              pa_peak_in_flight_pages := (if in_flight > pa_peak_in_flight_pages pa then in_flight
                                          else pa_peak_in_flight_pages pa)\<rparr>,
           zero_pages_at phys n mem)))"

fun free_in_runs :: "PageRun list \<Rightarrow> u64 \<Rightarrow> u32 \<Rightarrow> PageRun list option" where
  "free_in_runs [] phys n = None"
| "free_in_runs (r # rs) phys n =
    (let data_lo = run_base r + ucast (run_bitmap_pages r) * CARA_PAGE_SIZE;
         data_hi = run_base r + ucast (run_n_pages r) * CARA_PAGE_SIZE in
     if phys < data_lo \<or> phys \<ge> data_hi then map_option (\<lambda>rs'. r # rs') (free_in_runs rs phys n)
     else let offset_pages = (phys - data_lo) div CARA_PAGE_SIZE in
       Some (r\<lparr>run_bitmap := bm_clr_run (run_bitmap r) (unat (ucast offset_pages :: u32)) (unat n),
               run_free_pages := run_free_pages r + n\<rparr> # rs))"

definition Page_Free :: "PageAllocator \<Rightarrow> u64 \<Rightarrow> u32 \<Rightarrow> PageAllocator" where
  "Page_Free pa phys n =
    (if phys = 0 \<or> n = 0 then pa
     else case free_in_runs (pa_runs pa) phys n of
       None \<Rightarrow> pa
     | Some runs' \<Rightarrow> pa\<lparr>pa_runs := runs', pa_free_pages := pa_free_pages pa + ucast n\<rparr>)"

section \<open>The scan is first fit\<close>

text \<open>\<open>fits bm data n s\<close>: the \<open>n\<close> bits from \<open>s\<close> are inside the data area and all clear.\<close>

definition fits :: "u8 list \<Rightarrow> nat \<Rightarrow> nat \<Rightarrow> nat \<Rightarrow> bool" where
  "fits bm data n s \<longleftrightarrow> s + n \<le> data \<and> (\<forall>j. s \<le> j \<and> j < s + n \<longrightarrow> \<not> bm_get bm j)"

lemma page_scan_first_fit:
  assumes "rl < n" and "rl \<le> i" and "i \<le> data" and "rl \<noteq> 0 \<Longrightarrow> rs = i - rl"
    and "\<forall>j. i - rl \<le> j \<and> j < i \<longrightarrow> \<not> bm_get bm j"
    and "\<forall>s < i - rl. \<exists>j. s \<le> j \<and> j < i \<and> j < s + n \<and> bm_get bm j"
  shows "case page_scan bm data n i rs rl of
      None \<Rightarrow> \<forall>s. \<not> fits bm data n s
    | Some s \<Rightarrow> fits bm data n s \<and> (\<forall>s' < s. \<not> fits bm data n s')"
  using assms
proof (induction bm data n i rs rl rule: page_scan.induct)
  case (1 bm data n i rs rl)
  show ?case
  proof (cases "i < data")
    case False
    with "1.prems" have i: "i = data" by simp
    have "\<not> fits bm data n s" for s
    proof
      assume f: "fits bm data n s"
      then have "s < i - rl" using "1.prems"(1) i by (auto simp: fits_def)
      with "1.prems"(6) f show False by (auto simp: fits_def)
    qed
    with False show ?thesis by (simp add: page_scan.simps)
  next
    case less: True
    show ?thesis
    proof (cases "bm_get bm i")
      case True
      have "\<forall>s < Suc i. \<exists>j. s \<le> j \<and> j < Suc i \<and> j < s + n \<and> bm_get bm j"
      proof (intro allI impI)
        fix s assume "s < Suc i"
        show "\<exists>j. s \<le> j \<and> j < Suc i \<and> j < s + n \<and> bm_get bm j"
        proof (cases "s < i - rl")
          case True
          with "1.prems"(6) show ?thesis by (meson less_SucI)
        next
          case False
          with \<open>s < Suc i\<close> "1.prems"(1,2) have "s \<le> i" "i < s + n" by auto
          with \<open>bm_get bm i\<close> show ?thesis by blast
        qed
      qed
      with "1.IH"(2) [OF less] True "1.prems" less show ?thesis
        by (subst page_scan.simps) simp
    next
      case clear: False
      let ?rs = "if rl = 0 then i else rs"
      have rs: "?rs = i - rl" using "1.prems"(2,4) by auto
      have run: "\<forall>j. i - rl \<le> j \<and> j < Suc i \<longrightarrow> \<not> bm_get bm j"
        using "1.prems"(5) clear by (metis less_Suc_eq)
      show ?thesis
      proof (cases "Suc rl = n")
        case True
        have "fits bm data n (i - rl)"
          using run True less "1.prems"(2) by (auto simp: fits_def)
        moreover have "\<not> fits bm data n s'" if "s' < i - rl" for s'
          using "1.prems"(6) that by (auto simp: fits_def)
        ultimately show ?thesis
          using less clear True rs by (subst page_scan.simps) (simp add: Let_def)
      next
        case False
        have "case page_scan bm data n (Suc i) ?rs (Suc rl) of None \<Rightarrow> \<forall>s. \<not> fits bm data n s
            | Some s \<Rightarrow> fits bm data n s \<and> (\<forall>s' < s. \<not> fits bm data n s')"
        proof (rule "1.IH"(1) [OF less clear refl refl False])
          show "\<forall>s < Suc i - Suc rl. \<exists>j. s \<le> j \<and> j < Suc i \<and> j < s + n \<and> bm_get bm j"
            using "1.prems"(6) by (metis Suc_diff_le diff_Suc_Suc less_SucI)
        qed (use "1.prems" less False rs run in auto)
        then show ?thesis
          using less clear False by (subst page_scan.simps) (simp add: Let_def)
      qed
    qed
  qed
qed

lemma page_scan_spec:
  assumes "0 < n"
  shows "case page_scan bm data n 0 0 0 of
      None \<Rightarrow> \<forall>s. \<not> fits bm data n s
    | Some s \<Rightarrow> fits bm data n s \<and> (\<forall>s' < s. \<not> fits bm data n s')"
  using assms by (intro page_scan_first_fit) auto

section \<open>Allocator invariant\<close>

definition run_inv :: "PageRun \<Rightarrow> bool" where
  "run_inv r \<longleftrightarrow> run_bitmap_pages r < run_n_pages r \<and> 0 < run_bitmap_pages r \<and>
     run_data_pages r = run_n_pages r - run_bitmap_pages r \<and>
     length (run_bitmap r) = unat (run_bitmap_pages r) * 4096 \<and>
     unat (run_data_pages r) \<le> 8 * length (run_bitmap r) \<and>
     unat (run_free_pages r) = card (bm_free (run_bitmap r) (unat (run_data_pages r))) \<and>
     unat (run_base r) mod 4096 = 0 \<and> unat (run_base r) + unat (run_n_pages r) * 4096 < 2 ^ 64"

text \<open>The physical page numbers a run hands out, and those currently free.\<close>

definition run_lo :: "PageRun \<Rightarrow> nat" where
  "run_lo r = unat (run_base r) div 4096 + unat (run_bitmap_pages r)"

definition run_pages :: "PageRun \<Rightarrow> nat set" where
  "run_pages r = {run_lo r ..< unat (run_base r) div 4096 + unat (run_n_pages r)}"

definition free_set :: "PageAllocator \<Rightarrow> nat set" where
  "free_set pa = {p. \<exists>r \<in> set (pa_runs pa). p \<in> run_pages r \<and> \<not> bm_get (run_bitmap r) (p - run_lo r)}"

fun runs_disjoint :: "PageRun list \<Rightarrow> bool" where
  "runs_disjoint [] = True"
| "runs_disjoint (r # rs) = ((\<forall>r' \<in> set rs. run_pages r \<inter> run_pages r' = {}) \<and> runs_disjoint rs)"

definition pa_inv :: "PageAllocator \<Rightarrow> bool" where
  "pa_inv pa \<longleftrightarrow> (\<forall>r \<in> set (pa_runs pa). run_inv r) \<and> runs_disjoint (pa_runs pa) \<and>
     pa_free_pages pa = (\<Sum>r \<leftarrow> pa_runs pa. ucast (run_free_pages r)) \<and>
     pa_total_data_pages pa = (\<Sum>r \<leftarrow> pa_runs pa. ucast (run_data_pages r))"

lemma run_inv_data:
  assumes "run_inv r"
  shows "unat (run_data_pages r) = unat (run_n_pages r) - unat (run_bitmap_pages r)"
    and "unat (run_bitmap_pages r) < unat (run_n_pages r)"
proof -
  from assms have lt: "run_bitmap_pages r < run_n_pages r"
    and d: "run_data_pages r = run_n_pages r - run_bitmap_pages r" by (auto simp: run_inv_def)
  from lt show "unat (run_data_pages r) = unat (run_n_pages r) - unat (run_bitmap_pages r)"
    unfolding d by (intro unat_sub less_imp_le)
  from lt show "unat (run_bitmap_pages r) < unat (run_n_pages r)" by (simp add: word_less_nat_alt)
qed

lemma run_phys_unat:
  assumes inv: "run_inv r" and s: "s < unat (run_data_pages r)"
  shows "unat (run_phys r s) = unat (run_base r) + (unat (run_bitmap_pages r) + s) * 4096"
proof -
  note d = run_inv_data [OF inv]
  have bound: "unat (run_base r) + unat (run_n_pages r) * 4096 < 2 ^ 64"
    using inv by (simp add: run_inv_def)
  have n32: "unat (run_n_pages r) < 2 ^ 32" using unat_lt2p [of "run_n_pages r"] by simp
  have s32: "unat (of_nat s :: u32) = s" using s d n32 by (simp add: unat_of_nat)
  have idx: "unat (run_bitmap_pages r + of_nat s :: u32) = unat (run_bitmap_pages r) + s"
  proof -
    have "unat (run_bitmap_pages r) + s < 2 ^ 32" using s d n32 by linarith
    then show ?thesis using s32 unat_add_lem [of "run_bitmap_pages r" "of_nat s"] by simp
  qed
  have c: "unat (ucast (run_bitmap_pages r + of_nat s :: u32) :: u64) = unat (run_bitmap_pages r) + s"
    using idx by (simp add: unat_ucast_up)
  have "unat (ucast (run_bitmap_pages r + of_nat s :: u32) * CARA_PAGE_SIZE) = (unat (run_bitmap_pages r) + s) * 4096"
    using c s d bound by (subst unat_mult_lem [THEN iffD1]) (simp_all add: CARA_PAGE_SIZE_def)
  then show ?thesis
    unfolding run_phys_def using s d bound by (subst unat_add_lem [THEN iffD1]) simp_all
qed

lemma take_pages_inv:
  assumes inv: "run_inv r" and f: "fits (run_bitmap r) (unat (run_data_pages r)) (unat n) s"
    and n: "n \<le> run_free_pages r"
  shows "run_inv (take_pages r s n)"
proof -
  have "card (bm_free (bm_set_run (run_bitmap r) s (unat n)) (unat (run_data_pages r))) + unat n
      = card (bm_free (run_bitmap r) (unat (run_data_pages r)))"
    using inv f by (intro card_bm_free_set_run) (auto simp: fits_def run_inv_def)
  with inv n show ?thesis
    by (auto simp: run_inv_def take_pages_def unat_sub)
qed

text \<open>What a successful search through the runs means.\<close>

lemma alloc_in_runs_some:
  assumes "alloc_in_runs rs n = Some (phys, rs')" and "n \<noteq> 0" and "\<forall>r \<in> set rs. run_inv r"
  shows "\<exists>as r bs s. rs = as @ r # bs \<and> rs' = as @ take_pages r s n # bs \<and> phys = run_phys r s \<and>
    n \<le> run_free_pages r \<and> fits (run_bitmap r) (unat (run_data_pages r)) (unat n) s"
  using assms
proof (induction rs arbitrary: rs')
  case (Cons r rs)
  have n0: "0 < unat n" using Cons.prems(2) by (simp add: unat_gt_0)
  have skip: "?case" if "alloc_in_runs (r # rs) n = map_option (\<lambda>(p, rs'). (p, r # rs')) (alloc_in_runs rs n)"
  proof -
    from that Cons.prems(1) obtain rs'' where "alloc_in_runs rs n = Some (phys, rs'')" "rs' = r # rs''" by auto
    with Cons.IH [of rs''] Cons.prems(2,3) show ?thesis by (metis append_Cons list.set_intros(2))
  qed
  show ?case
  proof (cases "run_free_pages r < n")
    case True
    then show ?thesis by (intro skip) simp
  next
    case False
    show ?thesis
    proof (cases "page_scan (run_bitmap r) (unat (run_data_pages r)) (unat n) 0 0 0")
      case None
      with False show ?thesis by (intro skip) simp
    next
      case (Some s)
      with page_scan_spec [OF n0, of "run_bitmap r" "unat (run_data_pages r)"]
      have "fits (run_bitmap r) (unat (run_data_pages r)) (unat n) s" by simp
      moreover from Cons.prems(1) False Some have "phys = run_phys r s" "rs' = take_pages r s n # rs" by auto
      ultimately show ?thesis using False
        by (intro exI [of _ "[]"] exI [of _ r] exI [of _ rs] exI [of _ s]) (simp add: not_less)
    qed
  qed
qed simp

lemma alloc_in_runs_none:
  assumes "n \<noteq> 0" and "\<forall>r \<in> set rs. run_inv r"
  shows "alloc_in_runs rs n = None \<longleftrightarrow>
    (\<forall>r \<in> set rs. \<forall>s. \<not> fits (run_bitmap r) (unat (run_data_pages r)) (unat n) s)"
  using assms(2)
proof (induction rs)
  case (Cons r rs)
  have n0: "0 < unat n" using assms(1) by (simp add: unat_gt_0)
  note spec = page_scan_spec [OF n0, of "run_bitmap r" "unat (run_data_pages r)"]
  have few: "\<not> fits (run_bitmap r) (unat (run_data_pages r)) (unat n) s" if "run_free_pages r < n" for s
  proof
    assume f: "fits (run_bitmap r) (unat (run_data_pages r)) (unat n) s"
    then have "{s..<s + unat n} \<subseteq> bm_free (run_bitmap r) (unat (run_data_pages r))"
      by (auto simp: fits_def bm_free_def)
    then have "card {s..<s + unat n} \<le> card (bm_free (run_bitmap r) (unat (run_data_pages r)))"
      by (intro card_mono) simp
    with that Cons.prems show False by (auto simp: run_inv_def word_less_nat_alt)
  qed
  show ?case
  proof (cases "run_free_pages r < n")
    case True
    with few Cons show ?thesis by auto
  next
    case False
    with spec Cons show ?thesis
      by (cases "page_scan (run_bitmap r) (unat (run_data_pages r)) (unat n) 0 0 0") auto
  qed
qed simp

lemma run_pages_nonzero: "run_inv r \<Longrightarrow> p \<in> run_pages r \<Longrightarrow> 0 < p"
  by (auto simp: run_pages_def run_lo_def run_inv_def word_less_nat_alt)

lemma run_pages_index:
  assumes "run_inv r"
  shows "p \<in> run_pages r \<longleftrightarrow> run_lo r \<le> p \<and> p - run_lo r < unat (run_data_pages r)"
  using run_inv_data [OF assms] by (auto simp: run_pages_def run_lo_def)

lemma run_phys_page:
  assumes "run_inv r" and "s < unat (run_data_pages r)"
  shows "unat (run_phys r s) div 4096 = run_lo r + s" and "unat (run_phys r s) mod 4096 = 0"
proof -
  from assms(1) obtain q where q: "unat (run_base r) = 4096 * q" by (auto simp: run_inv_def)
  show "unat (run_phys r s) div 4096 = run_lo r + s" and "unat (run_phys r s) mod 4096 = 0"
    unfolding run_phys_unat [OF assms] run_lo_def q by (simp_all add: algebra_simps)
qed

lemma take_pages_simps [simp]:
  "run_pages (take_pages r s n) = run_pages r" "run_lo (take_pages r s n) = run_lo r"
  "run_data_pages (take_pages r s n) = run_data_pages r" "run_base (take_pages r s n) = run_base r"
  "run_n_pages (take_pages r s n) = run_n_pages r" "run_bitmap_pages (take_pages r s n) = run_bitmap_pages r"
  by (simp_all add: take_pages_def run_pages_def run_lo_def)

lemma runs_disjoint_append:
  "runs_disjoint (as @ bs) \<longleftrightarrow> runs_disjoint as \<and> runs_disjoint bs \<and>
     (\<forall>a \<in> set as. \<forall>b \<in> set bs. run_pages a \<inter> run_pages b = {})"
  by (induction as) auto

lemma runs_disjoint_replace:
  "run_pages r' = run_pages r \<Longrightarrow> runs_disjoint (as @ r' # bs) = runs_disjoint (as @ r # bs)"
  by (simp add: runs_disjoint_append)

lemma in_other_run:
  assumes "runs_disjoint (as @ r # bs)" and "p \<in> run_pages r" and "r' \<in> set as \<union> set bs"
  shows "p \<notin> run_pages r'"
  using assms by (auto simp: runs_disjoint_append)

text \<open>The free set seen through one run, and its part outside that run.\<close>

lemma free_set_run:
  assumes "runs_disjoint (as @ r # bs)" and "pa_runs pa = as @ r # bs" and "p \<in> run_pages r"
  shows "p \<in> free_set pa \<longleftrightarrow> \<not> bm_get (run_bitmap r) (p - run_lo r)"
  using in_other_run [OF assms(1,3)] assms by (auto simp: free_set_def)

lemma free_set_other:
  assumes "pa_runs pa = as @ r # bs" and "pa_runs pa' = as @ r' # bs" and "run_pages r' = run_pages r"
    and "p \<notin> run_pages r"
  shows "p \<in> free_set pa' \<longleftrightarrow> p \<in> free_set pa"
  using assms by (auto simp: free_set_def)

text \<open>The address test of \<^verbatim>\<open>Page_Free\<close> finds the run the page belongs to.\<close>

lemma data_bounds:
  assumes inv: "run_inv r"
  shows "unat (run_base r + ucast (run_bitmap_pages r) * CARA_PAGE_SIZE)
      = unat (run_base r) + unat (run_bitmap_pages r) * 4096"
    and "unat (run_base r + ucast (run_n_pages r) * CARA_PAGE_SIZE)
      = unat (run_base r) + unat (run_n_pages r) * 4096"
proof -
  have *: "unat (run_base r + ucast k * CARA_PAGE_SIZE) = unat (run_base r) + unat k * 4096"
    if "unat (run_base r) + unat k * 4096 < 2 ^ 64" for k :: u32
  proof -
    have "unat (ucast k * CARA_PAGE_SIZE :: u64) = unat k * 4096"
      using that unat_mult_lem [of "ucast k :: u64" CARA_PAGE_SIZE]
      by (simp add: CARA_PAGE_SIZE_def unat_ucast_up)
    then show ?thesis
      using that unat_add_lem [of "run_base r" "ucast k * CARA_PAGE_SIZE"] by simp
  qed
  have n: "unat (run_base r) + unat (run_n_pages r) * 4096 < 2 ^ 64"
    and "unat (run_bitmap_pages r) < unat (run_n_pages r)"
    using inv run_inv_data(2) [OF inv] by (auto simp: run_inv_def)
  then have "unat (run_base r) + unat (run_bitmap_pages r) * 4096 < 2 ^ 64" by linarith
  with n * show "unat (run_base r + ucast (run_bitmap_pages r) * CARA_PAGE_SIZE)
      = unat (run_base r) + unat (run_bitmap_pages r) * 4096"
    and "unat (run_base r + ucast (run_n_pages r) * CARA_PAGE_SIZE)
      = unat (run_base r) + unat (run_n_pages r) * 4096" by blast+
qed

lemma in_run_iff:
  assumes inv: "run_inv r"
  shows "(phys < run_base r + ucast (run_bitmap_pages r) * CARA_PAGE_SIZE \<or>
      phys \<ge> run_base r + ucast (run_n_pages r) * CARA_PAGE_SIZE) \<longleftrightarrow> unat phys div 4096 \<notin> run_pages r"
proof -
  from inv obtain q where q: "unat (run_base r) = q * 4096" by (auto simp: run_inv_def mult.commute)
  have "unat phys < (q + k) * 4096 \<longleftrightarrow> unat phys div 4096 < q + k" for k
    by (simp add: div_less_iff_less_mult)
  then show ?thesis
    unfolding word_less_nat_alt word_le_nat_alt data_bounds [OF inv] run_pages_def run_lo_def q
    by (auto simp: not_le not_less algebra_simps simp flip: not_less)
qed

lemma free_in_runs_hit:
  assumes "\<forall>r \<in> set (as @ r # bs). run_inv r" and "runs_disjoint (as @ r # bs)"
    and "unat phys div 4096 \<in> run_pages r"
  shows "free_in_runs (as @ r # bs) phys n = Some (as @ r\<lparr>run_bitmap := bm_clr_run (run_bitmap r)
      (unat (ucast ((phys - (run_base r + ucast (run_bitmap_pages r) * CARA_PAGE_SIZE)) div CARA_PAGE_SIZE) :: u32))
      (unat n), run_free_pages := run_free_pages r + n\<rparr> # bs)"
  using assms
proof (induction as)
  case Nil
  then show ?case using in_run_iff [of r phys] by (simp add: Let_def)
next
  case (Cons a as)
  have "unat phys div 4096 \<notin> run_pages a" using Cons.prems by (auto simp: runs_disjoint_append)
  then show ?case using Cons in_run_iff [of a phys] by (simp add: Let_def)
qed

section \<open>Properties\<close>

text \<open>
  C4. \<^verbatim>\<open>Page_Alloc\<close>: a non-zero result is a page-aligned physical address of \<open>n\<close> pages that were
  all free; afterwards exactly these pages have left the free set, their memory is zero and no
  other page's memory has changed, and the allocator invariant (every counter equal to the
  number of clear bitmap bits, runs disjoint) still holds.
\<close>

theorem Page_Alloc_sound:
  assumes inv: "pa_inv pa" and "Page_Alloc pa n mem = (phys, pa', mem')" and "phys \<noteq> 0"
  shows "unat phys mod 4096 = 0 \<and> pa_inv pa' \<and>
    {unat phys div 4096 ..< unat phys div 4096 + unat n} \<subseteq> free_set pa \<and>
    free_set pa' = free_set pa - {unat phys div 4096 ..< unat phys div 4096 + unat n} \<and>
    pa_free_pages pa' = pa_free_pages pa - ucast n \<and>
    (\<forall>p i. mem' p i = (if p \<in> {unat phys div 4096 ..< unat phys div 4096 + unat n} then 0 else mem p i))"
proof -
  from assms(2,3) have n: "n \<noteq> 0" by (auto simp: Page_Alloc_def split: if_splits)
  with assms(2,3) obtain runs' where al: "alloc_in_runs (pa_runs pa) n = Some (phys, runs')"
    and pa': "pa_runs pa' = runs'" "pa_free_pages pa' = pa_free_pages pa - ucast n"
      "pa_total_data_pages pa' = pa_total_data_pages pa" and mem': "mem' = zero_pages_at phys n mem"
    by (auto simp: Page_Alloc_def Let_def split: option.splits prod.splits)
  from inv have runs: "\<forall>r \<in> set (pa_runs pa). run_inv r" by (simp add: pa_inv_def)
  from alloc_in_runs_some [OF al n runs] obtain as r bs s where
    r: "pa_runs pa = as @ r # bs" "runs' = as @ take_pages r s n # bs" "phys = run_phys r s"
      "n \<le> run_free_pages r" "fits (run_bitmap r) (unat (run_data_pages r)) (unat n) s" by blast
  have ri: "run_inv r" using runs r(1) by simp
  have n0: "0 < unat n" using n by (simp add: unat_gt_0)
  have s: "s < unat (run_data_pages r)" using r(5) n0 by (auto simp: fits_def)
  note ph = run_phys_page [OF ri s, folded r(3)]
  let ?P = "{unat phys div 4096 ..< unat phys div 4096 + unat n}"
  have dis: "runs_disjoint (as @ r # bs)" using inv r(1) by (simp add: pa_inv_def)
  then have dis': "runs_disjoint (as @ take_pages r s n # bs)" by (simp add: runs_disjoint_append)
  have bm: "s + unat n \<le> 8 * length (run_bitmap r)" using r(5) ri unfolding fits_def run_inv_def by linarith
  have P: "p \<in> ?P \<longleftrightarrow> p \<in> run_pages r \<and> s \<le> p - run_lo r \<and> p - run_lo r < s + unat n" for p
    using r(5) unfolding run_pages_index [OF ri] ph(1) by (auto simp: fits_def)
  have bmp: "run_bitmap (take_pages r s n) = bm_set_run (run_bitmap r) s (unat n)" by (simp add: take_pages_def)
  have free': "free_set pa' = free_set pa - ?P"
  proof (rule set_eqI)
    fix p
    show "p \<in> free_set pa' \<longleftrightarrow> p \<in> free_set pa - ?P"
    proof (cases "p \<in> run_pages r")
      case True
      then show ?thesis
        using free_set_run [OF dis r(1) True] P [of p] bm
          free_set_run [of as "take_pages r s n" bs pa' p] dis' r(2) pa'(1)
        by (simp add: bmp bm_get_set_run) blast
    next
      case False
      then show ?thesis
        using free_set_other [OF r(1) pa'(1) [unfolded r(2)] _ False] P [of p] by auto
    qed
  qed
  have sub: "?P \<subseteq> free_set pa"
  proof
    fix p assume "p \<in> ?P"
    with P [of p] free_set_run [OF dis r(1), of p] r(5) show "p \<in> free_set pa" by (simp add: fits_def)
  qed
  have fp: "run_free_pages (take_pages r s n) = run_free_pages r - n" by (simp add: take_pages_def)
  have "pa_inv pa'"
    using inv r(1,4) take_pages_inv [OF ri r(5,4)] dis'
    by (auto simp: pa_inv_def pa' r(2) fp ucast_sub_le)
  then show ?thesis using ph free' sub pa' by (auto simp: mem' zero_pages_at_def)
qed

text \<open>
  C14. \<^verbatim>\<open>Page_Alloc\<close> is complete: for a non-zero request it returns 0, with nothing changed,
  exactly when no run has that many contiguous free pages.
\<close>

theorem Page_Alloc_complete:
  assumes "pa_inv pa" and "n \<noteq> 0"
  shows "fst (Page_Alloc pa n mem) = 0 \<longleftrightarrow>
      (\<forall>r \<in> set (pa_runs pa). \<forall>s. \<not> fits (run_bitmap r) (unat (run_data_pages r)) (unat n) s)"
    (is "?L \<longleftrightarrow> ?R")
proof -
  have runs: "\<forall>r \<in> set (pa_runs pa). run_inv r" using assms(1) by (simp add: pa_inv_def)
  show ?thesis
  proof (cases "alloc_in_runs (pa_runs pa) n")
    case None
    with assms(2) alloc_in_runs_none [OF assms(2) runs] show ?thesis by (simp add: Page_Alloc_def)
  next
    case (Some x)
    obtain phys rs' where x: "x = (phys, rs')" by (cases x)
    from alloc_in_runs_some [OF Some [unfolded x] assms(2) runs] obtain r s where
      r: "r \<in> set (pa_runs pa)" "phys = run_phys r s" "fits (run_bitmap r) (unat (run_data_pages r)) (unat n) s"
      by (metis in_set_conv_decomp)
    have "0 < unat n" using assms(2) by (simp add: unat_gt_0)
    then have "s < unat (run_data_pages r)" using r(3) by (auto simp: fits_def)
    with run_phys_page(1) [of r s] run_pages_nonzero [of r "run_lo r + s"] run_pages_index [of r] runs r
    have "phys \<noteq> 0" by fastforce
    then have "\<not> ?L" using Some x assms(2) by (simp add: Page_Alloc_def Let_def)
    then show ?thesis using r by blast
  qed
qed

text \<open>
  C15. Round trip: freeing what \<^verbatim>\<open>Page_Alloc\<close> just returned restores every run (bitmap and
  counters) and the global free count; only the peak statistic may differ.
\<close>

theorem Page_Alloc_Free_roundtrip:
  assumes inv: "pa_inv pa" and al: "Page_Alloc pa n mem = (phys, pa', mem')" and "phys \<noteq> 0"
  shows "pa_runs (Page_Free pa' phys n) = pa_runs pa \<and>
    pa_free_pages (Page_Free pa' phys n) = pa_free_pages pa"
proof -
  from al assms(3) have n: "n \<noteq> 0" by (auto simp: Page_Alloc_def split: if_splits)
  with al assms(3) obtain runs' where alr: "alloc_in_runs (pa_runs pa) n = Some (phys, runs')"
    and pa': "pa_runs pa' = runs'" "pa_free_pages pa' = pa_free_pages pa - ucast n"
    by (auto simp: Page_Alloc_def Let_def split: option.splits prod.splits)
  from inv have runs: "\<forall>r \<in> set (pa_runs pa). run_inv r" and dis: "runs_disjoint (pa_runs pa)"
    by (simp_all add: pa_inv_def)
  from alloc_in_runs_some [OF alr n runs] obtain as r bs s where
    r: "pa_runs pa = as @ r # bs" "runs' = as @ take_pages r s n # bs" "phys = run_phys r s"
      "n \<le> run_free_pages r" "fits (run_bitmap r) (unat (run_data_pages r)) (unat n) s" by blast
  have ri: "run_inv r" using runs r(1) by simp
  have "0 < unat n" using n by (simp add: unat_gt_0)
  then have s: "s < unat (run_data_pages r)" using r(5) by (auto simp: fits_def)
  have page: "unat phys div 4096 \<in> run_pages (take_pages r s n)"
    using run_phys_page [OF ri s] run_pages_index [OF ri] s r(3) by simp
  have runs2: "\<forall>x \<in> set (as @ take_pages r s n # bs). run_inv x"
    using runs r(1) take_pages_inv [OF ri r(5,4)] by auto
  have dis2: "runs_disjoint (as @ take_pages r s n # bs)" using dis r(1) by (simp add: runs_disjoint_append)
  have off: "unat (ucast ((phys - (run_base r + ucast (run_bitmap_pages r) * CARA_PAGE_SIZE)) div CARA_PAGE_SIZE) :: u32) = s"
  proof -
    have le: "run_base r + ucast (run_bitmap_pages r) * CARA_PAGE_SIZE \<le> phys"
      unfolding word_le_nat_alt data_bounds [OF ri] r(3) run_phys_unat [OF ri s] by simp
    have diff: "unat (phys - (run_base r + ucast (run_bitmap_pages r) * CARA_PAGE_SIZE)) = s * 4096"
      using unat_sub [OF le] data_bounds(1) [OF ri] run_phys_unat [OF ri s] r(3) by (simp add: algebra_simps)
    have sz: "unat CARA_PAGE_SIZE = 4096" by (simp add: CARA_PAGE_SIZE_def)
    have "unat ((phys - (run_base r + ucast (run_bitmap_pages r) * CARA_PAGE_SIZE)) div CARA_PAGE_SIZE) = s"
      unfolding unat_div_distrib diff sz by simp
    moreover have "s < 2 ^ 32" using s unat_lt2p [of "run_data_pages r"] by simp
    ultimately show ?thesis by (simp add: unsigned_ucast_eq take_bit_nat_eq_self)
  qed
  have "bm_clr_run (bm_set_run (run_bitmap r) s (unat n)) s (unat n) = run_bitmap r"
    using r(5) ri by (intro bm_clr_set_run) (auto simp: fits_def run_inv_def)
  then have restored: "(take_pages r s n)\<lparr>run_bitmap := bm_clr_run (run_bitmap (take_pages r s n)) s (unat n),
      run_free_pages := run_free_pages (take_pages r s n) + n\<rparr> = r"
    by (simp add: take_pages_def)
  show ?thesis
    using free_in_runs_hit [OF runs2 dis2 page, of n] n assms(3) off restored
    by (simp add: Page_Free_def pa' r(1,2))
qed

section \<open>The properties on a run of four pages\<close>

text \<open>One run at \<^verbatim>\<open>0x80000000\<close>: a bitmap page and three allocatable pages, all free.\<close>

definition run_ex :: PageRun where
  "run_ex = \<lparr>run_base = 0x80000000, run_n_pages = 4, run_bitmap_pages = 1, run_bitmap = replicate 4096 0,
     run_data_pages = 3, run_free_pages = 3\<rparr>"

definition pa_ex :: PageAllocator where
  "pa_ex = \<lparr>pa_runs = [run_ex], pa_total_data_pages = 3, pa_free_pages = 3, pa_peak_in_flight_pages = 0\<rparr>"

lemma bm_free_replicate0: "n \<le> 8 * k \<Longrightarrow> bm_free (replicate k 0) n = {..<n}"
  by (auto simp: bm_free_def)

lemma pa_ex_inv: "pa_inv pa_ex"
  by (simp add: pa_inv_def pa_ex_def run_ex_def run_inv_def bm_free_replicate0)

lemma pa_ex_alloc:
  "Page_Alloc pa_ex 2 mem = (0x80001000, snd (Page_Alloc pa_ex 2 mem))"
  by (simp add: Page_Alloc_def pa_ex_def run_ex_def page_scan.simps Let_def run_phys_def CARA_PAGE_SIZE_def)

theorem Page_Alloc_sound_witness:
  "\<exists>pa' mem'. Page_Alloc pa_ex 2 (\<lambda>_ _. 7) = (0x80001000, pa', mem') \<and> pa_inv pa' \<and>
     free_set pa' = free_set pa_ex - {0x80001, 0x80002} \<and> mem' 0x80001 5 = 0 \<and> mem' 0x80003 5 = 7"
proof -
  obtain pa' mem' where a: "Page_Alloc pa_ex 2 (\<lambda>_ _. 7) = (0x80001000, pa', mem')"
    using pa_ex_alloc [of "\<lambda>_ _. 7"] by (metis prod.collapse)
  have "{0x80001 ..< 0x80001 + 2} = {0x80001, 0x80002 :: nat}" by auto
  with Page_Alloc_sound [OF pa_ex_inv a] a show ?thesis by auto
qed

theorem Page_Alloc_complete_witness:
  "fst (Page_Alloc pa_ex 4 (\<lambda>_ _. 0)) = 0"
proof -
  have "\<forall>r \<in> set (pa_runs pa_ex). \<forall>s. \<not> fits (run_bitmap r) (unat (run_data_pages r)) (unat (4 :: u32)) s"
    by (simp add: pa_ex_def run_ex_def fits_def)
  then show ?thesis using Page_Alloc_complete [OF pa_ex_inv, of 4] by simp
qed

theorem Page_Alloc_Free_roundtrip_witness:
  "pa_runs (Page_Free (fst (snd (Page_Alloc pa_ex 2 (\<lambda>_ _. 0)))) 0x80001000 2) = [run_ex]"
proof -
  obtain pa' mem' where a: "Page_Alloc pa_ex 2 (\<lambda>_ _. 0) = (0x80001000, pa', mem')"
    using pa_ex_alloc [of "\<lambda>_ _. 0"] by (metis prod.collapse)
  from Page_Alloc_Free_roundtrip [OF pa_ex_inv a] a show ?thesis by (simp add: pa_ex_def)
qed

end
