(* ===== verification/Page_Tables.thy ===== *)
theory Page_Tables
  imports Phys_Pages
begin

text \<open>
  Sv39 page tables: the entry encoding of \<^verbatim>\<open>include/cara/arch/riscv64/arch_pte.h\<close> and the
  walk of \<^verbatim>\<open>src/croi/mm/pt.c\<close>.  Table pages are pages of the physical memory of \<open>Phys_Pages\<close>,
  named by their kernel-virtual address as in the source.  The page table descriptor comes
  from the kernel heap; whether the heap grants it is an argument.  The MMU fence has no
  effect on the tables.
\<close>

section \<open>Entry encoding\<close>

definition PTE_V :: u64 where "PTE_V = 0x001"
definition PTE_R :: u64 where "PTE_R = 0x002"
definition PTE_W :: u64 where "PTE_W = 0x004"
definition PTE_X :: u64 where "PTE_X = 0x008"
definition PTE_U :: u64 where "PTE_U = 0x010"
definition PTE_G :: u64 where "PTE_G = 0x020"
definition PTE_A :: u64 where "PTE_A = 0x040"
definition PTE_D :: u64 where "PTE_D = 0x080"

definition PTE_KERNEL_RWX :: u64 where
  "PTE_KERNEL_RWX = PTE_V OR PTE_R OR PTE_W OR PTE_X OR PTE_G OR PTE_A OR PTE_D"
definition PTE_KERNEL_RW :: u64 where
  "PTE_KERNEL_RW = PTE_V OR PTE_R OR PTE_W OR PTE_G OR PTE_A OR PTE_D"
definition PTE_USER_RW :: u64 where
  "PTE_USER_RW = PTE_V OR PTE_R OR PTE_W OR PTE_U OR PTE_A OR PTE_D"

definition arch_pte_leaf :: "u64 \<Rightarrow> u64 \<Rightarrow> u64" where
  "arch_pte_leaf pa prot = push_bit 10 (drop_bit 12 pa) OR prot"

definition arch_pte_table :: "u64 \<Rightarrow> u64" where
  "arch_pte_table child_pa = push_bit 10 (drop_bit 12 child_pa) OR PTE_V"

definition arch_pte_valid :: "u64 \<Rightarrow> bool" where
  "arch_pte_valid pte \<longleftrightarrow> pte AND PTE_V \<noteq> 0"

definition arch_pte_is_leaf :: "u64 \<Rightarrow> bool" where
  "arch_pte_is_leaf pte \<longleftrightarrow> pte AND (PTE_R OR PTE_W OR PTE_X) \<noteq> 0"

definition arch_pte_child_pa :: "u64 \<Rightarrow> u64" where
  "arch_pte_child_pa pte = push_bit 12 (drop_bit 10 pte AND 0x0FFFFFFFFFFF)"

section \<open>State and table access\<close>

record pt_state =
  g_page_alloc :: PageAllocator
  pt_mem :: pmem
  g_next_asid :: u16

record PageTable =
  pt_root :: u64
  pt_asid :: u16

definition ENTRIES_PER_TABLE :: nat where "ENTRIES_PER_TABLE = 512"
definition CARA_SHARED_L2_INDEX :: nat where "CARA_SHARED_L2_INDEX = 4"

definition page_of :: "u64 \<Rightarrow> nat" where
  "page_of va = unat (Mm_VirtToPhys va) div 4096"

definition tbl_get :: "pmem \<Rightarrow> u64 \<Rightarrow> nat \<Rightarrow> u64" where
  "tbl_get mem table i = mem (page_of table) i"

definition tbl_set :: "u64 \<Rightarrow> nat \<Rightarrow> u64 \<Rightarrow> pmem \<Rightarrow> pmem" where
  "tbl_set table i v mem = mem(page_of table := (mem (page_of table))(i := v))"

definition pte_child :: "u64 \<Rightarrow> u64" where
  "pte_child pte = Mm_PhysToVirt (arch_pte_child_pa pte)"

definition alloc_pt_page :: "pt_state \<Rightarrow> u64 option \<times> pt_state" where
  "alloc_pt_page st =
    (case Page_Alloc (g_page_alloc st) 1 (pt_mem st) of (phys, pa, mem) \<Rightarrow>
       if phys = 0 then (None, st\<lparr>g_page_alloc := pa, pt_mem := mem\<rparr>)
       else (Some (Mm_PhysToVirt phys), st\<lparr>g_page_alloc := pa, pt_mem := mem\<rparr>))"

definition free_pt_page :: "u64 \<Rightarrow> pt_state \<Rightarrow> pt_state" where
  "free_pt_page page st =
    (if page = 0 then st
     else st\<lparr>g_page_alloc := Page_Free (g_page_alloc st) (Mm_VirtToPhys page) 1\<rparr>)"

section \<open>Operations\<close>

definition Croi_NewKernelPT :: "bool \<Rightarrow> pt_state \<Rightarrow> PageTable option \<times> pt_state" where
  "Croi_NewKernelPT heap_ok st =
    (if \<not> heap_ok then (None, st)
     else case alloc_pt_page st of
       (None, st1) \<Rightarrow> (None, st1)
     | (Some root, st1) \<Rightarrow>
         (let asid = g_next_asid st1;
              mem = tbl_set root 259 (arch_pte_leaf 0xC0000000 PTE_KERNEL_RW)
                   (tbl_set root 258 (arch_pte_leaf 0x80000000 PTE_KERNEL_RWX)
                   (tbl_set root 257 (arch_pte_leaf 0x40000000 PTE_KERNEL_RW)
                   (tbl_set root 256 (arch_pte_leaf 0 PTE_KERNEL_RW) (pt_mem st1))))
          in (Some \<lparr>pt_root = root, pt_asid = asid\<rparr>, st1\<lparr>pt_mem := mem, g_next_asid := asid + 1\<rparr>)))"

fun free_subtable :: "nat \<Rightarrow> u64 \<Rightarrow> pt_state \<Rightarrow> pt_state" where
  "free_subtable 0 table st = st"
| "free_subtable (Suc level) table st =
    fold (\<lambda>i st.
      let pte = tbl_get (pt_mem st) table i in
      if \<not> arch_pte_valid pte \<or> arch_pte_is_leaf pte then st
      else free_pt_page (pte_child pte) (free_subtable level (pte_child pte) st))
    [0..<ENTRIES_PER_TABLE] st"

definition Croi_DestroyPT :: "PageTable \<Rightarrow> pt_state \<Rightarrow> pt_state" where
  "Croi_DestroyPT pt st =
    (if pt_root pt \<noteq> 0 then
       free_pt_page (pt_root pt)
        (fold (\<lambda>i st.
           if i = CARA_SHARED_L2_INDEX then st
           else let pte = tbl_get (pt_mem st) (pt_root pt) i in
             if arch_pte_valid pte \<and> \<not> arch_pte_is_leaf pte
             then free_pt_page (pte_child pte) (free_subtable 1 (pte_child pte) st)
             else st)
         [0..<256] st)
     else st)"

definition va_index :: "nat \<Rightarrow> u64 \<Rightarrow> nat" where
  "va_index shift va = unat (ucast (drop_bit shift va AND 0x1FF) :: u32)"

text \<open>
  One level of the walk of \<^verbatim>\<open>Page_Map\<close>: find the next table below \<open>table\<close> at entry \<open>i\<close>,
  allocating and linking it when the entry is empty and refusing a large-page leaf.
\<close>

definition map_descend :: "u64 \<Rightarrow> nat \<Rightarrow> pt_state \<Rightarrow> u64 result \<times> pt_state" where
  "map_descend table i st =
    (let pte = tbl_get (pt_mem st) table i in
     if \<not> arch_pte_valid pte then
       (case alloc_pt_page st of
          (None, st1) \<Rightarrow> (Inl CARA_ENOMEM, st1)
        | (Some child, st1) \<Rightarrow>
            (Inr child, st1\<lparr>pt_mem := tbl_set table i (arch_pte_table (Mm_VirtToPhys child)) (pt_mem st1)\<rparr>))
     else if arch_pte_is_leaf pte then (Inl CARA_EINVAL, st)
     else (Inr (pte_child pte), st))"

definition Page_Map :: "PageTable \<Rightarrow> u64 \<Rightarrow> u64 \<Rightarrow> u64 \<Rightarrow> pt_state \<Rightarrow> unit result \<times> pt_state" where
  "Page_Map pt va pa prot st =
    (if pt_root pt = 0 then (Inl CARA_EINVAL, st)
     else if va AND (CARA_PAGE_SIZE - 1) \<noteq> 0 \<or> pa AND (CARA_PAGE_SIZE - 1) \<noteq> 0 then (Inl CARA_EINVAL, st)
     else if prot AND PTE_V = 0 then (Inl CARA_EINVAL, st)
     else case map_descend (pt_root pt) (va_index 30 va) st of
       (Inl e, st1) \<Rightarrow> (Inl e, st1)
     | (Inr l1, st1) \<Rightarrow>
         (case map_descend l1 (va_index 21 va) st1 of
            (Inl e, st2) \<Rightarrow> (Inl e, st2)
          | (Inr l0, st2) \<Rightarrow>
              if arch_pte_valid (tbl_get (pt_mem st2) l0 (va_index 12 va)) then (Inl CARA_EINVAL, st2)
              else (Inr (), st2\<lparr>pt_mem := tbl_set l0 (va_index 12 va) (arch_pte_leaf pa prot) (pt_mem st2)\<rparr>)))"

definition Croi_Mm_InstallBootPT_1GiBLeaf ::
  "u64 \<Rightarrow> u64 \<Rightarrow> u64 \<Rightarrow> u64 \<Rightarrow> pt_state \<Rightarrow> unit result \<times> pt_state" where
  "Croi_Mm_InstallBootPT_1GiBLeaf root va phys prot st =
    (if va AND (push_bit 30 1 - 1) \<noteq> 0 \<or> phys AND (push_bit 30 1 - 1) \<noteq> 0 then (Inl CARA_EINVAL, st)
     else if prot AND PTE_V = 0 then (Inl CARA_EINVAL, st)
     else let i2 = va_index 30 va in
       if arch_pte_valid (tbl_get (pt_mem st) root i2) then (Inl CARA_EINVAL, st)
       else (Inr (), st\<lparr>pt_mem := tbl_set root i2 (arch_pte_leaf phys prot) (pt_mem st)\<rparr>))"

definition Sv39_Satp :: "PageTable \<Rightarrow> u64" where
  "Sv39_Satp pt = push_bit 60 8 OR push_bit 44 (ucast (pt_asid pt)) OR drop_bit 12 (Mm_VirtToPhys (pt_root pt))"

section \<open>The hardware walk\<close>

text \<open>
  What the MMU sees: the leaf entry for a virtual page and the level at which it was found
  (2 for a 1 GiB, 1 for a 2 MiB, 0 for a 4 KiB page).
\<close>

definition walk_entry :: "u64 \<Rightarrow> (u64 \<Rightarrow> (u64 \<times> nat) option) \<Rightarrow> nat \<Rightarrow> (u64 \<times> nat) option" where
  "walk_entry pte deeper level =
    (if \<not> arch_pte_valid pte then None
     else if arch_pte_is_leaf pte then Some (pte, level)
     else deeper (pte_child pte))"

definition sv39_walk :: "pmem \<Rightarrow> u64 \<Rightarrow> nat \<Rightarrow> nat \<Rightarrow> nat \<Rightarrow> (u64 \<times> nat) option" where
  "sv39_walk mem root i2 i1 i0 =
    walk_entry (tbl_get mem root i2)
      (\<lambda>l1. walk_entry (tbl_get mem l1 i1)
        (\<lambda>l0. walk_entry (tbl_get mem l0 i0) (\<lambda>_. None) 0) 1) 2"

section \<open>Encoding lemmas\<close>

lemma phys_virt [simp]: "Mm_VirtToPhys (Mm_PhysToVirt p) = p" "Mm_PhysToVirt (Mm_VirtToPhys v) = v"
  by (simp_all add: Mm_PhysToVirt_def Mm_VirtToPhys_def)

lemma word_zero_bits: "(w :: u64) = 0 \<longleftrightarrow> (\<forall>n. \<not> bit w n)"
  by (auto intro: bit_word_eqI)

lemma bit_PTE_V: "bit PTE_V n \<longleftrightarrow> n = 0"
  by (simp add: PTE_V_def bit_1_iff)

lemma bit_PTE_R: "bit PTE_R n \<longleftrightarrow> n = 1"
proof -
  have e: "PTE_R = push_bit 1 1" by (simp add: PTE_R_def)
  show ?thesis unfolding e bit_push_bit_iff bit_1_iff by auto
qed

lemma bit_PTE_W: "bit PTE_W n \<longleftrightarrow> n = 2"
proof -
  have e: "PTE_W = push_bit 2 1" by (simp add: PTE_W_def)
  show ?thesis unfolding e bit_push_bit_iff bit_1_iff by auto
qed

lemma bit_PTE_X: "bit PTE_X n \<longleftrightarrow> n = 3"
proof -
  have e: "PTE_X = push_bit 3 1" by (simp add: PTE_X_def)
  show ?thesis unfolding e bit_push_bit_iff bit_1_iff by auto
qed

lemmas PTE_bits = bit_PTE_V bit_PTE_R bit_PTE_W bit_PTE_X

lemma pte_valid_bit: "arch_pte_valid pte \<longleftrightarrow> bit pte 0"
  unfolding arch_pte_valid_def word_zero_bits by (auto simp: bit_and_iff PTE_bits)

lemma pte_leaf_bit: "arch_pte_is_leaf pte \<longleftrightarrow> bit pte 1 \<or> bit pte 2 \<or> bit pte 3"
  unfolding arch_pte_is_leaf_def word_zero_bits by (auto simp: bit_and_iff bit_or_iff PTE_bits)

lemma pte_table_shape: "arch_pte_valid (arch_pte_table pa) \<and> \<not> arch_pte_is_leaf (arch_pte_table pa)"
  by (simp add: pte_valid_bit pte_leaf_bit arch_pte_table_def bit_simps PTE_bits)

text \<open>A table entry for a page-aligned physical address below \<open>2 ^ 56\<close> leads back to it.\<close>

lemma pte_table_child:
  assumes "unat pa mod 4096 = 0" and "unat pa < 2 ^ 56"
  shows "arch_pte_child_pa (arch_pte_table pa) = pa"
proof -
  have lo: "12 \<le> n" if "bit pa n" for n
  proof (rule ccontr)
    assume "\<not> 12 \<le> n"
    have "take_bit 12 (unat pa) = 0" using assms(1) by (simp add: take_bit_eq_mod)
    then have "\<not> bit (take_bit 12 (unat pa)) n" by simp
    with that \<open>\<not> 12 \<le> n\<close> show False by (simp add: bit_take_bit_iff bit_unsigned_iff)
  qed
  have hi: "n < 56" if "bit pa n" for n
  proof -
    have "take_bit 56 pa = pa" using assms(2) by (rule take_bit_small)
    then have "bit (take_bit 56 pa) n" using that by simp
    then show ?thesis by (simp add: bit_take_bit_iff)
  qed
  have m: "bit (0x0FFFFFFFFFFF :: u64) k \<longleftrightarrow> k < 44" for k
  proof -
    have "(0x0FFFFFFFFFFF :: u64) = mask 44" by code_simp
    then show ?thesis by (simp only: bit_mask_iff) auto
  qed
  show ?thesis
  proof (rule bit_word_eqI)
    fix n assume n: "n < LENGTH(64)"
    have "bit (arch_pte_child_pa (arch_pte_table pa)) n \<longleftrightarrow> 12 \<le> n \<and> n < 56 \<and> bit pa n"
    proof (cases "12 \<le> n")
      case True
      then have "bit (arch_pte_child_pa (arch_pte_table pa)) n \<longleftrightarrow>
          bit (drop_bit 10 (arch_pte_table pa)) (n - 12) \<and> n - 12 < 44"
        using n unfolding arch_pte_child_pa_def bit_push_bit_iff bit_and_iff m by auto
      also have "bit (drop_bit 10 (arch_pte_table pa)) (n - 12) \<longleftrightarrow> bit pa n"
        using True n by (auto simp: arch_pte_table_def bit_drop_bit_eq bit_or_iff bit_push_bit_iff PTE_bits)
      finally show ?thesis using True by auto
    next
      case False
      then show ?thesis unfolding arch_pte_child_pa_def bit_push_bit_iff by simp
    qed
    with lo [of n] hi [of n] show "bit (arch_pte_child_pa (arch_pte_table pa)) n = bit pa n" by blast
  qed
qed

end
