(* ===== verification/Scheduler.thy ===== *)
theory Scheduler
  imports Exec_Lists Kobj_Handles
begin

text \<open>
  The cooperative scheduler and the signal calls of \<^verbatim>\<open>src/croi/sched/sched.c\<close>.  A task is named
  by a number and its control block is a record; the run, sleeper and dead queues are the
  sequences their list headers represent (\<open>Exec_Lists\<close> relates the pointer structure to them).
  A context switch is the change of \<open>g_current\<close>; a task suspended inside the loop of
  \<^verbatim>\<open>Croi_Wait\<close> keeps the loop's local \<^verbatim>\<open>mask\<close> in \<open>wait_loop\<close> and re-enters the loop when it runs
  again.  \<^verbatim>\<open>arch_halt\<close> sets \<open>halted\<close>.
\<close>

section \<open>State\<close>

datatype TaskState = TS_INVALID | TS_ADDED | TS_RUN | TS_READY | TS_WAIT | TS_EXCEPT | TS_REMOVED

record Task =
  tc_Pri :: "8 word"
  tc_State :: TaskState
  tc_IDNestCnt :: "8 word"
  tc_TDNestCnt :: "8 word"
  tc_SigAlloc :: u32
  tc_SigWait :: u32
  tc_SigRecvd :: u32
  tc_user_pt :: "nat option"
  tc_kstack :: bool
  tc_handles :: HandleTable

type_synonym tid = nat

record sched =
  tasks :: "tid \<Rightarrow> Task"
  g_current :: "tid option"
  g_runq :: "tid list"
  g_sleepers :: "tid list"
  g_dead :: "tid list"
  g_inited :: bool
  active_as :: "nat option"
  wait_loop :: "tid \<Rightarrow> u32 option"
  halted :: bool

definition pri :: "sched \<Rightarrow> tid \<Rightarrow> int" where
  "pri s t = sint (tc_Pri (tasks s t))"

definition upd_task :: "tid \<Rightarrow> (Task \<Rightarrow> Task) \<Rightarrow> sched \<Rightarrow> sched" where
  "upd_task t f s = s\<lparr>tasks := (tasks s)(t := f (tasks s t))\<rparr>"

section \<open>Queues and tasks\<close>

definition clamp_pri :: "int \<Rightarrow> 8 word" where
  "clamp_pri p = (if p < -128 then -128 else if p > 127 then 127 else of_int p)"

text \<open>The walk of \<^verbatim>\<open>runq_add\<close>: link in before the first task of lower priority, else at the tail.\<close>

fun runq_insert :: "(tid \<Rightarrow> int) \<Rightarrow> tid \<Rightarrow> tid list \<Rightarrow> tid list" where
  "runq_insert p t [] = [t]"
| "runq_insert p t (q # qs) = (if p q < p t then t # q # qs else q # runq_insert p t qs)"

definition runq_add :: "tid \<Rightarrow> sched \<Rightarrow> sched" where
  "runq_add t s = s\<lparr>g_runq := runq_insert (pri s) t (g_runq s)\<rparr>"

definition task_blank :: Task where
  "task_blank = \<lparr>tc_Pri = 0, tc_State = TS_INVALID, tc_IDNestCnt = 0, tc_TDNestCnt = 0, tc_SigAlloc = 0,
     tc_SigWait = 0, tc_SigRecvd = 0, tc_user_pt = None, tc_kstack = False,
     tc_handles = \<lparr>ht_slots = None, ht_cap = 0, ht_free_head = 0\<rparr>\<rparr>"

definition task_init_node :: "8 word \<Rightarrow> Task \<Rightarrow> Task" where
  "task_init_node p t = t\<lparr>tc_Pri := p, tc_IDNestCnt := -1, tc_TDNestCnt := -1\<rparr>"

definition CARA_TASK_HANDLE_TABLE_CAP :: u32 where "CARA_TASK_HANDLE_TABLE_CAP = 32"

text \<open>\<open>boot\<close> is the control block the heap grants; \<open>ht_ok\<close> whether it grants the handle slots.\<close>

definition Sched_Init :: "tid option \<Rightarrow> bool \<Rightarrow> sched \<Rightarrow> sched" where
  "Sched_Init boot ht_ok s =
    (if g_inited s then s
     else let s1 = s\<lparr>g_runq := [], g_sleepers := [], g_dead := []\<rparr> in
       case boot of None \<Rightarrow> s1
       | Some b \<Rightarrow>
           (let t = (task_init_node 100 task_blank)\<lparr>tc_State := TS_RUN\<rparr> in
            case HandleTable_Init ht_ok CARA_TASK_HANDLE_TABLE_CAP of
              Inl e \<Rightarrow> upd_task b (\<lambda>_. t) s1
            | Inr ht \<Rightarrow> (upd_task b (\<lambda>_. t\<lparr>tc_handles := ht\<rparr>) s1)\<lparr>g_current := Some b, g_inited := True\<rparr>))"

definition Croi_SpawnKernelTask :: "tid option \<Rightarrow> bool \<Rightarrow> bool \<Rightarrow> bool \<Rightarrow> int \<Rightarrow> sched \<Rightarrow> tid option \<times> sched" where
  "Croi_SpawnKernelTask mem stack_ok ht_ok entry p s =
    (if \<not> g_inited s \<or> \<not> entry then (None, s)
     else case mem of None \<Rightarrow> (None, s)
     | Some t \<Rightarrow>
         if \<not> stack_ok then (None, s)
         else case HandleTable_Init ht_ok CARA_TASK_HANDLE_TABLE_CAP of
           Inl e \<Rightarrow> (None, s)
         | Inr ht \<Rightarrow>
             (let tcb = (task_init_node (clamp_pri p) task_blank)
                          \<lparr>tc_State := TS_READY, tc_kstack := True, tc_handles := ht\<rparr>
              in (Some t, runq_add t (upd_task t (\<lambda>_. tcb) s))))"

section \<open>Switching\<close>

definition sched_activate_as :: "tid \<Rightarrow> sched \<Rightarrow> sched" where
  "sched_activate_as t s = (case tc_user_pt (tasks s t) of None \<Rightarrow> s | Some pt \<Rightarrow> s\<lparr>active_as := Some pt\<rparr>)"

text \<open>The common tail of yield, exit and wait: the head of the run queue becomes current.\<close>

definition dispatch :: "tid \<Rightarrow> sched \<Rightarrow> sched" where
  "dispatch next s = sched_activate_as next (s\<lparr>g_current := Some next\<rparr>)"

definition switch_allowed :: "sched \<Rightarrow> tid \<Rightarrow> bool" where
  "switch_allowed s t \<longleftrightarrow> \<not> (sint (tc_TDNestCnt (tasks s t)) \<ge> 0 \<or> sint (tc_IDNestCnt (tasks s t)) \<ge> 0)"

definition Croi_Yield :: "sched \<Rightarrow> sched" where
  "Croi_Yield s =
    (if \<not> g_inited s then s
     else if (case g_current s of None \<Rightarrow> False | Some c \<Rightarrow> \<not> switch_allowed s c) then s
     else case g_runq s of [] \<Rightarrow> s
     | next # rest \<Rightarrow>
         if (case g_current s of None \<Rightarrow> False | Some c \<Rightarrow> pri s next < pri s c) then s
         else let s1 = upd_task next (\<lambda>t. t\<lparr>tc_State := TS_RUN\<rparr>) (s\<lparr>g_runq := rest\<rparr>);
                  s2 = (case g_current s of None \<Rightarrow> s1
                        | Some c \<Rightarrow> runq_add c (upd_task c (\<lambda>t. t\<lparr>tc_State := TS_READY\<rparr>) s1))
              in dispatch next s2)"

definition Croi_TaskExit :: "sched \<Rightarrow> sched" where
  "Croi_TaskExit s = (case g_current s of None \<Rightarrow> s\<lparr>halted := True\<rparr>
     | Some c \<Rightarrow>
         (let s1 = upd_task c (\<lambda>t. t\<lparr>tc_State := TS_REMOVED\<rparr>) s;
              s2 = s1\<lparr>g_dead := g_dead s1 @ [c]\<rparr> in
          case g_runq s2 of [] \<Rightarrow> s2\<lparr>halted := True\<rparr>
          | next # rest \<Rightarrow>
              dispatch next (upd_task next (\<lambda>t. t\<lparr>tc_State := TS_RUN\<rparr>) (s2\<lparr>g_runq := rest\<rparr>))))"

definition on_current :: "(Task \<Rightarrow> Task) \<Rightarrow> sched \<Rightarrow> sched" where
  "on_current f s = (case g_current s of None \<Rightarrow> s | Some c \<Rightarrow> upd_task c f s)"

definition Croi_TaskSetSelfPriority :: "int \<Rightarrow> sched \<Rightarrow> sched" where
  "Croi_TaskSetSelfPriority p = on_current (\<lambda>t. t\<lparr>tc_Pri := clamp_pri p\<rparr>)"

definition Croi_Forbid :: "sched \<Rightarrow> sched" where
  "Croi_Forbid = on_current (\<lambda>t. t\<lparr>tc_TDNestCnt := tc_TDNestCnt t + 1\<rparr>)"

definition Croi_Permit :: "sched \<Rightarrow> sched" where
  "Croi_Permit = on_current (\<lambda>t. if sint (tc_TDNestCnt t) \<ge> 0 then t\<lparr>tc_TDNestCnt := tc_TDNestCnt t - 1\<rparr> else t)"

definition Croi_Disable :: "sched \<Rightarrow> sched" where
  "Croi_Disable = on_current (\<lambda>t. t\<lparr>tc_IDNestCnt := tc_IDNestCnt t + 1\<rparr>)"

definition Croi_Enable :: "sched \<Rightarrow> sched" where
  "Croi_Enable = on_current (\<lambda>t. if sint (tc_IDNestCnt t) \<ge> 0 then t\<lparr>tc_IDNestCnt := tc_IDNestCnt t - 1\<rparr> else t)"

fun reap_loop :: "tid list \<Rightarrow> sched \<times> kstore \<Rightarrow> sched \<times> kstore" where
  "reap_loop [] sk = sk"
| "reap_loop (t # ts) (s, k) =
    (let (ht, k') = HandleTable_Destroy (tc_handles (tasks s t)) k in
     reap_loop ts (upd_task t (\<lambda>tcb. tcb\<lparr>tc_kstack := False, tc_handles := ht\<rparr>) (s\<lparr>g_dead := ts\<rparr>), k'))"

definition Sched_ReapDead :: "sched \<times> kstore \<Rightarrow> sched \<times> kstore" where
  "Sched_ReapDead sk = reap_loop (g_dead (fst sk)) sk"

section \<open>Signals\<close>

text \<open>The search loop of \<^verbatim>\<open>Croi_AllocSignal\<close> over bits 16 to 31.\<close>

definition first_free_signal :: "u32 \<Rightarrow> nat option" where
  "first_free_signal alloc = find (\<lambda>b. alloc AND push_bit b 1 = 0) [16..<32]"

definition Croi_AllocSignal :: "sched \<Rightarrow> int \<times> sched" where
  "Croi_AllocSignal s = (case g_current s of None \<Rightarrow> (-1, s)
     | Some c \<Rightarrow>
         (case first_free_signal (tc_SigAlloc (tasks s c)) of None \<Rightarrow> (-1, s)
          | Some b \<Rightarrow>
              (let msk = push_bit b 1 in
               (int b, upd_task c (\<lambda>t. t\<lparr>tc_SigAlloc := tc_SigAlloc t OR msk,
                                        tc_SigRecvd := tc_SigRecvd t AND NOT msk\<rparr>) s))))"

definition Croi_FreeSignal :: "int \<Rightarrow> sched \<Rightarrow> sched" where
  "Croi_FreeSignal sig s =
    (if sig < 0 \<or> sig \<ge> 32 then s
     else let msk = push_bit (nat sig) 1 in
       on_current (\<lambda>t. t\<lparr>tc_SigAlloc := tc_SigAlloc t AND NOT msk,
                        tc_SigRecvd := tc_SigRecvd t AND NOT msk\<rparr>) s)"

definition Croi_Signal :: "tid \<Rightarrow> u32 \<Rightarrow> sched \<Rightarrow> sched" where
  "Croi_Signal target msk s =
    (if msk = 0 then s
     else let s1 = upd_task target (\<lambda>t. t\<lparr>tc_SigRecvd := tc_SigRecvd t OR msk\<rparr>) s;
              tcb = tasks s1 target in
       if tc_State tcb = TS_WAIT \<and> tc_SigRecvd tcb AND tc_SigWait tcb \<noteq> 0 then
         runq_add target
          (upd_task target (\<lambda>t. t\<lparr>tc_State := TS_READY, tc_SigWait := 0\<rparr>)
            (s1\<lparr>g_sleepers := removeAll target (g_sleepers s1)\<rparr>))
       else s1)"

definition Croi_SetSignal :: "u32 \<Rightarrow> u32 \<Rightarrow> sched \<Rightarrow> u32 \<times> sched" where
  "Croi_SetSignal new_signals msk s = (case g_current s of None \<Rightarrow> (0, s)
     | Some c \<Rightarrow>
         (let old = tc_SigRecvd (tasks s c) in
          (old AND msk,
           upd_task c (\<lambda>t. t\<lparr>tc_SigRecvd := (old AND NOT msk) OR (new_signals AND msk)\<rparr>) s)))"

datatype wait_result = WaitReturns u32 | WaitSuspended | WaitHalts

text \<open>One turn of the loop of \<^verbatim>\<open>Croi_Wait\<close>: return the signals that arrived, or block and switch.\<close>

definition Croi_Wait :: "u32 \<Rightarrow> sched \<Rightarrow> wait_result \<times> sched" where
  "Croi_Wait msk s = (case g_current s of None \<Rightarrow> (WaitReturns 0, s)
     | Some c \<Rightarrow>
         if msk = 0 then (WaitReturns 0, s)
         else let hit = tc_SigRecvd (tasks s c) AND msk in
           if hit \<noteq> 0 then
             (WaitReturns hit,
              (upd_task c (\<lambda>t. t\<lparr>tc_SigRecvd := tc_SigRecvd t AND NOT hit, tc_SigWait := 0\<rparr>) s)
               \<lparr>wait_loop := (wait_loop s)(c := None)\<rparr>)
           else
             let s1 = upd_task c (\<lambda>t. t\<lparr>tc_SigWait := msk, tc_State := TS_WAIT\<rparr>) s in
             (case g_runq s1 of [] \<Rightarrow> (WaitHalts, s1\<lparr>halted := True\<rparr>)
              | next # rest \<Rightarrow>
                  (WaitSuspended,
                   dispatch next (upd_task next (\<lambda>t. t\<lparr>tc_State := TS_RUN\<rparr>)
                     (s1\<lparr>g_sleepers := g_sleepers s1 @ [c], g_runq := rest,
                         wait_loop := (wait_loop s1)(c := Some msk)\<rparr>)))))"

section \<open>Run queue order\<close>

abbreviation desc :: "(tid \<Rightarrow> int) \<Rightarrow> tid list \<Rightarrow> bool" where
  "desc p \<equiv> sorted_wrt (\<lambda>x y. p x \<ge> p y)"

lemma set_runq_insert [simp]: "set (runq_insert p t qs) = insert t (set qs)"
  by (induction qs) auto

lemma distinct_runq_insert [simp]: "distinct (runq_insert p t qs) \<longleftrightarrow> t \<notin> set qs \<and> distinct qs"
  by (induction qs) auto

lemma desc_runq_insert: "desc p qs \<Longrightarrow> desc p (runq_insert p t qs)"
  by (induction qs) (auto intro: order_trans)

lemma runq_insert_cong:
  "(\<And>x. x \<in> insert t (set qs) \<Longrightarrow> p x = p' x) \<Longrightarrow> runq_insert p t qs = runq_insert p' t qs"
  by (induction qs) auto

lemma desc_cong: "(\<And>x. x \<in> set qs \<Longrightarrow> p x = p' x) \<Longrightarrow> desc p qs = desc p' qs"
  by (induction qs) auto

text \<open>The insertion is behind all tasks of the same or a higher priority.\<close>

lemma runq_insert_split:
  "desc p qs \<Longrightarrow> runq_insert p t qs = filter (\<lambda>q. p q \<ge> p t) qs @ t # filter (\<lambda>q. p q < p t) qs"
proof (induction qs)
  case (Cons q qs)
  show ?case
  proof (cases "p q < p t")
    case True
    then have "\<forall>x \<in> set qs. p x < p t" using Cons.prems by auto
    then have "filter (\<lambda>q. p t \<le> p q) qs = []" "filter (\<lambda>q. p q < p t) qs = qs"
      by (auto simp: filter_empty_conv filter_id_conv)
    with True show ?thesis by simp
  qed (use Cons in auto)
qed simp

section \<open>Invariant\<close>

text \<open>
  Every task is in exactly one place and its state says which; the run queue is in descending
  priority order; and no sleeper has a pending signal it waits for.
\<close>

definition asleep :: "sched \<Rightarrow> tid \<Rightarrow> bool" where
  "asleep s t \<longleftrightarrow> tc_State (tasks s t) = TS_WAIT \<and> tc_SigWait (tasks s t) \<noteq> 0 \<and>
     tc_SigRecvd (tasks s t) AND tc_SigWait (tasks s t) = 0 \<and> wait_loop s t = Some (tc_SigWait (tasks s t))"

definition known :: "sched \<Rightarrow> tid list" where
  "known s = (case g_current s of None \<Rightarrow> [] | Some c \<Rightarrow> [c]) @ g_runq s @ g_sleepers s @ g_dead s"

definition sched_inv :: "sched \<Rightarrow> bool" where
  "sched_inv s \<longleftrightarrow> g_inited s \<and> distinct (known s) \<and> desc (pri s) (g_runq s) \<and>
     (\<exists>c. g_current s = Some c \<and> tc_State (tasks s c) = TS_RUN) \<and>
     (\<forall>t \<in> set (g_runq s). tc_State (tasks s t) = TS_READY) \<and>
     (\<forall>t \<in> set (g_sleepers s). asleep s t) \<and>
     (\<forall>t \<in> set (g_dead s). tc_State (tasks s t) = TS_REMOVED)"

lemma upd_task_simps [simp]:
  "tasks (upd_task t f s) = (tasks s)(t := f (tasks s t))" "g_current (upd_task t f s) = g_current s"
  "g_runq (upd_task t f s) = g_runq s" "g_sleepers (upd_task t f s) = g_sleepers s"
  "g_dead (upd_task t f s) = g_dead s" "g_inited (upd_task t f s) = g_inited s"
  "wait_loop (upd_task t f s) = wait_loop s" "halted (upd_task t f s) = halted s"
  by (simp_all add: upd_task_def)

lemma activate_simps [simp]:
  "tasks (sched_activate_as t s) = tasks s" "g_current (sched_activate_as t s) = g_current s"
  "g_runq (sched_activate_as t s) = g_runq s" "g_sleepers (sched_activate_as t s) = g_sleepers s"
  "g_dead (sched_activate_as t s) = g_dead s" "g_inited (sched_activate_as t s) = g_inited s"
  "wait_loop (sched_activate_as t s) = wait_loop s" "halted (sched_activate_as t s) = halted s"
  by (simp_all add: sched_activate_as_def split: option.splits)

lemma dispatch_simps [simp]:
  "tasks (dispatch t s) = tasks s" "g_current (dispatch t s) = Some t"
  "g_runq (dispatch t s) = g_runq s" "g_sleepers (dispatch t s) = g_sleepers s"
  "g_dead (dispatch t s) = g_dead s" "g_inited (dispatch t s) = g_inited s"
  "wait_loop (dispatch t s) = wait_loop s" "halted (dispatch t s) = halted s"
  by (simp_all add: dispatch_def)

lemma runq_add_simps [simp]:
  "tasks (runq_add t s) = tasks s" "g_current (runq_add t s) = g_current s"
  "g_runq (runq_add t s) = runq_insert (pri s) t (g_runq s)" "g_sleepers (runq_add t s) = g_sleepers s"
  "g_dead (runq_add t s) = g_dead s" "g_inited (runq_add t s) = g_inited s"
  "wait_loop (runq_add t s) = wait_loop s" "halted (runq_add t s) = halted s"
  by (simp_all add: runq_add_def)

text \<open>Only a change of a priority field changes the priorities.\<close>

lemma pri_cong: "(\<And>t. tc_Pri (tasks s t) = tc_Pri (tasks s' t)) \<Longrightarrow> pri s = pri s'"
  by (rule ext) (simp add: pri_def)

lemma pri_simps [simp]:
  "(\<And>x. tc_Pri (f x) = tc_Pri x) \<Longrightarrow> pri (upd_task t f s) = pri s"
  "pri (dispatch t s) = pri s" "pri (runq_add t s) = pri s"
  "pri (s\<lparr>g_runq := q\<rparr>) = pri s" "pri (s\<lparr>g_sleepers := q\<rparr>) = pri s" "pri (s\<lparr>g_dead := q\<rparr>) = pri s"
  "pri (s\<lparr>wait_loop := w\<rparr>) = pri s" "pri (s\<lparr>halted := b\<rparr>) = pri s" "pri (s\<lparr>g_current := c\<rparr>) = pri s"
  by (rule pri_cong, simp)+

lemma inv_upd_current:
  assumes "sched_inv s" and "\<And>t. tc_State (f t) = tc_State t"
  shows "sched_inv (on_current f s)"
proof -
  from assms(1) obtain c where c: "g_current s = Some c" by (auto simp: sched_inv_def)
  have nin: "c \<notin> set (g_runq s)" "c \<notin> set (g_sleepers s)" "c \<notin> set (g_dead s)"
    using assms(1) c by (auto simp: sched_inv_def known_def)
  have "desc (pri (on_current f s)) (g_runq s) = desc (pri s) (g_runq s)"
    by (rule desc_cong) (use nin in \<open>auto simp: pri_def on_current_def c\<close>)
  with assms c nin show ?thesis
    by (auto simp: sched_inv_def known_def on_current_def asleep_def)
qed

lemma inv_yield:
  assumes inv: "sched_inv s"
  shows "sched_inv (Croi_Yield s)"
proof -
  from inv obtain c where c: "g_current s = Some c" "tc_State (tasks s c) = TS_RUN"
    by (auto simp: sched_inv_def)
  show ?thesis
  proof (cases "g_runq s")
    case Nil
    with inv c show ?thesis by (simp add: Croi_Yield_def)
  next
    case (Cons n rest)
    have d: "distinct (c # n # rest @ g_sleepers s @ g_dead s)"
      using inv c Cons by (auto simp: sched_inv_def known_def)
    let ?s1 = "upd_task n (\<lambda>t. t\<lparr>tc_State := TS_RUN\<rparr>) (s\<lparr>g_runq := rest\<rparr>)"
    let ?s2 = "upd_task c (\<lambda>t. t\<lparr>tc_State := TS_READY\<rparr>) ?s1"
    have q: "desc (pri s) (runq_insert (pri s) c rest)"
      using inv Cons by (intro desc_runq_insert) (simp add: sched_inv_def)
    have "sched_inv (dispatch n (runq_add c ?s2))"
      using inv c Cons d q unfolding sched_inv_def
      by (auto simp: known_def asleep_def)
    with inv c Cons show ?thesis
      by (simp add: Croi_Yield_def Let_def)
  qed
qed

lemma inv_exit:
  assumes inv: "sched_inv s" and "\<not> halted (Croi_TaskExit s)"
  shows "sched_inv (Croi_TaskExit s)"
proof -
  from inv obtain c where c: "g_current s = Some c" by (auto simp: sched_inv_def)
  with assms(2) obtain n rest where q: "g_runq s = n # rest"
    by (cases "g_runq s") (auto simp: Croi_TaskExit_def Let_def)
  have d: "distinct (c # n # rest @ g_sleepers s @ g_dead s)"
    using inv c q by (auto simp: sched_inv_def known_def)
  show ?thesis
    using inv c q d unfolding sched_inv_def
    by (auto simp: Croi_TaskExit_def known_def Let_def asleep_def)
qed

lemma inv_spawn:
  assumes inv: "sched_inv s" and "Croi_SpawnKernelTask mem a b e p s = (r, s')"
    and "\<And>t. mem = Some t \<Longrightarrow> t \<notin> set (known s)"
  shows "sched_inv s'"
proof (cases r)
  case None
  with assms show ?thesis
    by (auto simp: Croi_SpawnKernelTask_def Let_def split: if_splits option.splits sum.splits)
next
  case (Some t)
  with assms(2) obtain tcb where m: "mem = Some t" "tc_State tcb = TS_READY"
    and s': "s' = runq_add t (upd_task t (\<lambda>_. tcb) s)"
    by (force simp: Croi_SpawnKernelTask_def Let_def split: if_splits option.splits sum.splits)
  have t: "t \<notin> set (known s)" using assms(3) m by simp
  let ?s1 = "upd_task t (\<lambda>_. tcb) s"
  have "desc (pri ?s1) (g_runq s) = desc (pri s) (g_runq s)"
    by (rule desc_cong) (use t in \<open>auto simp: pri_def known_def\<close>)
  with inv have "desc (pri ?s1) (runq_insert (pri ?s1) t (g_runq ?s1))"
    by (intro desc_runq_insert) (simp add: sched_inv_def)
  then show ?thesis
    using inv t m(2) unfolding sched_inv_def
    by (auto simp: s' known_def asleep_def)
qed

lemma inv_wait_loop:
  "c \<notin> set (g_sleepers s) \<Longrightarrow> sched_inv (s\<lparr>wait_loop := (wait_loop s)(c := x)\<rparr>) = sched_inv s"
  by (auto simp: sched_inv_def known_def asleep_def)

lemma inv_wait:
  assumes inv: "sched_inv s" and "Croi_Wait m s = (r, s')" and "\<not> halted s'" and "\<not> halted s"
  shows "sched_inv s'"
proof -
  from inv obtain c where c: "g_current s = Some c" by (auto simp: sched_inv_def)
  show ?thesis
  proof (cases "m = 0 \<or> tc_SigRecvd (tasks s c) AND m \<noteq> 0")
    case True
    then show ?thesis
    proof (cases "m = 0")
      case True
      with assms(2) c inv show ?thesis by (simp add: Croi_Wait_def)
    next
      case False
      with True assms(2) c have s': "s' = (on_current (\<lambda>t. t\<lparr>tc_SigRecvd := tc_SigRecvd t AND NOT (tc_SigRecvd (tasks s c) AND m),
          tc_SigWait := 0\<rparr>) s)\<lparr>wait_loop := (wait_loop s)(c := None)\<rparr>"
        by (simp add: Croi_Wait_def Let_def on_current_def)
      have i: "sched_inv (on_current (\<lambda>t. t\<lparr>tc_SigRecvd := tc_SigRecvd t AND NOT (tc_SigRecvd (tasks s c) AND m),
          tc_SigWait := 0\<rparr>) s)" by (rule inv_upd_current [OF inv]) simp
      have "c \<notin> set (g_sleepers s)" using inv c by (auto simp: sched_inv_def known_def)
      then show ?thesis
        using i inv_wait_loop [of c "on_current (\<lambda>t. t\<lparr>tc_SigRecvd := tc_SigRecvd t AND NOT (tc_SigRecvd (tasks s c) AND m),
          tc_SigWait := 0\<rparr>) s" None] unfolding s' by (simp add: on_current_def c)
    qed
  next
    case False
    with assms(2,3) c obtain n rest where q: "g_runq s = n # rest"
      by (cases "g_runq s") (auto simp: Croi_Wait_def Let_def)
    have d: "distinct (c # n # rest @ g_sleepers s @ g_dead s)"
      using inv c q by (auto simp: sched_inv_def known_def)
    have s': "s' = dispatch n (upd_task n (\<lambda>t. t\<lparr>tc_State := TS_RUN\<rparr>)
        ((upd_task c (\<lambda>t. t\<lparr>tc_SigWait := m, tc_State := TS_WAIT\<rparr>) s)\<lparr>g_sleepers := g_sleepers s @ [c],
          g_runq := rest, wait_loop := (wait_loop s)(c := Some m)\<rparr>))"
      using assms(2) c q False by (simp add: Croi_Wait_def Let_def)
    show ?thesis
      using inv c q d False unfolding sched_inv_def
      by (auto simp: s' known_def asleep_def)
  qed
qed

lemma inv_signal:
  assumes inv: "sched_inv s" and t: "t \<in> set (known s)"
  shows "sched_inv (Croi_Signal t m s)"
proof (cases "m = 0")
  case True
  with inv show ?thesis by (simp add: Croi_Signal_def)
next
  case m: False
  let ?s1 = "upd_task t (\<lambda>x. x\<lparr>tc_SigRecvd := tc_SigRecvd x OR m\<rparr>) s"
  let ?wake = "tc_State (tasks ?s1 t) = TS_WAIT \<and> tc_SigRecvd (tasks ?s1 t) AND tc_SigWait (tasks ?s1 t) \<noteq> 0"
  show ?thesis
  proof (cases ?wake)
    case False
    then have sig: "Croi_Signal t m s = ?s1" using m by (auto simp: Croi_Signal_def Let_def)
    have "\<forall>x \<in> set (g_sleepers s). asleep ?s1 x"
      using inv False by (auto simp: sched_inv_def asleep_def)
    with inv show ?thesis
      unfolding sig sched_inv_def by (auto simp: known_def)
  next
    case True
    then have st: "tc_State (tasks s t) = TS_WAIT" by simp
    have ts: "t \<in> set (g_sleepers s)" "t \<notin> set (g_runq s)" "t \<notin> set (g_dead s)" "g_current s \<noteq> Some t"
      using inv t st by (auto simp: sched_inv_def known_def split: option.splits)
    let ?s2 = "upd_task t (\<lambda>x. x\<lparr>tc_State := TS_READY, tc_SigWait := 0\<rparr>)
      (?s1\<lparr>g_sleepers := removeAll t (g_sleepers ?s1)\<rparr>)"
    have sig: "Croi_Signal t m s = runq_add t ?s2" using m True by (simp add: Croi_Signal_def Let_def)
    have "desc (pri s) (runq_insert (pri s) t (g_runq s))"
      using inv by (intro desc_runq_insert) (simp add: sched_inv_def)
    then show ?thesis
      using inv ts unfolding sig sched_inv_def
      by (auto simp: known_def asleep_def distinct_removeAll)
  qed
qed

lemma inv_reap:
  assumes "sched_inv s" and "g_dead s = ts"
  shows "sched_inv (fst (reap_loop ts (s, k))) \<and> g_dead (fst (reap_loop ts (s, k))) = []"
  using assms
proof (induction ts arbitrary: s k)
  case (Cons t ts)
  obtain ht k' where h: "HandleTable_Destroy (tc_handles (tasks s t)) k = (ht, k')" by force
  let ?s1 = "upd_task t (\<lambda>tcb. tcb\<lparr>tc_kstack := False, tc_handles := ht\<rparr>) (s\<lparr>g_dead := ts\<rparr>)"
  have "sched_inv ?s1"
    using Cons.prems unfolding sched_inv_def
    by (auto simp: known_def asleep_def)
  from Cons.IH [OF this] show ?case by (simp add: h)
qed simp

section \<open>Execution\<close>

text \<open>
  Any interleaving of scheduler calls.  A task suspended inside \<^verbatim>\<open>Croi_Wait\<close> can only continue
  with the next turn of that loop; signals come from any task or from an interrupt.
\<close>

inductive sched_step :: "sched \<Rightarrow> sched \<Rightarrow> bool" where
  step_yield: "\<lbrakk>\<not> halted s; g_current s = Some c; wait_loop s c = None\<rbrakk> \<Longrightarrow> sched_step s (Croi_Yield s)"
| step_exit: "\<lbrakk>\<not> halted s; g_current s = Some c; wait_loop s c = None\<rbrakk> \<Longrightarrow> sched_step s (Croi_TaskExit s)"
| step_pri: "\<lbrakk>\<not> halted s; g_current s = Some c; wait_loop s c = None\<rbrakk> \<Longrightarrow> sched_step s (Croi_TaskSetSelfPriority p s)"
| step_forbid: "\<lbrakk>\<not> halted s; g_current s = Some c; wait_loop s c = None\<rbrakk> \<Longrightarrow>
    f \<in> {Croi_Forbid, Croi_Permit, Croi_Disable, Croi_Enable} \<Longrightarrow> sched_step s (f s)"
| step_alloc: "\<lbrakk>\<not> halted s; g_current s = Some c; wait_loop s c = None\<rbrakk> \<Longrightarrow> sched_step s (snd (Croi_AllocSignal s))"
| step_free: "\<lbrakk>\<not> halted s; g_current s = Some c; wait_loop s c = None\<rbrakk> \<Longrightarrow> sched_step s (Croi_FreeSignal sig s)"
| step_set: "\<lbrakk>\<not> halted s; g_current s = Some c; wait_loop s c = None\<rbrakk> \<Longrightarrow> sched_step s (snd (Croi_SetSignal n m s))"
| step_wait: "\<lbrakk>\<not> halted s; g_current s = Some c; wait_loop s c = None\<rbrakk> \<Longrightarrow> sched_step s (snd (Croi_Wait m s))"
| step_resume: "\<lbrakk>\<not> halted s; g_current s = Some c; wait_loop s c = Some m\<rbrakk> \<Longrightarrow> sched_step s (snd (Croi_Wait m s))"
| step_signal: "\<lbrakk>\<not> halted s; t \<in> set (known s)\<rbrakk> \<Longrightarrow> sched_step s (Croi_Signal t m s)"
| step_spawn: "\<lbrakk>\<not> halted s; \<And>t. mem = Some t \<Longrightarrow> t \<notin> set (known s)\<rbrakk> \<Longrightarrow>
    sched_step s (snd (Croi_SpawnKernelTask mem a b e p s))"
| step_reap: "\<not> halted s \<Longrightarrow> sched_step s (fst (Sched_ReapDead (s, k)))"

lemma inv_step:
  assumes "sched_step s s'" and "sched_inv s" and "\<not> halted s'"
  shows "sched_inv s'"
  using assms
proof (cases rule: sched_step.cases)
  case (step_forbid c f)
  with assms(2) show ?thesis
    by (auto simp: Croi_Forbid_def Croi_Permit_def Croi_Disable_def Croi_Enable_def intro!: inv_upd_current)
next
  case (step_alloc c)
  have "snd (Croi_AllocSignal s) = s \<or> (\<exists>b. snd (Croi_AllocSignal s) = on_current
      (\<lambda>t. t\<lparr>tc_SigAlloc := tc_SigAlloc t OR push_bit b 1, tc_SigRecvd := tc_SigRecvd t AND NOT (push_bit b 1)\<rparr>) s)"
    using step_alloc by (auto simp: Croi_AllocSignal_def on_current_def Let_def split: option.splits)
  with assms(2) step_alloc show ?thesis by (auto intro!: inv_upd_current)
next
  case (step_set c n m)
  have "snd (Croi_SetSignal n m s) = on_current
      (\<lambda>t. t\<lparr>tc_SigRecvd := (tc_SigRecvd (tasks s c) AND NOT m) OR (n AND m)\<rparr>) s"
    using step_set by (simp add: Croi_SetSignal_def on_current_def Let_def)
  with assms(2) step_set show ?thesis by (auto intro!: inv_upd_current)
next
  case (step_wait c m)
  with assms inv_wait show ?thesis by (metis prod.collapse)
next
  case (step_resume c m)
  with assms inv_wait show ?thesis by (metis prod.collapse)
next
  case (step_spawn mem a b e p)
  with assms(2) inv_spawn [of s mem a b e p] show ?thesis by (metis prod.collapse)
next
  case (step_reap k)
  with assms(2) inv_reap [of s "g_dead s" k] show ?thesis by (simp add: Sched_ReapDead_def)
qed (use assms in \<open>auto simp: Croi_TaskSetSelfPriority_def Croi_FreeSignal_def Let_def
      intro!: inv_yield inv_exit inv_signal inv_upd_current\<close>)

lemma halted_final: "sched_step s s' \<Longrightarrow> \<not> halted s"
  by (induction rule: sched_step.induct) auto

lemma inv_reach:
  assumes "sched_step\<^sup>*\<^sup>* s s'" and "sched_inv s" and "\<not> halted s'"
  shows "sched_inv s'"
  using assms
proof (induction rule: rtranclp_induct)
  case (step y z)
  then have "\<not> halted y" using halted_final by blast
  with step show ?case using inv_step by blast
qed simp

lemma Sched_Init_inv:
  assumes "\<not> g_inited s" and "\<not> halted s"
  shows "sched_inv (Sched_Init (Some b) True s) \<and> \<not> halted (Sched_Init (Some b) True s)"
proof -
  obtain ht where "HandleTable_Init True CARA_TASK_HANDLE_TABLE_CAP = Inr ht"
    by (simp add: HandleTable_Init_def CARA_TASK_HANDLE_TABLE_CAP_def)
  with assms show ?thesis
    by (simp add: Sched_Init_def Let_def sched_inv_def known_def task_init_node_def)
qed

lemma Croi_Yield_switch:
  assumes inv: "sched_inv s" and c: "g_current s = Some c" and sw: "switch_allowed s c"
    and q: "g_runq s = n # rest" and p: "pri s c \<le> pri s n"
  shows "g_current (Croi_Yield s) = Some n \<and> g_runq (Croi_Yield s) = runq_insert (pri s) c rest \<and>
    pri (Croi_Yield s) = pri s"
  using assms by (simp add: Croi_Yield_def Let_def sched_inv_def)

lemma forbid_iterate:
  assumes "g_current s = Some c"
  shows "g_current ((Croi_Forbid ^^ n) s) = Some c \<and>
    tasks ((Croi_Forbid ^^ n) s) c = (tasks s c)\<lparr>tc_TDNestCnt := tc_TDNestCnt (tasks s c) + of_nat n\<rparr>"
  by (induction n) (auto simp: assms Croi_Forbid_def on_current_def algebra_simps)

section \<open>Properties\<close>

text \<open>
  C1. No lost wake-up, and every queue in order: whatever scheduler calls are made after
  \<^verbatim>\<open>Sched_Init\<close>, as long as the system has not halted no sleeping task has received a signal it
  waits for, no task is in two places, the run queue is in descending priority order, and
  exactly the current task is in state \<^verbatim>\<open>TS_RUN\<close>.
\<close>

theorem sched_no_lost_wakeup:
  assumes "\<not> g_inited s0" and "\<not> halted s0"
    and "sched_step\<^sup>*\<^sup>* (Sched_Init (Some b) True s0) s" and "\<not> halted s"
  shows "(\<forall>t \<in> set (g_sleepers s). tc_SigWait (tasks s t) \<noteq> 0 \<and> tc_SigRecvd (tasks s t) AND tc_SigWait (tasks s t) = 0) \<and>
    distinct (known s) \<and> sorted_wrt (\<lambda>x y. pri s x \<ge> pri s y) (g_runq s) \<and>
    (\<forall>t \<in> set (known s). tc_State (tasks s t) = TS_RUN \<longleftrightarrow> g_current s = Some t)"
proof -
  have inv: "sched_inv s"
    using inv_reach [OF assms(3)] Sched_Init_inv [OF assms(1,2)] assms(4) by blast
  then obtain c where c: "g_current s = Some c" "tc_State (tasks s c) = TS_RUN"
    and st: "\<forall>t \<in> set (g_runq s). tc_State (tasks s t) = TS_READY"
      "\<forall>t \<in> set (g_sleepers s). tc_State (tasks s t) = TS_WAIT"
      "\<forall>t \<in> set (g_dead s). tc_State (tasks s t) = TS_REMOVED"
    unfolding sched_inv_def asleep_def by blast
  have "tc_State (tasks s t) = TS_RUN \<longleftrightarrow> g_current s = Some t" if "t \<in> set (known s)" for t
  proof -
    from that c(1) have "t = c \<or> t \<in> set (g_runq s) \<or> t \<in> set (g_sleepers s) \<or> t \<in> set (g_dead s)"
      by (simp add: known_def)
    with c st show ?thesis by fastforce
  qed
  with inv show ?thesis unfolding sched_inv_def asleep_def by blast
qed

text \<open>
  C10. \<^verbatim>\<open>Croi_Yield\<close> with switching allowed: afterwards the current task has at least the priority
  of every ready task; and when some ready task has the caller's priority or more, the caller
  loses the processor and is queued behind all ready tasks of its own or higher priority.
\<close>

theorem Croi_Yield_priority:
  assumes inv: "sched_inv s" and c: "g_current s = Some c" and sw: "switch_allowed s c"
  shows "(\<exists>n. g_current (Croi_Yield s) = Some n \<and> (\<forall>t \<in> set (g_runq (Croi_Yield s)). pri s t \<le> pri s n)) \<and>
    ((\<exists>t \<in> set (g_runq s). pri s c \<le> pri s t) \<longrightarrow>
      (\<exists>as bs. g_runq (Croi_Yield s) = as @ c # bs \<and> g_current (Croi_Yield s) = Some (hd (g_runq s)) \<and>
        (\<forall>t \<in> set as. pri s c \<le> pri s t) \<and> (\<forall>t \<in> set bs. pri s t < pri s c)))"
proof (cases "g_runq s")
  case Nil
  with assms have "Croi_Yield s = s" by (simp add: Croi_Yield_def)
  with Nil c show ?thesis by simp
next
  case (Cons n rest)
  have d: "desc (pri s) (n # rest)" using inv Cons by (simp add: sched_inv_def)
  show ?thesis
  proof (cases "pri s c \<le> pri s n")
    case True
    note y = Croi_Yield_switch [OF inv c sw Cons True]
    let ?A = "filter (\<lambda>q. pri s q \<ge> pri s c) rest" and ?B = "filter (\<lambda>q. pri s q < pri s c) rest"
    have r: "g_runq (Croi_Yield s) = ?A @ c # ?B"
      using y runq_insert_split [of "pri s" rest c] d by simp
    show ?thesis
    proof (intro conjI impI)
      show "\<exists>n. g_current (Croi_Yield s) = Some n \<and> (\<forall>t \<in> set (g_runq (Croi_Yield s)). pri s t \<le> pri s n)"
        using y r d True by (intro exI [of _ n]) auto
      show "\<exists>as bs. g_runq (Croi_Yield s) = as @ c # bs \<and> g_current (Croi_Yield s) = Some (hd (g_runq s)) \<and>
        (\<forall>t \<in> set as. pri s c \<le> pri s t) \<and> (\<forall>t \<in> set bs. pri s t < pri s c)"
        using y r Cons by (intro exI [of _ ?A] exI [of _ ?B]) simp
    qed
  next
    case False
    with assms Cons have y: "Croi_Yield s = s" by (simp add: Croi_Yield_def)
    have lt: "\<forall>t \<in> set (g_runq s). pri s t < pri s c" using False d Cons by auto
    show ?thesis
    proof (intro conjI impI)
      show "\<exists>n. g_current (Croi_Yield s) = Some n \<and> (\<forall>t \<in> set (g_runq (Croi_Yield s)). pri s t \<le> pri s n)"
        using y c lt by (intro exI [of _ c]) (auto intro: less_imp_le)
    qed (use lt in auto)
  qed
qed


text \<open>
  C22. \<^verbatim>\<open>Croi_AllocSignal\<close> hands out a user signal (16 to 31) that was not allocated, marks it
  allocated and clears it, and fails with -1 exactly when all sixteen are taken.
\<close>

theorem Croi_AllocSignal_correct:
  assumes "g_current s = Some c"
  shows "case Croi_AllocSignal s of (r, s') \<Rightarrow>
    if \<forall>b \<in> {16..<32}. bit (tc_SigAlloc (tasks s c)) b then r = -1 \<and> s' = s
    else \<exists>b \<in> {16..<32}. r = int b \<and> \<not> bit (tc_SigAlloc (tasks s c)) b \<and>
      bit (tc_SigAlloc (tasks s' c)) b \<and> \<not> bit (tc_SigRecvd (tasks s' c)) b"
proof -
  have free: "a AND push_bit b 1 = 0 \<longleftrightarrow> \<not> bit a b" if "b < 32" for a :: u32 and b
    using that by (simp add: bit_iff_and_push_bit_not_eq_0)
  show ?thesis
  proof (cases "first_free_signal (tc_SigAlloc (tasks s c))")
    case None
    then have "\<forall>b \<in> {16..<32}. bit (tc_SigAlloc (tasks s c)) b"
      using free unfolding first_free_signal_def find_None_iff set_upt by (meson atLeastLessThan_iff)
    with None assms show ?thesis by (simp add: Croi_AllocSignal_def)
  next
    case (Some b)
    then have b: "b \<in> {16..<32}" "\<not> bit (tc_SigAlloc (tasks s c)) b"
      using free find_SomeD [OF Some [unfolded first_free_signal_def]] unfolding set_upt
      by (meson atLeastLessThan_iff)+
    with Some assms show ?thesis
      by (auto simp: Croi_AllocSignal_def Let_def bit_or_iff bit_and_iff bit_not_iff bit_push_bit_iff bit_exp_iff possible_bit_word intro!: bexI [of _ b])
  qed
qed

text \<open>
  C23. The nesting counter is a signed byte: from the initial value -1, task switching is
  disabled by 1 to 128 nested \<^verbatim>\<open>Croi_Forbid\<close> calls, and the 129th wraps the counter and enables
  it again although the section is still nested.
\<close>

theorem Croi_Forbid_wraps:
  assumes "g_current s = Some c" and "tc_TDNestCnt (tasks s c) = -1" and "sint (tc_IDNestCnt (tasks s c)) = -1"
  shows "(\<forall>n \<in> {1..128}. \<not> switch_allowed ((Croi_Forbid ^^ n) s) c) \<and> switch_allowed ((Croi_Forbid ^^ 129) s) c"
proof -
  have td: "tc_TDNestCnt (tasks ((Croi_Forbid ^^ n) s) c) = of_nat n - 1"
    "tc_IDNestCnt (tasks ((Croi_Forbid ^^ n) s) c) = tc_IDNestCnt (tasks s c)" for n
    using forbid_iterate [OF assms(1), of n] assms(2) by simp_all
  have "sint (of_nat n - 1 :: 8 word) \<ge> 0" if "n \<in> {1..128}" for n
  proof -
    define k where "k = n - 1"
    have n: "n = Suc k" "k < 128" using that by (auto simp: k_def)
    have "uint (of_nat k :: 8 word) = int k" using n(2) by (simp add: uint_nat unat_of_nat)
    then have "sint (of_nat k :: 8 word) = int k" using n(2) by (simp add: sint_uint signed_take_bit_int_eq_self)
    then show ?thesis by (simp add: n(1))
  qed
  then show ?thesis using assms(3) by (simp add: switch_allowed_def td)
qed

section \<open>The properties on a concrete system\<close>

text \<open>The boot task 7 spawns task 8 and then waits for signal 16.\<close>

definition sched0 :: sched where
  "sched0 = \<lparr>tasks = (\<lambda>_. task_blank), g_current = None, g_runq = [], g_sleepers = [], g_dead = [],
     g_inited = False, active_as = None, wait_loop = (\<lambda>_. None), halted = False\<rparr>"

definition sched1 :: sched where
  "sched1 = Sched_Init (Some 7) True sched0"

definition sched2 :: sched where
  "sched2 = snd (Croi_SpawnKernelTask (Some 8) True True True 100 sched1)"

definition sched_ex :: sched where
  "sched_ex = snd (Croi_Wait 0x10000 sched2)"

lemma sched_ex_values:
  "g_current sched1 = Some 7" "set (known sched1) = {7}" "g_current sched2 = Some 7" "g_runq sched2 = [8]"
  "wait_loop sched2 7 = None" "switch_allowed sched2 7"
  "g_sleepers sched_ex = [7]" "g_current sched_ex = Some 8" "tc_SigWait (tasks sched_ex 7) = 0x10000"
  "tc_SigAlloc (tasks sched2 7) = 0" "tc_TDNestCnt (tasks sched2 7) = -1" "sint (tc_IDNestCnt (tasks sched2 7)) = -1"
  "pri sched2 7 = 100" "pri sched2 8 = 100" "\<not> halted sched1" "\<not> halted sched2" "\<not> halted sched_ex"
  by code_simp+

lemma sched_ex_reach: "sched_step\<^sup>*\<^sup>* sched1 sched2" "sched_step\<^sup>*\<^sup>* sched1 sched_ex"
proof -
  show s2: "sched_step\<^sup>*\<^sup>* sched1 sched2"
    unfolding sched2_def
    by (rule r_into_rtranclp, rule step_spawn) (auto simp: sched_ex_values)
  have "sched_step sched2 sched_ex"
    unfolding sched_ex_def by (rule step_wait [of _ 7]) (simp_all add: sched_ex_values)
  with s2 show "sched_step\<^sup>*\<^sup>* sched1 sched_ex" by (rule rtranclp.rtrancl_into_rtrancl)
qed

lemma sched_ex_inv: "sched_inv sched2" "sched_inv sched_ex"
proof -
  have "sched_inv sched1"
    unfolding sched1_def using Sched_Init_inv [of sched0 7] by (simp add: sched0_def)
  then show "sched_inv sched2" "sched_inv sched_ex"
    using inv_reach sched_ex_reach sched_ex_values by blast+
qed

theorem sched_no_lost_wakeup_witness:
  "sched_step\<^sup>*\<^sup>* sched1 sched_ex \<and> g_sleepers sched_ex = [7] \<and>
   tc_SigRecvd (tasks sched_ex 7) AND tc_SigWait (tasks sched_ex 7) = 0"
proof -
  have "sched_step\<^sup>*\<^sup>* (Sched_Init (Some 7) True sched0) sched_ex"
    using sched_ex_reach(2) by (simp only: sched1_def)
  from sched_no_lost_wakeup [OF _ _ this] show ?thesis
    using sched_ex_reach(2) sched_ex_values by (simp add: sched0_def)
qed

theorem Croi_Yield_priority_witness:
  "\<exists>as bs. g_runq (Croi_Yield sched2) = as @ 7 # bs \<and> g_current (Croi_Yield sched2) = Some 8"
proof -
  have "\<exists>t \<in> set (g_runq sched2). pri sched2 7 \<le> pri sched2 t" by (simp add: sched_ex_values)
  then show ?thesis
    using Croi_Yield_priority [OF sched_ex_inv(1) sched_ex_values(3,6)] by (auto simp: sched_ex_values)
qed


theorem Croi_AllocSignal_correct_witness:
  "\<exists>b \<in> {16..<32}. fst (Croi_AllocSignal sched2) = int b"
  using Croi_AllocSignal_correct [OF sched_ex_values(3)]
  by (cases "Croi_AllocSignal sched2") (auto simp: sched_ex_values split: if_splits)

theorem Croi_Forbid_wraps_witness:
  "\<not> switch_allowed ((Croi_Forbid ^^ 128) sched2) 7 \<and> switch_allowed ((Croi_Forbid ^^ 129) sched2) 7"
  using Croi_Forbid_wraps [OF sched_ex_values(3,11,12)] by simp

end
