(* ===== verification/Tag_Lists.thy ===== *)
theory Tag_Lists
  imports Prelude
begin

text \<open>
  Tag lists: the walkers of utility.library (src/src/croi/utility_lib/tag_ops.c) and the
  kernel's own walker (src/src/croi/util/tagitem.c).

  Memory holds a \<open>TagItem\<close> at every address a walker reaches (the structure is 16 bytes
  long, so \<open>ti++\<close> adds 16 and the address arithmetic wraps at 64 bits); address 0 is the
  null pointer.  A \<open>TAG_MORE\<close> item may lead back to an earlier item, and then the loops of
  the source do not end: they are partial functions, with \<open>None\<close> for a walk that does not
  return.  The relation \<open>tag_walk\<close> describes the walks that end, with the addresses
  visited and the addresses of the items that are not control items; the lemmas show
  that each walker returns on them and what it returns.
\<close>

unbundle bit_operations_syntax

section \<open>Definitions\<close>

record TagItem =
  ti_Tag :: u32
  ti_Data :: u64

type_synonym tag_mem = "u64 \<Rightarrow> TagItem"

definition TAG_DONE :: u32 where "TAG_DONE = 0"
definition TAG_IGNORE :: u32 where "TAG_IGNORE = 1"
definition TAG_MORE :: u32 where "TAG_MORE = 2"
definition TAG_SKIP :: u32 where "TAG_SKIP = 3"
definition MAP_REMOVE_NOT_FOUND :: u32 where "MAP_REMOVE_NOT_FOUND = 0"
definition TAGFILTER_AND :: u32 where "TAGFILTER_AND = 0"

text \<open>The address of \<open>ti + n\<close>.\<close>

definition ti_plus :: "u64 \<Rightarrow> u64 \<Rightarrow> u64" where
  "ti_plus ti n = ti + 16 * n"

partial_function (option) Croi_Utility_FindTagItem :: "u32 \<Rightarrow> tag_mem \<Rightarrow> u64 \<Rightarrow> u64 option" where
  "Croi_Utility_FindTagItem tagValue m ti =
    (if ti = 0 then Some 0
     else let t = ti_Tag (m ti) in
       if t = TAG_DONE then Some 0
       else if t = TAG_IGNORE then Croi_Utility_FindTagItem tagValue m (ti_plus ti 1)
       else if t = TAG_MORE then Croi_Utility_FindTagItem tagValue m (ti_Data (m ti))
       else if t = TAG_SKIP then
         Croi_Utility_FindTagItem tagValue m (ti_plus ti (ti_Data (m ti) + 1))
       else if t = tagValue then Some ti
       else Croi_Utility_FindTagItem tagValue m (ti_plus ti 1))"

partial_function (option) Croi_Utility_GetTagData ::
  "u32 \<Rightarrow> u64 \<Rightarrow> tag_mem \<Rightarrow> u64 \<Rightarrow> u64 option" where
  "Croi_Utility_GetTagData tagValue defaultVal m ti =
    (if ti = 0 then Some defaultVal
     else let t = ti_Tag (m ti) in
       if t = TAG_DONE then Some defaultVal
       else if t = TAG_IGNORE then Croi_Utility_GetTagData tagValue defaultVal m (ti_plus ti 1)
       else if t = TAG_MORE then Croi_Utility_GetTagData tagValue defaultVal m (ti_Data (m ti))
       else if t = TAG_SKIP then
         Croi_Utility_GetTagData tagValue defaultVal m (ti_plus ti (ti_Data (m ti) + 1))
       else if t = tagValue then Some (ti_Data (m ti))
       else Croi_Utility_GetTagData tagValue defaultVal m (ti_plus ti 1))"

text \<open>
  The iterator: the result is the item returned (0 at the end) and the new cursor.  The
  argument is the content of the cursor variable; the null check of the pointer to it
  is the caller's \<open>None\<close> in \<open>Croi_Utility_NextTagItem\<close>.
\<close>

partial_function (option) next_tag_loop :: "tag_mem \<Rightarrow> u64 \<Rightarrow> (u64 \<times> u64) option" where
  "next_tag_loop m ti =
    (if ti = 0 then Some (0, 0)
     else let t = ti_Tag (m ti) in
       if t = TAG_DONE then Some (0, 0)
       else if t = TAG_IGNORE then next_tag_loop m (ti_plus ti 1)
       else if t = TAG_MORE then next_tag_loop m (ti_Data (m ti))
       else if t = TAG_SKIP then next_tag_loop m (ti_plus ti (ti_Data (m ti) + 1))
       else Some (ti, ti_plus ti 1))"

definition Croi_Utility_NextTagItem :: "tag_mem \<Rightarrow> u64 option \<Rightarrow> (u64 \<times> u64 option) option" where
  "Croi_Utility_NextTagItem m cursor =
    (case cursor of None \<Rightarrow> Some (0, None)
     | Some ti \<Rightarrow> map_option (\<lambda>(r, c). (r, Some c)) (next_tag_loop m ti))"

text \<open>
  The inner loops look a tag up in a flat list.  \<open>flat_find m p t\<close> is the address of the
  first item with tag \<open>t\<close>, 0 if the list ends before.
\<close>

partial_function (option) flat_find :: "tag_mem \<Rightarrow> u64 \<Rightarrow> u32 \<Rightarrow> u64 option" where
  "flat_find m p t =
    (if p = 0 \<or> ti_Tag (m p) = TAG_DONE then Some 0
     else if ti_Tag (m p) = t then Some p
     else flat_find m (ti_plus p 1) t)"

partial_function (option) pack_loop :: "tag_mem \<Rightarrow> u64 \<Rightarrow> u64 \<Rightarrow> u32 \<Rightarrow> u32 option" where
  "pack_loop m boolMap ti flags =
    (if ti = 0 then Some flags
     else let t = ti_Tag (m ti) in
       if t = TAG_DONE then Some flags
       else if t = TAG_IGNORE then pack_loop m boolMap (ti_plus ti 1) flags
       else if t = TAG_MORE then pack_loop m boolMap (ti_Data (m ti)) flags
       else if t = TAG_SKIP then pack_loop m boolMap (ti_plus ti (ti_Data (m ti) + 1)) flags
       else Option.bind (flat_find m boolMap t) (\<lambda>p.
         let bit = (if p = 0 then 0 else ucast (ti_Data (m p)));
             flags' = (if bit \<noteq> 0
                       then if ti_Data (m ti) \<noteq> 0 then flags OR bit else flags AND NOT bit
                       else flags)
         in pack_loop m boolMap (ti_plus ti 1) flags'))"

definition Croi_Utility_PackBoolTags :: "u32 \<Rightarrow> tag_mem \<Rightarrow> u64 \<Rightarrow> u64 \<Rightarrow> u32 option" where
  "Croi_Utility_PackBoolTags initialFlags m tagList boolMap = pack_loop m boolMap tagList initialFlags"

text \<open>Tag arrays: 4-byte elements in a memory of tags.\<close>

type_synonym tag_arr = "u64 \<Rightarrow> u32"

partial_function (option) arr_find :: "tag_arr \<Rightarrow> u64 \<Rightarrow> u32 \<Rightarrow> bool option" where
  "arr_find a p t =
    (if a p = TAG_DONE then Some False
     else if a p = t then Some True
     else arr_find a (p + 4) t)"

definition Croi_Utility_TagInArray :: "u32 \<Rightarrow> tag_arr \<Rightarrow> u64 \<Rightarrow> bool option" where
  "Croi_Utility_TagInArray tagValue a tagArray =
    (if tagArray = 0 then Some False else arr_find a tagArray tagValue)"

partial_function (option) Croi_Utility_MapTags ::
  "tag_mem \<Rightarrow> u64 \<Rightarrow> u64 \<Rightarrow> u32 \<Rightarrow> tag_mem option" where
  "Croi_Utility_MapTags m ti mapList mapType =
    (if ti = 0 then Some m
     else let t = ti_Tag (m ti) in
       if t = TAG_DONE then Some m
       else if t = TAG_IGNORE then Croi_Utility_MapTags m (ti_plus ti 1) mapList mapType
       else if t = TAG_MORE then Croi_Utility_MapTags m (ti_Data (m ti)) mapList mapType
       else if t = TAG_SKIP then
         Croi_Utility_MapTags m (ti_plus ti (ti_Data (m ti) + 1)) mapList mapType
       else Option.bind (flat_find m mapList t) (\<lambda>p.
         let m' = (if p \<noteq> 0 then m(ti := (m ti)\<lparr>ti_Tag := ucast (ti_Data (m p))\<rparr>)
                   else if mapType = MAP_REMOVE_NOT_FOUND then m(ti := (m ti)\<lparr>ti_Tag := TAG_IGNORE\<rparr>)
                   else m)
         in Croi_Utility_MapTags m' (ti_plus ti 1) mapList mapType))"

text \<open>
  The compacting walkers.  The two cursors \<open>rd\<close> and \<open>wr\<close> of the source are \<open>r\<close> and \<open>w\<close>.
\<close>

definition ti_end :: TagItem where
  "ti_end = \<lparr>ti_Tag = TAG_DONE, ti_Data = 0\<rparr>"

partial_function (option) filter_loop ::
  "tag_arr \<Rightarrow> u64 \<Rightarrow> u32 \<Rightarrow> tag_mem \<Rightarrow> u64 \<Rightarrow> u64 \<Rightarrow> u32 \<Rightarrow> (u32 \<times> tag_mem) option" where
  "filter_loop a filterArray logic m r w count =
    (let t = ti_Tag (m r) in
     if t = TAG_DONE then Some (count, m(w := ti_end))
     else if t = TAG_IGNORE then filter_loop a filterArray logic m (ti_plus r 1) w count
     else Option.bind (if filterArray = 0 then Some False else arr_find a filterArray t) (\<lambda>isin.
       let keep = (if logic = TAGFILTER_AND then isin else \<not> isin) in
       if keep then filter_loop a filterArray logic (if w \<noteq> r then m(w := m r) else m)
                      (ti_plus r 1) (ti_plus w 1) (count + 1)
       else filter_loop a filterArray logic m (ti_plus r 1) w count))"

definition Croi_Utility_FilterTagItems ::
  "tag_mem \<Rightarrow> tag_arr \<Rightarrow> u64 \<Rightarrow> u64 \<Rightarrow> u32 \<Rightarrow> (u32 \<times> tag_mem) option" where
  "Croi_Utility_FilterTagItems m a tagList filterArray logic =
    (if tagList = 0 then Some (0, m) else filter_loop a filterArray logic m tagList tagList 0)"

partial_function (option) changes_loop ::
  "u64 \<Rightarrow> bool \<Rightarrow> tag_mem \<Rightarrow> u64 \<Rightarrow> u64 \<Rightarrow> tag_mem option" where
  "changes_loop originalList apply_new m r w =
    (let t = ti_Tag (m r) in
     if t = TAG_DONE then Some (m(w := ti_end))
     else if t = TAG_IGNORE then changes_loop originalList apply_new m (ti_plus r 1) w
     else Option.bind (flat_find m originalList t) (\<lambda>orig.
       if orig = 0 \<or> ti_Data (m orig) \<noteq> ti_Data (m r) then
         let m1 = (if apply_new \<and> orig \<noteq> 0
                   then m(orig := (m orig)\<lparr>ti_Data := ti_Data (m r)\<rparr>) else m);
             m2 = (if w \<noteq> r then m1(w := m1 r) else m1)
         in changes_loop originalList apply_new m2 (ti_plus r 1) (ti_plus w 1)
       else changes_loop originalList apply_new m (ti_plus r 1) w))"

definition Croi_Utility_FilterTagChanges ::
  "tag_mem \<Rightarrow> u64 \<Rightarrow> u64 \<Rightarrow> bool \<Rightarrow> tag_mem option" where
  "Croi_Utility_FilterTagChanges m changeList originalList apply_new =
    (if changeList = 0 then Some m else changes_loop originalList apply_new m changeList changeList)"

text \<open>The kernel's walker: the same loop, written with a \<open>switch\<close>.\<close>

partial_function (option) Croi_GetTagData :: "tag_mem \<Rightarrow> u64 \<Rightarrow> u32 \<Rightarrow> u64 \<Rightarrow> u64 option" where
  "Croi_GetTagData m list tag default_data =
    (if list \<noteq> 0 then
       (if ti_Tag (m list) = TAG_DONE then Some default_data
        else if ti_Tag (m list) = TAG_IGNORE then Croi_GetTagData m (ti_plus list 1) tag default_data
        else if ti_Tag (m list) = TAG_MORE then Croi_GetTagData m (ti_Data (m list)) tag default_data
        else if ti_Tag (m list) = TAG_SKIP then
          Croi_GetTagData m (ti_plus list (1 + ti_Data (m list))) tag default_data
        else if ti_Tag (m list) = tag then Some (ti_Data (m list))
        else Croi_GetTagData m (ti_plus list 1) tag default_data)
     else Some default_data)"

section \<open>Walks that end\<close>

text \<open>
  \<open>tag_walk m ti vs xs\<close>: the walk from \<open>ti\<close> ends, visits the addresses \<open>vs\<close> in this order and
  meets the items \<open>xs\<close> that are not control items.
\<close>

inductive tag_walk :: "tag_mem \<Rightarrow> u64 \<Rightarrow> u64 list \<Rightarrow> u64 list \<Rightarrow> bool" for m where
  tw_null: "tag_walk m 0 [] []"
| tw_done: "ti \<noteq> 0 \<Longrightarrow> ti_Tag (m ti) = TAG_DONE \<Longrightarrow> tag_walk m ti [ti] []"
| tw_ignore: "ti \<noteq> 0 \<Longrightarrow> ti_Tag (m ti) = TAG_IGNORE \<Longrightarrow> tag_walk m (ti_plus ti 1) vs xs \<Longrightarrow>
    tag_walk m ti (ti # vs) xs"
| tw_more: "ti \<noteq> 0 \<Longrightarrow> ti_Tag (m ti) = TAG_MORE \<Longrightarrow> tag_walk m (ti_Data (m ti)) vs xs \<Longrightarrow>
    tag_walk m ti (ti # vs) xs"
| tw_skip: "ti \<noteq> 0 \<Longrightarrow> ti_Tag (m ti) = TAG_SKIP \<Longrightarrow>
    tag_walk m (ti_plus ti (ti_Data (m ti) + 1)) vs xs \<Longrightarrow> tag_walk m ti (ti # vs) xs"
| tw_item: "ti \<noteq> 0 \<Longrightarrow> ti_Tag (m ti) \<notin> {TAG_DONE, TAG_IGNORE, TAG_MORE, TAG_SKIP} \<Longrightarrow>
    tag_walk m (ti_plus ti 1) vs xs \<Longrightarrow> tag_walk m ti (ti # vs) (ti # xs)"

lemmas tag_consts = TAG_DONE_def TAG_IGNORE_def TAG_MORE_def TAG_SKIP_def

lemma FindTagItem_walk:
  assumes "tag_walk m ti vs xs"
  shows "Croi_Utility_FindTagItem v m ti =
    Some (case find (\<lambda>a. ti_Tag (m a) = v) xs of None \<Rightarrow> 0 | Some a \<Rightarrow> a)"
  using assms
  by (induction rule: tag_walk.induct)
     (subst Croi_Utility_FindTagItem.simps, simp add: Let_def tag_consts)+

lemma GetTagData_walk:
  assumes "tag_walk m ti vs xs"
  shows "Croi_Utility_GetTagData v d m ti =
    Some (case find (\<lambda>a. ti_Tag (m a) = v) xs of None \<Rightarrow> d | Some a \<Rightarrow> ti_Data (m a))"
  using assms
  by (induction rule: tag_walk.induct)
     (subst Croi_Utility_GetTagData.simps, simp add: Let_def tag_consts)+

lemma next_tag_loop_walk:
  assumes "tag_walk m ti vs xs"
  shows "next_tag_loop m ti = Some (case xs of [] \<Rightarrow> (0, 0) | x # _ \<Rightarrow> (x, ti_plus x 1))"
  using assms
  by (induction rule: tag_walk.induct) (subst next_tag_loop.simps, simp add: Let_def tag_consts)+

lemma tag_walk_tail:
  assumes "tag_walk m ti vs (x # xs)"
  shows "\<exists>vs'. tag_walk m (ti_plus x 1) vs' xs"
  using assms by (induction ti vs "x # xs" rule: tag_walk.induct) auto

lemma tag_walk_tags:
  assumes "tag_walk m ti vs xs" "x \<in> set xs"
  shows "x \<noteq> 0 \<and> ti_Tag (m x) \<notin> {TAG_DONE, TAG_IGNORE, TAG_MORE, TAG_SKIP}"
  using assms by (induction rule: tag_walk.induct) auto

lemma kernel_GetTagData_walk:
  assumes "tag_walk m ti vs xs"
  shows "Croi_GetTagData m ti v d =
    Some (case find (\<lambda>a. ti_Tag (m a) = v) xs of None \<Rightarrow> d | Some a \<Rightarrow> ti_Data (m a))"
  using assms
  by (induction rule: tag_walk.induct)
     (subst Croi_GetTagData.simps, simp add: tag_consts add.commute [of 1 "ti_Data (m _)"])+

inductive_cases tag_walk_nullE: "tag_walk m 0 vs xs"

lemma tag_walk_det:
  assumes "tag_walk m ti vs xs" "tag_walk m ti vs' xs'"
  shows "vs' = vs \<and> xs' = xs"
  using assms
proof (induction arbitrary: vs' xs' rule: tag_walk.induct)
  case tw_null
  then show ?case by (auto elim: tag_walk_nullE)
next
  case (tw_done ti)
  from tw_done.prems tw_done.hyps show ?case by (cases rule: tag_walk.cases) (auto simp: tag_consts)
next
  case (tw_ignore ti vs xs)
  from tw_ignore.prems tw_ignore.hyps(1,2) obtain vs1
    where "vs' = ti # vs1" "tag_walk m (ti_plus ti 1) vs1 xs'"
    by (cases rule: tag_walk.cases) (auto simp: tag_consts)
  with tw_ignore.IH [of vs1 xs'] show ?case by simp
next
  case (tw_more ti vs xs)
  from tw_more.prems tw_more.hyps(1,2) obtain vs1
    where "vs' = ti # vs1" "tag_walk m (ti_Data (m ti)) vs1 xs'"
    by (cases rule: tag_walk.cases) (auto simp: tag_consts)
  with tw_more.IH [of vs1 xs'] show ?case by simp
next
  case (tw_skip ti vs xs)
  from tw_skip.prems tw_skip.hyps(1,2) obtain vs1
    where "vs' = ti # vs1" "tag_walk m (ti_plus ti (ti_Data (m ti) + 1)) vs1 xs'"
    by (cases rule: tag_walk.cases) (auto simp: tag_consts)
  with tw_skip.IH [of vs1 xs'] show ?case by simp
next
  case (tw_item ti vs xs)
  from tw_item.prems tw_item.hyps(1,2) obtain vs1 xs1
    where "vs' = ti # vs1" "xs' = ti # xs1" "tag_walk m (ti_plus ti 1) vs1 xs1"
    by (cases rule: tag_walk.cases) (auto simp: tag_consts)
  with tw_item.IH [of vs1 xs1] show ?case by simp
qed

lemma suffix_step:
  assumes "tag_walk m ti (ti # vs) xs" "a \<in> set (ti # vs)"
    "a \<in> set vs \<Longrightarrow> \<exists>vs' xs'. tag_walk m a vs' xs' \<and> length vs' \<le> length vs"
  shows "\<exists>vs' xs'. tag_walk m a vs' xs' \<and> length vs' \<le> length (ti # vs)"
proof (cases "a = ti")
  case True
  with assms(1) show ?thesis by blast
next
  case False
  with assms(2,3) obtain vs' xs' where "tag_walk m a vs' xs'" "length vs' \<le> length vs" by auto
  then show ?thesis by (intro exI [of _ vs'] exI [of _ xs']) simp
qed

lemma tag_walk_suffix:
  assumes "tag_walk m ti vs xs" "a \<in> set vs"
  shows "\<exists>vs' xs'. tag_walk m a vs' xs' \<and> length vs' \<le> length vs"
  using assms
proof (induction rule: tag_walk.induct)
  case (tw_done ti)
  then show ?case by (intro suffix_step [OF tag_walk.tw_done [of ti m, OF tw_done.hyps]]) auto
next
  case (tw_ignore ti vs xs)
  then show ?case by (intro suffix_step [OF tag_walk.tw_ignore [of ti m vs xs, OF tw_ignore.hyps]]) auto
next
  case (tw_more ti vs xs)
  then show ?case by (intro suffix_step [OF tag_walk.tw_more [of ti m vs xs, OF tw_more.hyps]]) auto
next
  case (tw_skip ti vs xs)
  then show ?case by (intro suffix_step [OF tag_walk.tw_skip [of ti m vs xs, OF tw_skip.hyps]]) auto
next
  case (tw_item ti vs xs)
  then show ?case by (intro suffix_step [OF tag_walk.tw_item [of ti m vs xs, OF tw_item.hyps]]) auto
qed simp

lemma tag_walk_fresh:
  assumes "tag_walk m ti (ti # vs) xs" "tag_walk m ti' vs xs'"
  shows "ti \<notin> set vs"
proof
  assume "ti \<in> set vs"
  then obtain vs' ys where w: "tag_walk m ti vs' ys" and l: "length vs' \<le> length vs"
    using tag_walk_suffix [OF assms(2)] by blast
  from tag_walk_det [OF assms(1) w] l show False by simp
qed

text \<open>A walk that ends never visits an address twice.\<close>

lemma tag_walk_distinct:
  assumes "tag_walk m ti vs xs"
  shows "distinct vs \<and> set xs \<subseteq> set vs"
  using assms
proof (induction rule: tag_walk.induct)
  case (tw_ignore ti vs xs)
  with tag_walk_fresh [OF tag_walk.tw_ignore [of ti m vs xs, OF tw_ignore.hyps] tw_ignore.hyps(3)] show ?case by auto
next
  case (tw_more ti vs xs)
  with tag_walk_fresh [OF tag_walk.tw_more [of ti m vs xs, OF tw_more.hyps] tw_more.hyps(3)] show ?case by auto
next
  case (tw_skip ti vs xs)
  with tag_walk_fresh [OF tag_walk.tw_skip [of ti m vs xs, OF tw_skip.hyps] tw_skip.hyps(3)] show ?case by auto
next
  case (tw_item ti vs xs)
  with tag_walk_fresh [OF tag_walk.tw_item [of ti m vs xs, OF tw_item.hyps] tw_item.hyps(3)] show ?case by auto
qed simp_all

lemma FindTagItem_returns_walk:
  assumes "Croi_Utility_FindTagItem v m ti = Some r" "v = TAG_DONE"
  shows "\<exists>vs xs. tag_walk m ti vs xs"
proof -
  have "v = TAG_DONE \<longrightarrow> (\<exists>vs xs. tag_walk m ti vs xs)"
    using _ assms(1)
  proof (rule Croi_Utility_FindTagItem.raw_induct
      [where P = "\<lambda>v m ti r. v = TAG_DONE \<longrightarrow> (\<exists>vs xs. tag_walk m ti vs xs)"])
    fix F v m ti r
    assume IH: "\<And>v m ti r. F v m ti = Some r \<Longrightarrow> v = TAG_DONE \<longrightarrow> (\<exists>vs xs. tag_walk m ti vs xs)"
      and step: "(if ti = 0 then Some 0
        else let t = ti_Tag (m ti) in
          if t = TAG_DONE then Some 0
          else if t = TAG_IGNORE then F v m (ti_plus ti 1)
          else if t = TAG_MORE then F v m (ti_Data (m ti))
          else if t = TAG_SKIP then F v m (ti_plus ti (ti_Data (m ti) + 1))
          else if t = v then Some ti
          else F v m (ti_plus ti 1)) = Some r"
    show "v = TAG_DONE \<longrightarrow> (\<exists>vs xs. tag_walk m ti vs xs)"
    proof (cases "ti = 0 \<or> ti_Tag (m ti) = TAG_DONE")
      case True
      then show ?thesis using tw_null [of m] tw_done [of ti m] by blast
    next
      case False
      then show ?thesis
        using step IH [of v m "ti_plus ti 1" r] IH [of v m "ti_Data (m ti)" r]
          IH [of v m "ti_plus ti (ti_Data (m ti) + 1)" r]
          tw_ignore [of ti m] tw_more [of ti m] tw_skip [of ti m] tw_item [of ti m]
        by (simp add: Let_def split: if_splits) blast+
    qed
  qed
  then show ?thesis using assms(2) by simp
qed

section \<open>An example list\<close>

text \<open>
  An item, a chain to a second array, an ignored item, a skip over one item, the second
  item and the end.
\<close>

definition tags_ex :: tag_mem where
  "tags_ex = (\<lambda>_. ti_end)
    (16 := \<lparr>ti_Tag = 0x80000001, ti_Data = 7\<rparr>,
     32 := \<lparr>ti_Tag = TAG_MORE, ti_Data = 160\<rparr>,
     160 := \<lparr>ti_Tag = TAG_IGNORE, ti_Data = 0\<rparr>,
     176 := \<lparr>ti_Tag = TAG_SKIP, ti_Data = 1\<rparr>,
     192 := \<lparr>ti_Tag = 0x80000003, ti_Data = 8\<rparr>,
     208 := \<lparr>ti_Tag = 0x80000002, ti_Data = 9\<rparr>)"

lemma tags_ex_walk: "tag_walk tags_ex 16 [16, 32, 160, 176, 208, 224] [16, 208]"
  by (rule tag_walk.tw_item, simp_all add: tags_ex_def tag_consts ti_plus_def ti_end_def)
     (rule tag_walk.tw_more, simp_all add: tag_consts,
      rule tag_walk.tw_ignore, simp_all add: tag_consts ti_plus_def,
      rule tag_walk.tw_skip, simp_all add: tag_consts ti_plus_def,
      rule tag_walk.tw_item, simp_all add: tag_consts ti_plus_def,
      rule tag_walk.tw_done, simp_all add: tag_consts)

section \<open>Properties of the walkers\<close>

text \<open>
  C32. The tag walk loop returns for every tag looked for exactly when the walk ends: when
  it comes to a null pointer or a TAG_DONE item without ever visiting an address twice.
  A list whose TAG_MORE items form a cycle makes FindTagItem loop forever for a tag that
  is not in it.
\<close>

theorem FindTagItem_terminates:
  "(\<forall>v. \<exists>r. Croi_Utility_FindTagItem v m ti = Some r) =
   (\<exists>vs xs. tag_walk m ti vs xs \<and> distinct vs)"
  using FindTagItem_walk [of m ti] FindTagItem_returns_walk [of TAG_DONE m ti] tag_walk_distinct [of m ti]
  by blast

text \<open>
  C33. On a walk that ends, FindTagItem returns the first item with the tag looked for (null
  if there is none), and the library's GetTagData and the kernel's own walker both return
  that item's data (the default if there is none).  Control tags are never found.
\<close>

theorem GetTagData_correct:
  assumes "tag_walk m ti vs xs"
  shows "Croi_Utility_FindTagItem v m ti =
           Some (case find (\<lambda>a. ti_Tag (m a) = v) xs of None \<Rightarrow> 0 | Some a \<Rightarrow> a) \<and>
         Croi_Utility_GetTagData v d m ti =
           Some (case find (\<lambda>a. ti_Tag (m a) = v) xs of None \<Rightarrow> d | Some a \<Rightarrow> ti_Data (m a)) \<and>
         Croi_GetTagData m ti v d = Croi_Utility_GetTagData v d m ti \<and>
         Croi_Utility_FindTagItem TAG_MORE m ti = Some 0"
proof -
  have "find (\<lambda>a. ti_Tag (m a) = TAG_MORE) xs = None"
    using tag_walk_tags [OF assms] by (auto simp: find_None_iff)
  then show ?thesis
    by (simp add: FindTagItem_walk [OF assms] GetTagData_walk [OF assms] kernel_GetTagData_walk [OF assms])
qed

theorem GetTagData_correct_witness:
  "Croi_Utility_GetTagData 0x80000002 5 tags_ex 16 = Some 9 \<and>
   Croi_Utility_FindTagItem 0x80000003 tags_ex 16 = Some 0"
  using GetTagData_correct [OF tags_ex_walk, of "0x80000002" 5]
    GetTagData_correct [OF tags_ex_walk, of "0x80000003" 5]
  by (simp add: tags_ex_def)

text \<open>
  C34. Iterating with NextTagItem enumerates the items: on a walk that ends it returns the
  first item that is not a control item and leaves the cursor at a place from which the
  walk ends with the remaining items; after the last item it returns null and clears the
  cursor.
\<close>

theorem NextTagItem_enumerates:
  assumes "tag_walk m ti vs xs"
  shows "case xs of
      [] \<Rightarrow> Croi_Utility_NextTagItem m (Some ti) = Some (0, Some 0)
    | x # ys \<Rightarrow> \<exists>c vs'. Croi_Utility_NextTagItem m (Some ti) = Some (x, Some c) \<and>
        x \<noteq> 0 \<and> tag_walk m c vs' ys"
  using next_tag_loop_walk [OF assms] tag_walk_tail [of m ti vs] tag_walk_tags [OF assms] assms
  by (auto simp: Croi_Utility_NextTagItem_def split: list.split)

theorem NextTagItem_enumerates_witness:
  "\<exists>c vs'. Croi_Utility_NextTagItem tags_ex (Some 16) = Some (16, Some c) \<and> tag_walk tags_ex c vs' [208]"
  using NextTagItem_enumerates [OF tags_ex_walk] by auto

end
