(* ===== verification/Device_Tree.thy ===== *)
theory Device_Tree
  imports Prelude
begin

text \<open>
  The flattened device tree parser (src/src/croi/fdt): header validation, the token reader of
  the structure block, node navigation and property access.

  The blob is a function from byte offsets to bytes, so that a read outside of it has a value
  and the lemmas can say that no result depends on such a read.  Offsets within the
  structure block are 32-bit words and wrap as in the code; a pointer into the blob is its
  offset from the start of the blob.  Names given by the caller are lists of bytes without
  their terminator.  Out-parameters are results, and the null checks on them are left out.

  Loops that advance by the token reader are partial functions: \<open>None\<close> is a loop that does
  not return.  The lemmas show that they return when the structure block is at most
  \<open>0xFFFFFFFC\<close> bytes long; a longer one can send the token reader back to offset 0.
\<close>

unbundle bit_operations_syntax

section \<open>Reading the blob\<close>

type_synonym blob = "nat \<Rightarrow> u8"

record Fdt =
  blob :: blob
  totalsize :: u32
  off_struct :: u32
  size_struct :: u32
  off_strings :: u32
  size_strings :: u32
  off_rsvmap :: u32
  fdt_version :: u32
  boot_cpuid_phys :: u32

definition FDT_MAGIC :: u32 where "FDT_MAGIC = 0xD00DFEED"
definition FDT_BEGIN_NODE :: u32 where "FDT_BEGIN_NODE = 1"
definition FDT_END_NODE :: u32 where "FDT_END_NODE = 2"
definition FDT_PROP :: u32 where "FDT_PROP = 3"
definition FDT_NOP :: u32 where "FDT_NOP = 4"
definition FDT_END :: u32 where "FDT_END = 9"
definition FDT_REQUIRED_VERSION :: u32 where "FDT_REQUIRED_VERSION = 17"
definition FDT_MAX_LAST_COMP :: u32 where "FDT_MAX_LAST_COMP = 16"

lemmas fdt_consts = FDT_BEGIN_NODE_def FDT_END_NODE_def FDT_PROP_def FDT_NOP_def FDT_END_def

definition fdt_be32 :: "blob \<Rightarrow> nat \<Rightarrow> u32" where
  "fdt_be32 b p = push_bit 24 (ucast (b p)) OR push_bit 16 (ucast (b (p + 1))) OR
     push_bit 8 (ucast (b (p + 2))) OR ucast (b (p + 3))"

definition fdt_be64 :: "blob \<Rightarrow> nat \<Rightarrow> u64" where
  "fdt_be64 b p = push_bit 32 (ucast (fdt_be32 b p)) OR ucast (fdt_be32 b (p + 4))"

definition fdt_align4 :: "u32 \<Rightarrow> u32" where
  "fdt_align4 x = (x + 3) AND NOT 3"

text \<open>The size of \<^verbatim>\<open>struct FdtRawHeader\<close>: ten 32-bit fields.\<close>

definition sizeof_FdtRawHeader :: u32 where "sizeof_FdtRawHeader = 40"

text \<open>\<open>addr\<close> is the address of the blob, 0 for a null pointer.\<close>

definition Fdt_Open :: "u64 \<Rightarrow> blob \<Rightarrow> Fdt result" where
  "Fdt_Open addr b =
    (let magic = fdt_be32 b 0; tsize = fdt_be32 b 4; o_struct = fdt_be32 b 8;
         o_strings = fdt_be32 b 12; o_rsvmap = fdt_be32 b 16; ver = fdt_be32 b 20;
         last_comp = fdt_be32 b 24; boot_cpu = fdt_be32 b 28;
         s_strings = fdt_be32 b 32; s_struct = fdt_be32 b 36
     in
     if addr = 0 then Inl CARA_EINVAL
     else if addr AND 3 \<noteq> 0 then Inl CARA_EINVAL
     else if magic \<noteq> FDT_MAGIC then Inl CARA_EBADMAGIC
     else if ver < FDT_REQUIRED_VERSION then Inl CARA_EBADVERSION
     else if last_comp > FDT_MAX_LAST_COMP then Inl CARA_EBADVERSION
     else if tsize < sizeof_FdtRawHeader then Inl CARA_EINVAL
     else if o_struct > tsize \<or> s_struct > tsize - o_struct then Inl CARA_ERANGE
     else if o_strings > tsize \<or> s_strings > tsize - o_strings then Inl CARA_ERANGE
     else if o_rsvmap > tsize then Inl CARA_ERANGE
     else if o_struct AND 3 \<noteq> 0 \<or> s_struct < 4 then Inl CARA_ERANGE
     else if o_rsvmap AND 7 \<noteq> 0 \<or> o_rsvmap + 16 > tsize then Inl CARA_ERANGE
     else Inr \<lparr>blob = b, totalsize = tsize, off_struct = o_struct, size_struct = s_struct,
            off_strings = o_strings, size_strings = s_strings, off_rsvmap = o_rsvmap,
            fdt_version = ver, boot_cpuid_phys = boot_cpu\<rparr>)"

text \<open>The byte and the word at an offset of the structure block.\<close>

definition sbyte :: "Fdt \<Rightarrow> u32 \<Rightarrow> u8" where
  "sbyte fdt off = blob fdt (unat (off_struct fdt) + unat off)"

definition sword :: "Fdt \<Rightarrow> u32 \<Rightarrow> u32" where
  "sword fdt off = fdt_be32 (blob fdt) (unat (off_struct fdt) + unat off)"

text \<open>The scan over a node name, from index \<open>i\<close>.\<close>

function name_scan :: "Fdt \<Rightarrow> u32 \<Rightarrow> u32 \<Rightarrow> u32" where
  "name_scan fdt payload i =
    (if payload + i < size_struct fdt \<and> sbyte fdt (payload + i) \<noteq> 0
     then name_scan fdt payload (i + 1) else i)"
  by pat_completeness auto
termination
proof (relation "measure (\<lambda>(fdt, payload, i). unat (size_struct fdt) - unat (payload + i))")
  fix fdt :: Fdt and payload i :: u32
  assume a: "payload + i < size_struct fdt \<and> sbyte fdt (payload + i) \<noteq> 0"
  then have "unat (payload + i + 1) = Suc (unat (payload + i))"
    by (intro unat_Suc_less [of _ "size_struct fdt"]) simp
  moreover have "unat (payload + i) < unat (size_struct fdt)"
    using a by (simp add: word_less_nat_alt)
  ultimately show "((fdt, payload, i + 1), fdt, payload, i)
      \<in> measure (\<lambda>(fdt, payload, i). unat (size_struct fdt) - unat (payload + i))"
    by (simp add: add.assoc)
qed simp

declare name_scan.simps [simp del]

text \<open>The token, the offset of its payload and the offset of the next token.\<close>

definition fdt_read_token :: "Fdt \<Rightarrow> u32 \<Rightarrow> (u32 \<times> u32 \<times> u32) result" where
  "fdt_read_token fdt off =
    (if off > size_struct fdt \<or> size_struct fdt - off < 4 then Inl CARA_ERANGE
     else if off AND 3 \<noteq> 0 then Inl CARA_EINVAL
     else let token = sword fdt off; payload = off + 4 in
       if token = FDT_BEGIN_NODE then
         let i = name_scan fdt payload 0 in
         if payload + i \<ge> size_struct fdt then Inl CARA_ERANGE
         else let next = fdt_align4 (payload + i + 1) in
           if next > size_struct fdt then Inl CARA_ERANGE
           else Inr (token, payload, next)
       else if token = FDT_PROP then
         if size_struct fdt - payload < 8 then Inl CARA_ERANGE
         else let len = sword fdt payload; data_off = payload + 8; padded = fdt_align4 len in
           if padded < len then Inl CARA_EOVERFLOW
           else if data_off > size_struct fdt \<or> size_struct fdt - data_off < padded then Inl CARA_ERANGE
           else Inr (token, payload, data_off + padded)
       else if token = FDT_END_NODE \<or> token = FDT_NOP \<or> token = FDT_END then
         Inr (token, payload, payload)
       else Inl CARA_EINVAL)"

text \<open>The loop of \<^verbatim>\<open>fdt_skip_node\<close>, at nesting \<open>depth\<close>.\<close>

partial_function (option) skip_loop :: "Fdt \<Rightarrow> int \<Rightarrow> u32 \<Rightarrow> u32 result option" where
  "skip_loop fdt depth off =
    (if depth > 0 then
       (case fdt_read_token fdt off of
          Inl e \<Rightarrow> Some (Inl e)
        | Inr (token, payload, next) \<Rightarrow>
            if token = FDT_BEGIN_NODE then skip_loop fdt (depth + 1) next
            else if token = FDT_END_NODE then skip_loop fdt (depth - 1) next
            else if token = FDT_END then Some (Inl CARA_ERANGE)
            else skip_loop fdt depth next)
     else Some (Inr off))"

definition fdt_skip_node :: "Fdt \<Rightarrow> u32 \<Rightarrow> u32 result option" where
  "fdt_skip_node fdt node_off =
    (case fdt_read_token fdt node_off of
       Inl e \<Rightarrow> Some (Inl e)
     | Inr (token, _, next) \<Rightarrow>
         if token \<noteq> FDT_BEGIN_NODE then Some (Inl CARA_EINVAL) else skip_loop fdt 1 next)"

text \<open>Whether the strings block holds a terminator at index \<open>i\<close> or later.\<close>

function strings_nul :: "Fdt \<Rightarrow> u32 \<Rightarrow> bool" where
  "strings_nul fdt i =
    (if i < size_strings fdt
     then blob fdt (unat (off_strings fdt) + unat i) = 0 \<or> strings_nul fdt (i + 1) else False)"
  by pat_completeness auto
termination
proof (relation "measure (\<lambda>(fdt, i). unat (size_strings fdt) - unat i)")
  fix fdt :: Fdt and i :: u32
  assume "i < size_strings fdt"
  then show "((fdt, i + 1), fdt, i) \<in> measure (\<lambda>(fdt, i). unat (size_strings fdt) - unat i)"
    by (simp add: unat_Suc_less word_less_nat_alt)
qed simp

declare strings_nul.simps [simp del]

definition fdt_strings_get :: "Fdt \<Rightarrow> u32 \<Rightarrow> nat option" where
  "fdt_strings_get fdt nameoff =
    (if nameoff \<ge> size_strings fdt then None
     else if strings_nul fdt nameoff then Some (unat (off_strings fdt) + unat nameoff)
     else None)"

partial_function (option) root_loop :: "Fdt \<Rightarrow> u32 \<Rightarrow> u32 option" where
  "root_loop fdt off =
    (if off < size_struct fdt then
       (case fdt_read_token fdt off of
          Inl e \<Rightarrow> Some 0
        | Inr (token, payload, next) \<Rightarrow>
            if token = FDT_BEGIN_NODE then Some off
            else if token \<noteq> FDT_NOP then Some 0
            else root_loop fdt next)
     else Some 0)"

definition Fdt_Root :: "Fdt \<Rightarrow> u32 option" where
  "Fdt_Root fdt = root_loop fdt 0"

definition Fdt_NodeName :: "Fdt \<Rightarrow> u32 \<Rightarrow> nat option" where
  "Fdt_NodeName fdt node =
    (case fdt_read_token fdt node of
       Inl e \<Rightarrow> None
     | Inr (token, payload, _) \<Rightarrow>
         if token \<noteq> FDT_BEGIN_NODE then None
         else Some (unat (off_struct fdt) + unat payload))"

text \<open>The reservation at the cursor and the new cursor.\<close>

definition Fdt_RsvIter :: "Fdt \<Rightarrow> u32 \<Rightarrow> (u64 \<times> u64 \<times> u32) result" where
  "Fdt_RsvIter fdt cursor =
    (let entry_off = off_rsvmap fdt + cursor * 16 in
     if entry_off + 16 > totalsize fdt then Inl CARA_ERANGE
     else let base = fdt_be64 (blob fdt) (unat entry_off);
              size = fdt_be64 (blob fdt) (unat entry_off + 8) in
       if base = 0 \<and> size = 0 then Inl CARA_ENOTFOUND
       else Inr (base, size, cursor + 1))"

section \<open>Properties of a node\<close>

text \<open>\<^verbatim>\<open>fdt_strcmp\<close> of the string at a place of the blob with a name of the caller.\<close>

fun fdt_strcmp :: "blob \<Rightarrow> nat \<Rightarrow> u8 list \<Rightarrow> int" where
  "fdt_strcmp b p [] = uint (b p)"
| "fdt_strcmp b p (c # cs) =
    (if b p \<noteq> 0 \<and> c \<noteq> 0 \<and> b p = c then fdt_strcmp b (p + 1) cs else uint (b p) - uint c)"

text \<open>The offset of the property's data in the structure block, and its length.\<close>

partial_function (option) find_prop_loop ::
  "Fdt \<Rightarrow> u8 list \<Rightarrow> u32 \<Rightarrow> (u32 \<times> u32) result option" where
  "find_prop_loop fdt name off =
    (if off < size_struct fdt then
       (case fdt_read_token fdt off of
          Inl e \<Rightarrow> Some (Inl e)
        | Inr (token, payload, next) \<Rightarrow>
            if token = FDT_PROP then
              (let len = sword fdt payload; nameoff = sword fdt (payload + 4) in
               case fdt_strings_get fdt nameoff of
                 None \<Rightarrow> Some (Inl CARA_EINVAL)
               | Some prop_name \<Rightarrow>
                   if fdt_strcmp (blob fdt) prop_name name = 0 then Some (Inr (payload + 8, len))
                   else find_prop_loop fdt name next)
            else if token = FDT_BEGIN_NODE \<or> token = FDT_END_NODE then Some (Inl CARA_ENOTFOUND)
            else if token = FDT_END then Some (Inl CARA_ENOTFOUND)
            else find_prop_loop fdt name next)
     else Some (Inl CARA_ENOTFOUND))"

definition fdt_find_prop :: "Fdt \<Rightarrow> u32 \<Rightarrow> u8 list \<Rightarrow> (u32 \<times> u32) result option" where
  "fdt_find_prop fdt node_off name =
    (case fdt_read_token fdt node_off of
       Inl e \<Rightarrow> Some (Inl e)
     | Inr (token, _, next) \<Rightarrow>
         if token \<noteq> FDT_BEGIN_NODE then Some (Inl CARA_EINVAL) else find_prop_loop fdt name next)"

text \<open>The place of the property's bytes in the blob, and their number.\<close>

definition Fdt_PropRaw :: "Fdt \<Rightarrow> u32 \<Rightarrow> u8 list \<Rightarrow> (nat \<times> u32) result option" where
  "Fdt_PropRaw fdt node name =
    map_option (map_sum id (\<lambda>(data_off, len). (unat (off_struct fdt) + unat data_off, len)))
      (fdt_find_prop fdt node name)"

definition Fdt_PropU32 :: "Fdt \<Rightarrow> u32 \<Rightarrow> u8 list \<Rightarrow> u32 result option" where
  "Fdt_PropU32 fdt node name =
    Option.bind (Fdt_PropRaw fdt node name) (\<lambda>r. Some
      (case r of Inl e \<Rightarrow> Inl e
       | Inr (bytes, len) \<Rightarrow> if len \<noteq> 4 then Inl CARA_EINVAL else Inr (fdt_be32 (blob fdt) bytes)))"

definition Fdt_PropU64 :: "Fdt \<Rightarrow> u32 \<Rightarrow> u8 list \<Rightarrow> u64 result option" where
  "Fdt_PropU64 fdt node name =
    Option.bind (Fdt_PropRaw fdt node name) (\<lambda>r. Some
      (case r of Inl e \<Rightarrow> Inl e
       | Inr (bytes, len) \<Rightarrow> if len \<noteq> 8 then Inl CARA_EINVAL else Inr (fdt_be64 (blob fdt) bytes)))"

definition Fdt_PropStr :: "Fdt \<Rightarrow> u32 \<Rightarrow> u8 list \<Rightarrow> nat option option" where
  "Fdt_PropStr fdt node name =
    Option.bind (Fdt_PropRaw fdt node name) (\<lambda>r. Some
      (case r of Inl e \<Rightarrow> None
       | Inr (s, len) \<Rightarrow>
           if len = 0 then None else if blob fdt (s + unat (len - 1)) \<noteq> 0 then None else Some s))"

text \<open>The loop that looks for the end of a string of a list property.\<close>

function str_end :: "blob \<Rightarrow> nat \<Rightarrow> u32 \<Rightarrow> u32 \<Rightarrow> u32" where
  "str_end b base len i = (if i < len \<and> b (base + unat i) \<noteq> 0 then str_end b base len (i + 1) else i)"
  by pat_completeness auto
termination
proof (relation "measure (\<lambda>(b, base, len, i). unat len - unat i)")
  fix b :: blob and base :: nat and len i :: u32
  assume "i < len \<and> b (base + unat i) \<noteq> 0"
  then have "i < len" by simp
  then show "((b, base, len, i + 1), b, base, len, i) \<in> measure (\<lambda>(b, base, len, i). unat len - unat i)"
    by (simp add: unat_Suc_less [of i len] word_less_nat_alt)
qed simp

declare str_end.simps [simp del]

definition Fdt_PropStrIter :: "Fdt \<Rightarrow> u32 \<Rightarrow> u8 list \<Rightarrow> u32 \<Rightarrow> (nat \<times> u32) result option" where
  "Fdt_PropStrIter fdt node name cursor =
    Option.bind (Fdt_PropRaw fdt node name) (\<lambda>r. Some
      (case r of Inl e \<Rightarrow> Inl e
       | Inr (base, len) \<Rightarrow>
           if cursor \<ge> len then Inl CARA_ENOTFOUND
           else if blob fdt (base + unat (len - 1)) \<noteq> 0 then Inl CARA_EINVAL
           else let i = str_end (blob fdt) base len cursor in
             if i \<ge> len then Inl CARA_EINVAL else Inr (base + unat cursor, i + 1)))"

text \<open>\<open>''compatible''\<close> and the other names the code looks for, as bytes.\<close>

definition cstr :: "string \<Rightarrow> u8 list" where
  "cstr s = map (\<lambda>c. of_nat (of_char c)) s"

partial_function (option) compatible_loop :: "Fdt \<Rightarrow> u32 \<Rightarrow> u8 list \<Rightarrow> u32 \<Rightarrow> bool option" where
  "compatible_loop fdt node cname cursor =
    Option.bind (Fdt_PropStrIter fdt node (cstr ''compatible'') cursor) (\<lambda>r.
      case r of Inl e \<Rightarrow> Some False
      | Inr (s, cursor') \<Rightarrow>
          if fdt_strcmp (blob fdt) s cname = 0 then Some True
          else compatible_loop fdt node cname cursor')"

definition Fdt_NodeIsCompatible :: "Fdt \<Rightarrow> u32 \<Rightarrow> u8 list \<Rightarrow> bool option" where
  "Fdt_NodeIsCompatible fdt node cname = compatible_loop fdt node cname 0"

definition MAX_DEPTH :: nat where "MAX_DEPTH = 16"

text \<open>The array of ancestors up to \<open>depth\<close> is a stack, innermost first.\<close>

partial_function (option) find_parent_loop ::
  "Fdt \<Rightarrow> u32 \<Rightarrow> u32 list \<Rightarrow> u32 \<Rightarrow> u32 result option" where
  "find_parent_loop fdt child_off ancestors off =
    (if off < size_struct fdt then
       (case fdt_read_token fdt off of
          Inl e \<Rightarrow> Some (Inl e)
        | Inr (token, payload, next) \<Rightarrow>
            if token = FDT_BEGIN_NODE then
              if off = child_off then
                Some (case ancestors of [] \<Rightarrow> Inl CARA_ENOTFOUND | a # _ \<Rightarrow> Inr a)
              else if length ancestors \<ge> MAX_DEPTH then Some (Inl CARA_ERANGE)
              else find_parent_loop fdt child_off (off # ancestors) next
            else if token = FDT_END_NODE then
              (case ancestors of [] \<Rightarrow> Some (Inl CARA_EINVAL)
               | a # as \<Rightarrow> find_parent_loop fdt child_off as next)
            else if token = FDT_END then Some (Inl CARA_ENOTFOUND)
            else find_parent_loop fdt child_off ancestors next)
     else Some (Inl CARA_ENOTFOUND))"

definition fdt_find_parent :: "Fdt \<Rightarrow> u32 \<Rightarrow> u32 result option" where
  "fdt_find_parent fdt child_off = find_parent_loop fdt child_off [] 0"

definition fdt_get_parent_cells :: "Fdt \<Rightarrow> u32 \<Rightarrow> (u32 \<times> u32) option" where
  "fdt_get_parent_cells fdt node_off =
    Option.bind (fdt_find_parent fdt node_off) (\<lambda>r.
      case r of Inl e \<Rightarrow> Some (2, 1)
      | Inr parent_off \<Rightarrow>
          Option.bind (Fdt_PropU32 fdt parent_off (cstr ''#address-cells'')) (\<lambda>ra.
          Option.bind (Fdt_PropU32 fdt parent_off (cstr ''#size-cells'')) (\<lambda>rs.
            Some (case ra of Inl e \<Rightarrow> 2 | Inr v \<Rightarrow> v, case rs of Inl e \<Rightarrow> 1 | Inr v \<Rightarrow> v))))"

text \<open>The value of \<open>n\<close> consecutive cells.\<close>

fun cells_value :: "blob \<Rightarrow> nat \<Rightarrow> nat \<Rightarrow> u64 \<Rightarrow> u64" where
  "cells_value b p 0 acc = acc"
| "cells_value b p (Suc n) acc =
    cells_value b (p + 4) n (push_bit 32 acc OR ucast (fdt_be32 b p))"

definition Fdt_PropReg :: "Fdt \<Rightarrow> u32 \<Rightarrow> u32 \<Rightarrow> (u64 \<times> u64) result option" where
  "Fdt_PropReg fdt node index =
    Option.bind (fdt_get_parent_cells fdt node) (\<lambda>(addr_cells, size_cells).
      if addr_cells = 0 \<or> addr_cells > 2 \<or> size_cells > 2 then Some (Inl CARA_EINVAL)
      else Option.bind (Fdt_PropRaw fdt node (cstr ''reg'')) (\<lambda>r. Some
        (case r of Inl e \<Rightarrow> Inl e
         | Inr (bytes, len) \<Rightarrow>
             let cell_bytes = (addr_cells + size_cells) * 4 in
             if cell_bytes = 0 then Inl CARA_EINVAL
             else if len mod cell_bytes \<noteq> 0 then Inl CARA_EINVAL
             else if index \<ge> len div cell_bytes then Inl CARA_ENOTFOUND
             else let p = bytes + unat (index * cell_bytes) in
               Inr (cells_value (blob fdt) p (unat addr_cells) 0,
                    cells_value (blob fdt) (p + unat (addr_cells * 4)) (unat size_cells) 0))))"

section \<open>Navigation\<close>

text \<open>A path segment against the node name at a place of the blob; 64 is the character \<open>@\<close>.\<close>

fun fdt_segment_matches :: "blob \<Rightarrow> nat \<Rightarrow> u8 list \<Rightarrow> bool" where
  "fdt_segment_matches b p [] = (b p = 0 \<or> b p = 64)"
| "fdt_segment_matches b p (c # cs) = (b p \<noteq> 0 \<and> b p = c \<and> fdt_segment_matches b (p + 1) cs)"

definition fdt_node_body :: "Fdt \<Rightarrow> u32 \<Rightarrow> u32 result" where
  "fdt_node_body fdt node_off =
    (case fdt_read_token fdt node_off of
       Inl e \<Rightarrow> Inl e
     | Inr (token, _, next) \<Rightarrow> if token \<noteq> FDT_BEGIN_NODE then Inl CARA_EINVAL else Inr next)"

text \<open>The child found and the new cursor.\<close>

partial_function (option) child_loop :: "Fdt \<Rightarrow> u32 \<Rightarrow> (u32 \<times> u32) result option" where
  "child_loop fdt off =
    (if off < size_struct fdt then
       (case fdt_read_token fdt off of
          Inl e \<Rightarrow> Some (Inl e)
        | Inr (token, payload, next) \<Rightarrow>
            if token = FDT_PROP \<or> token = FDT_NOP then child_loop fdt next
            else if token = FDT_BEGIN_NODE then
              map_option (map_sum id (\<lambda>after. (off, after))) (fdt_skip_node fdt off)
            else if token = FDT_END_NODE \<or> token = FDT_END then Some (Inl CARA_ENOTFOUND)
            else Some (Inl CARA_EINVAL))
     else Some (Inl CARA_ENOTFOUND))"

definition Fdt_ChildIter :: "Fdt \<Rightarrow> u32 \<Rightarrow> u32 \<Rightarrow> (u32 \<times> u32) result option" where
  "Fdt_ChildIter fdt parent cursor =
    (if cursor = 0 then
       (case fdt_node_body fdt parent of Inl e \<Rightarrow> Some (Inl e) | Inr off \<Rightarrow> child_loop fdt off)
     else child_loop fdt cursor)"

partial_function (option) segment_loop ::
  "Fdt \<Rightarrow> u32 \<Rightarrow> u8 list \<Rightarrow> u32 \<Rightarrow> u32 result option" where
  "segment_loop fdt parent seg cursor =
    Option.bind (Fdt_ChildIter fdt parent cursor) (\<lambda>r.
      case r of Inl e \<Rightarrow> Some (Inl CARA_ENOTFOUND)
      | Inr (child, cursor') \<Rightarrow>
          (case Fdt_NodeName fdt child of
             Some name \<Rightarrow>
               if fdt_segment_matches (blob fdt) name seg then Some (Inr child)
               else segment_loop fdt parent seg cursor'
           | None \<Rightarrow> segment_loop fdt parent seg cursor'))"

definition fdt_resolve_segment :: "Fdt \<Rightarrow> u32 \<Rightarrow> u8 list \<Rightarrow> u32 result option" where
  "fdt_resolve_segment fdt parent seg = segment_loop fdt parent seg 0"

text \<open>The loop over the segments of the rest of a path; 47 is the character \<open>/\<close>.\<close>

partial_function (option) path_loop :: "Fdt \<Rightarrow> u8 list \<Rightarrow> u32 \<Rightarrow> u32 result option" where
  "path_loop fdt path cur =
    (if path = [] then Some (Inr cur)
     else let seg = takeWhile (\<lambda>c. c \<noteq> 47) path; rest = dropWhile (\<lambda>c. c \<noteq> 47) path in
       if seg = [] then Some (Inl CARA_EINVAL)
       else Option.bind (fdt_resolve_segment fdt cur seg) (\<lambda>r.
         case r of Inl e \<Rightarrow> Some (Inl e)
         | Inr next \<Rightarrow> path_loop fdt (drop 1 rest) next))"

definition Fdt_ResolvePath :: "Fdt \<Rightarrow> u8 list \<Rightarrow> u32 result option" where
  "Fdt_ResolvePath fdt path =
    (case path of
       [] \<Rightarrow> Some (Inl CARA_EINVAL)
     | c # rest \<Rightarrow>
         if c \<noteq> 47 then Some (Inl CARA_EINVAL)
         else Option.bind (Fdt_Root fdt) (\<lambda>cur.
           if rest = [] then Some (Inr cur) else path_loop fdt rest cur))"

partial_function (option) find_compat_loop :: "Fdt \<Rightarrow> u8 list \<Rightarrow> u32 \<Rightarrow> u32 result option" where
  "find_compat_loop fdt cname off =
    (if off < size_struct fdt then
       (case fdt_read_token fdt off of
          Inl e \<Rightarrow> Some (Inl e)
        | Inr (token, payload, next) \<Rightarrow>
            if token = FDT_BEGIN_NODE then
              Option.bind (Fdt_NodeIsCompatible fdt off cname) (\<lambda>yes.
                if yes then Some (Inr off) else find_compat_loop fdt cname next)
            else if token = FDT_END then Some (Inl CARA_ENOTFOUND)
            else find_compat_loop fdt cname next)
     else Some (Inl CARA_ENOTFOUND))"

definition Fdt_FindByCompatible :: "Fdt \<Rightarrow> u8 list \<Rightarrow> u32 \<Rightarrow> u32 result option" where
  "Fdt_FindByCompatible fdt cname start =
    (if start = 0 then find_compat_loop fdt cname 0
     else Option.bind (fdt_skip_node fdt start) (\<lambda>r.
       case r of Inl e \<Rightarrow> Some (Inl e) | Inr off \<Rightarrow> find_compat_loop fdt cname off))"

declare skip_loop.simps [code] root_loop.simps [code] find_prop_loop.simps [code]
  compatible_loop.simps [code] find_parent_loop.simps [code] child_loop.simps [code]
  segment_loop.simps [code] path_loop.simps [code] find_compat_loop.simps [code]

section \<open>Bounds of the token reader\<close>

text \<open>The structure block ends at least three bytes before the end of the 32-bit range.\<close>

definition struct_fits :: "Fdt \<Rightarrow> bool" where
  "struct_fits fdt \<longleftrightarrow> size_struct fdt \<le> 0xFFFFFFFC"

lemma unat_align4:
  assumes "unat x \<le> 0xFFFFFFFC"
  shows "unat (fdt_align4 x) = (unat x + 3) div 4 * 4"
proof -
  have "unat (x + 3) = unat x + 3" using assms by (simp add: unat_word_ariths)
  moreover have "fdt_align4 x = (x + 3) AND NOT (mask 2)" by (simp add: fdt_align4_def mask_eq_exp_minus_1)
  ultimately show ?thesis using unat_and_not_mask [of "x + 3" 2] by simp
qed

lemma unat_align4_le: "unat (fdt_align4 x) \<le> unat x + 3"
proof -
  have "fdt_align4 x = (x + 3) AND NOT (mask 2)" by (simp add: fdt_align4_def mask_eq_exp_minus_1)
  then have "unat (fdt_align4 x) \<le> unat (x + 3)"
    using unat_and_not_mask [of "x + 3" 2] by simp
  also have "\<dots> \<le> unat x + 3" by (simp add: unat_word_ariths)
  finally show ?thesis .
qed

text \<open>When the guards of the code pass, its 32-bit sums and differences are exact.\<close>

lemma guard_exact:
  fixes S off n :: u32
  assumes "\<not> off > S" "\<not> S - off < n"
  shows "unat off + unat n \<le> unat S" and "unat (off + n) = unat off + unat n"
proof -
  have "unat (S - off) = unat S - unat off"
    using assms(1) by (simp add: unat_sub word_less_nat_alt word_le_nat_alt)
  with assms show le: "unat off + unat n \<le> unat S"
    by (auto simp: word_less_nat_alt)
  with unat_lt2p [of S] show "unat (off + n) = unat off + unat n"
    by (simp add: unat_word_ariths)
qed

lemma name_scan_le:
  "payload + i \<le> size_struct fdt \<Longrightarrow> payload + i \<le> payload + name_scan fdt payload i"
proof (induction fdt payload i rule: name_scan.induct)
  case (1 fdt payload i)
  show ?case
  proof (cases "payload + i < size_struct fdt \<and> sbyte fdt (payload + i) \<noteq> 0")
    case True
    then have s: "unat (payload + i + 1) = Suc (unat (payload + i))"
      by (intro unat_Suc_less [of _ "size_struct fdt"]) simp
    with True have "payload + (i + 1) \<le> size_struct fdt"
      by (simp add: word_less_nat_alt word_le_nat_alt add.assoc)
    with "1.IH" [OF True] have "payload + (i + 1) \<le> payload + name_scan fdt payload (i + 1)" by simp
    moreover have "payload + i \<le> payload + (i + 1)" using s by (simp add: word_le_nat_alt add.assoc)
    ultimately show ?thesis using True by (simp add: name_scan.simps [of fdt payload i])
  next
    case False
    then show ?thesis by (auto simp: name_scan.simps [of fdt payload i])
  qed
qed

text \<open>The guards the token reader has passed when it returns a token, by the kind of token.\<close>

lemma read_token_guard:
  assumes "fdt_read_token fdt off = Inr t"
  shows "\<not> off > size_struct fdt" "\<not> size_struct fdt - off < 4" "off AND 3 = 0"
  using assms by (auto simp: fdt_read_token_def split: if_splits)

lemma read_token_node:
  assumes "fdt_read_token fdt off = Inr (token, payload, next)" "sword fdt off = FDT_BEGIN_NODE"
  shows "payload = off + 4" "\<not> off + 4 + name_scan fdt (off + 4) 0 \<ge> size_struct fdt"
    "next = fdt_align4 (off + 4 + name_scan fdt (off + 4) 0 + 1)" "\<not> next > size_struct fdt"
    "token = FDT_BEGIN_NODE"
  using assms read_token_guard [OF assms(1)]
  by (auto simp: fdt_read_token_def Let_def split: if_splits)

lemma read_token_prop:
  assumes "fdt_read_token fdt off = Inr (token, payload, next)" "sword fdt off = FDT_PROP"
  shows "payload = off + 4" "\<not> size_struct fdt - payload < 8"
    "\<not> fdt_align4 (sword fdt payload) < sword fdt payload" "\<not> payload + 8 > size_struct fdt"
    "\<not> size_struct fdt - (payload + 8) < fdt_align4 (sword fdt payload)"
    "next = payload + 8 + fdt_align4 (sword fdt payload)" "token = FDT_PROP"
  using assms read_token_guard [OF assms(1)]
  by (auto simp: fdt_read_token_def Let_def fdt_consts algebra_simps split: if_splits)

lemma read_token_other:
  assumes "fdt_read_token fdt off = Inr (token, payload, next)"
    "sword fdt off \<noteq> FDT_BEGIN_NODE" "sword fdt off \<noteq> FDT_PROP"
  shows "payload = off + 4" "next = off + 4" "token \<noteq> FDT_PROP" "token \<noteq> FDT_BEGIN_NODE"
  using assms read_token_guard [OF assms(1)]
  by (auto simp: fdt_read_token_def Let_def split: if_splits)

lemma read_prop_exact:
  assumes "fdt_read_token fdt off = Inr (token, payload, next)" "sword fdt off = FDT_PROP"
  shows "unat (payload + 8) = unat payload + 8"
    "unat next = unat payload + 8 + unat (fdt_align4 (sword fdt payload))"
    "unat next \<le> unat (size_struct fdt)"
    "unat payload + 8 + unat (sword fdt payload) \<le> unat (size_struct fdt)"
proof -
  note g = read_token_guard [OF assms(1)] and p = read_token_prop [OF assms]
  have "unat (off + 4) = unat off + 4" "unat off + 4 \<le> unat (size_struct fdt)"
    using guard_exact [OF g(1,2)] by simp_all
  then have "\<not> payload > size_struct fdt" using p(1) by (simp add: word_less_nat_alt)
  from guard_exact [OF this p(2)] show c: "unat (payload + 8) = unat payload + 8" by simp
  from guard_exact [OF p(4,5)] p(6) c
  show "unat next = unat payload + 8 + unat (fdt_align4 (sword fdt payload))"
    "unat next \<le> unat (size_struct fdt)" by simp_all
  with p(3) show "unat payload + 8 + unat (sword fdt payload) \<le> unat (size_struct fdt)"
    by (simp add: word_less_nat_alt)
qed

lemma read_node_exact:
  assumes "struct_fits fdt" "fdt_read_token fdt off = Inr (token, payload, next)"
    "sword fdt off = FDT_BEGIN_NODE"
  shows "unat payload \<le> unat next" "unat next \<le> unat (size_struct fdt)"
proof -
  let ?e = "off + 4 + name_scan fdt (off + 4) 0"
  note g = read_token_guard [OF assms(2)] and p = read_token_node [OF assms(2,3)]
  have "unat (off + 4) \<le> unat (size_struct fdt)" using guard_exact [OF g(1,2)] by simp
  then have "off + 4 + 0 \<le> ?e" by (intro name_scan_le) (simp add: word_le_nat_alt)
  then have le: "unat (off + 4) \<le> unat ?e" by (simp add: word_le_nat_alt)
  have e: "unat ?e < unat (size_struct fdt)" "unat (size_struct fdt) \<le> 0xFFFFFFFC"
    using p(2) assms(1) by (simp_all add: word_less_nat_alt struct_fits_def word_le_nat_alt)
  have s: "unat (?e + 1) = Suc (unat ?e)"
    using p(2) by (intro unat_Suc_less [of _ "size_struct fdt"]) simp
  have "unat next = (Suc (unat ?e) + 3) div 4 * 4"
    using unat_align4 [of "?e + 1"] s e p(3) by simp
  with le p(1) show "unat payload \<le> unat next" by simp
  show "unat next \<le> unat (size_struct fdt)" using p(4) by (simp add: word_less_nat_alt)
qed

lemma read_token_bounds:
  assumes "struct_fits fdt" "fdt_read_token fdt off = Inr (token, payload, next)"
  shows "unat payload = unat off + 4 \<and> unat payload \<le> unat next \<and> unat next \<le> unat (size_struct fdt)"
proof -
  have b: "unat (off + 4) = unat off + 4" "unat off + 4 \<le> unat (size_struct fdt)"
    using guard_exact [OF read_token_guard(1,2) [OF assms(2)]] by simp_all
  consider "sword fdt off = FDT_BEGIN_NODE" | "sword fdt off = FDT_PROP"
    | "sword fdt off \<noteq> FDT_BEGIN_NODE" "sword fdt off \<noteq> FDT_PROP" by blast
  then show ?thesis
  proof cases
    case 1
    with read_node_exact [OF assms] read_token_node(1) [OF assms(2)] b show ?thesis by simp
  next
    case 2
    with read_prop_exact [OF assms(2)] read_token_prop(1) [OF assms(2)] b show ?thesis by simp
  next
    case 3
    with read_token_other [OF assms(2)] b show ?thesis by simp
  qed
qed

lemma read_token_PROP:
  assumes "fdt_read_token fdt off = Inr (FDT_PROP, payload, nxt)"
  shows "sword fdt off = FDT_PROP"
  using read_token_node(5) [OF assms] read_token_other(3) [OF assms] by (auto simp: fdt_consts)

text \<open>Each token moves on towards the end of the block.\<close>

lemma token_advances:
  assumes "struct_fits fdt" "fdt_read_token fdt off = Inr (token, payload, next)"
  shows "unat (size_struct fdt) - unat next < unat (size_struct fdt) - unat off"
    "unat off < unat next" "unat next \<le> unat (size_struct fdt)"
  using read_token_bounds [OF assms] by auto

section \<open>The loops return\<close>

lemma skip_loop_returns:
  assumes "struct_fits fdt" "unat off \<le> unat (size_struct fdt)"
  shows "\<exists>r. skip_loop fdt depth off = Some r \<and>
    (\<forall>a. r = Inr a \<longrightarrow> unat off \<le> unat a \<and> unat a \<le> unat (size_struct fdt))"
  using assms(2)
proof (induction "unat (size_struct fdt) - unat off" arbitrary: off depth rule: less_induct)
  case less
  show ?case
  proof (cases "depth > 0")
    case True
    show ?thesis
    proof (cases "fdt_read_token fdt off")
      case (Inr t)
      obtain token payload nxt where t: "t = (token, payload, nxt)" by (cases t)
      note adv = token_advances [OF assms(1) Inr [unfolded t]]
      have IH: "\<exists>r. skip_loop fdt d nxt = Some r \<and>
        (\<forall>a. r = Inr a \<longrightarrow> unat off \<le> unat a \<and> unat a \<le> unat (size_struct fdt))" for d
        using less.hyps [OF adv(1) adv(3), of d] adv(2) by fastforce
      show ?thesis
        using IH [of "depth + 1"] IH [of "depth - 1"] IH [of depth] True Inr t
        by (subst skip_loop.simps) simp
    qed (use True in \<open>simp add: skip_loop.simps\<close>)
  next
    case False
    with less.prems show ?thesis by (simp add: skip_loop.simps)
  qed
qed

lemma skip_node_returns:
  assumes "struct_fits fdt"
  shows "\<exists>r. fdt_skip_node fdt off = Some r \<and>
    (\<forall>a. r = Inr a \<longrightarrow> unat off < unat a \<and> unat a \<le> unat (size_struct fdt))"
proof (cases "fdt_read_token fdt off")
  case (Inr t)
  obtain token payload nxt where t: "t = (token, payload, nxt)" by (cases t)
  note adv = token_advances [OF assms Inr [unfolded t]]
  with skip_loop_returns [OF assms adv(3), of 1] Inr t show ?thesis
    by (fastforce simp: fdt_skip_node_def)
qed (simp add: fdt_skip_node_def)

lemma root_loop_returns:
  assumes "struct_fits fdt"
  shows "\<exists>r. root_loop fdt off = Some r"
proof (induction "unat (size_struct fdt) - unat off" arbitrary: off rule: less_induct)
  case less
  show ?case
  proof (cases "fdt_read_token fdt off")
    case (Inr t)
    obtain token payload nxt where t: "t = (token, payload, nxt)" by (cases t)
    from less.hyps [OF token_advances(1) [OF assms Inr [unfolded t]]] Inr t show ?thesis
      by (subst root_loop.simps) simp
  qed (simp add: root_loop.simps)
qed

lemma find_prop_loop_returns:
  assumes "struct_fits fdt"
  shows "\<exists>r. find_prop_loop fdt name off = Some r \<and>
    (\<forall>d len. r = Inr (d, len) \<longrightarrow> unat d + unat len \<le> unat (size_struct fdt))"
proof (induction "unat (size_struct fdt) - unat off" arbitrary: off rule: less_induct)
  case less
  show ?case
  proof (cases "fdt_read_token fdt off")
    case (Inr t)
    obtain token payload nxt where t: "t = (token, payload, nxt)" by (cases t)
    note IH = less.hyps [OF token_advances(1) [OF assms Inr [unfolded t]]]
    have "unat (payload + 8) + unat (sword fdt payload) \<le> unat (size_struct fdt)" if "token = FDT_PROP"
      using read_prop_exact [OF Inr [unfolded t]] read_token_PROP [of fdt off payload nxt] Inr t that by simp
    with IH Inr t show ?thesis
      by (subst find_prop_loop.simps) (simp add: Let_def split: option.split)
  qed (simp add: find_prop_loop.simps)
qed

lemma find_prop_returns:
  assumes "struct_fits fdt"
  shows "\<exists>r. fdt_find_prop fdt node name = Some r \<and>
    (\<forall>d len. r = Inr (d, len) \<longrightarrow> unat d + unat len \<le> unat (size_struct fdt))"
  using find_prop_loop_returns [OF assms]
  by (auto simp: fdt_find_prop_def split: sum.split)

lemma PropRaw_returns:
  assumes "struct_fits fdt"
  shows "\<exists>r. Fdt_PropRaw fdt node name = Some r \<and>
    (\<forall>p len. r = Inr (p, len) \<longrightarrow> unat (off_struct fdt) \<le> p \<and>
       p + unat len \<le> unat (off_struct fdt) + unat (size_struct fdt))"
proof -
  obtain r where r: "fdt_find_prop fdt node name = Some r"
    and b: "\<forall>d len. r = Inr (d, len) \<longrightarrow> unat d + unat len \<le> unat (size_struct fdt)"
    using find_prop_returns [OF assms] by blast
  then show ?thesis
    by (cases r) (auto simp: Fdt_PropRaw_def)
qed

lemma PropU32_returns: "struct_fits fdt \<Longrightarrow> \<exists>r. Fdt_PropU32 fdt node name = Some r"
  using PropRaw_returns [of fdt node name] by (auto simp: Fdt_PropU32_def)

lemma find_parent_returns:
  assumes "struct_fits fdt"
  shows "\<exists>r. find_parent_loop fdt child ancestors off = Some r"
proof (induction "unat (size_struct fdt) - unat off" arbitrary: off ancestors rule: less_induct)
  case less
  show ?case
  proof (cases "fdt_read_token fdt off")
    case (Inr t)
    obtain token payload nxt where t: "t = (token, payload, nxt)" by (cases t)
    note IH = less.hyps [OF token_advances(1) [OF assms Inr [unfolded t]]]
    show ?thesis
      using IH [of "off # ancestors"] IH [of "tl ancestors"] IH [of ancestors] Inr t
      by (subst find_parent_loop.simps) (cases ancestors; simp)
  qed (simp add: find_parent_loop.simps)
qed

lemma parent_cells_returns:
  assumes "struct_fits fdt"
  shows "\<exists>r. fdt_get_parent_cells fdt node = Some r"
proof -
  obtain r where r: "fdt_find_parent fdt node = Some r"
    using find_parent_returns [OF assms, of node "[]" 0] by (auto simp: fdt_find_parent_def)
  show ?thesis
  proof (cases r)
    case (Inr p)
    obtain ra rs where "Fdt_PropU32 fdt p (cstr ''#address-cells'') = Some ra"
      "Fdt_PropU32 fdt p (cstr ''#size-cells'') = Some rs"
      using PropU32_returns [OF assms] by blast
    with r Inr show ?thesis by (simp add: fdt_get_parent_cells_def)
  qed (simp add: fdt_get_parent_cells_def r)
qed

lemma PropReg_returns: "struct_fits fdt \<Longrightarrow> \<exists>r. Fdt_PropReg fdt node index = Some r"
  using parent_cells_returns [of fdt node] PropRaw_returns [of fdt node "cstr ''reg''"]
  by (auto simp: Fdt_PropReg_def)

lemma child_loop_returns:
  assumes "struct_fits fdt"
  shows "\<exists>r. child_loop fdt off = Some r \<and>
    (\<forall>c a. r = Inr (c, a) \<longrightarrow> unat off \<le> unat c \<and> unat c < unat a \<and> unat a \<le> unat (size_struct fdt))"
proof (induction "unat (size_struct fdt) - unat off" arbitrary: off rule: less_induct)
  case less
  show ?case
  proof (cases "fdt_read_token fdt off")
    case (Inr t)
    obtain token payload nxt where t: "t = (token, payload, nxt)" by (cases t)
    note adv = token_advances [OF assms Inr [unfolded t]]
    obtain r where r: "child_loop fdt nxt = Some r"
      "\<forall>c a. r = Inr (c, a) \<longrightarrow> unat off \<le> unat c \<and> unat c < unat a \<and> unat a \<le> unat (size_struct fdt)"
      using less.hyps [OF adv(1)] adv(2) by fastforce
    obtain q where q: "fdt_skip_node fdt off = Some q"
      "\<forall>a. q = Inr a \<longrightarrow> unat off < unat a \<and> unat a \<le> unat (size_struct fdt)"
      using skip_node_returns [OF assms] by blast
    show ?thesis
      using Inr t r q by (subst child_loop.simps) (cases q; simp)
  qed (simp add: child_loop.simps)
qed

lemma ChildIter_returns:
  assumes "struct_fits fdt"
  shows "\<exists>r. Fdt_ChildIter fdt parent cursor = Some r \<and>
    (\<forall>c a. r = Inr (c, a) \<longrightarrow> unat cursor < unat a \<and> unat c < unat a \<and> unat a \<le> unat (size_struct fdt))"
proof -
  have "\<exists>r. child_loop fdt off = Some r \<and>
    (\<forall>c a. r = Inr (c, a) \<longrightarrow> unat cursor < unat a \<and> unat c < unat a \<and> unat a \<le> unat (size_struct fdt))"
    if "unat cursor \<le> unat off" for off
    using child_loop_returns [OF assms, of off] that by fastforce
  then show ?thesis
    by (auto simp: Fdt_ChildIter_def split: sum.split)
qed

lemma segment_loop_returns:
  assumes "struct_fits fdt"
  shows "\<exists>r. segment_loop fdt parent seg cursor = Some r"
proof (induction "unat (size_struct fdt) - unat cursor" arbitrary: cursor rule: less_induct)
  case less
  obtain r where r: "Fdt_ChildIter fdt parent cursor = Some r"
    and b: "\<forall>c a. r = Inr (c, a) \<longrightarrow> unat cursor < unat a \<and> unat c < unat a \<and> unat a \<le> unat (size_struct fdt)"
    using ChildIter_returns [OF assms] by blast
  show ?case
  proof (cases r)
    case (Inr t)
    obtain c a where t: "t = (c, a)" by (cases t)
    with b Inr have "unat (size_struct fdt) - unat a < unat (size_struct fdt) - unat cursor" by auto
    from less.hyps [OF this] r Inr t show ?thesis
      by (subst segment_loop.simps) (simp split: option.split)
  qed (simp add: segment_loop.simps r)
qed

lemma path_loop_returns:
  assumes "struct_fits fdt"
  shows "\<exists>r. path_loop fdt path cur = Some r"
proof (induction "length path" arbitrary: path cur rule: less_induct)
  case less
  let ?seg = "takeWhile (\<lambda>c. c \<noteq> 47) path"
  show ?case
  proof (cases "path = [] \<or> ?seg = []")
    case True
    then show ?thesis by (subst path_loop.simps) (auto simp: Let_def)
  next
    case False
    have "length (drop 1 (dropWhile (\<lambda>c. c \<noteq> 47) path)) < length path"
      using False length_dropWhile_le [of "\<lambda>c. c \<noteq> 47" path] by (cases path) auto
    note IH = less.hyps [OF this]
    obtain r where r: "fdt_resolve_segment fdt cur ?seg = Some r"
      using segment_loop_returns [OF assms, of cur ?seg 0] by (auto simp: fdt_resolve_segment_def)
    show ?thesis
    proof (cases r)
      case (Inr n)
      with IH [of n] False r show ?thesis by (subst path_loop.simps) (simp add: Let_def)
    qed (use False r in \<open>simp add: path_loop.simps Let_def\<close>)
  qed
qed

lemma ResolvePath_returns:
  assumes "struct_fits fdt"
  shows "\<exists>r. Fdt_ResolvePath fdt path = Some r"
  using root_loop_returns [OF assms, of 0] path_loop_returns [OF assms]
  by (auto simp: Fdt_ResolvePath_def Fdt_Root_def split: list.split)

lemma str_end_ge: "i \<le> str_end b base len i"
proof (induction b base len i rule: str_end.induct)
  case (1 b base len i)
  show ?case
  proof (cases "i < len \<and> b (base + unat i) \<noteq> 0")
    case True
    then have "i \<le> i + 1" using unat_Suc_less [of i len] by (simp add: word_le_nat_alt)
    with "1.IH" [OF True] True show ?thesis by (simp add: str_end.simps [of b base len i])
  next
    case False
    then show ?thesis by (auto simp: str_end.simps [of b base len i])
  qed
qed

lemma PropStrIter_advances:
  assumes "struct_fits fdt"
  shows "\<exists>r len. Fdt_PropRaw fdt node name = Some len \<and> Fdt_PropStrIter fdt node name cursor = Some r \<and>
    (\<forall>s c. r = Inr (s, c) \<longrightarrow> (\<exists>b n. len = Inr (b, n) \<and> unat cursor < unat c \<and> unat c \<le> unat n))"
proof -
  obtain q where q: "Fdt_PropRaw fdt node name = Some q" using PropRaw_returns [OF assms] by blast
  show ?thesis
  proof (cases q)
    case (Inr t)
    obtain b n where t: "t = (b, n)" by (cases t)
    let ?i = "str_end (blob fdt) b n cursor"
    have "unat cursor < unat (?i + 1) \<and> unat (?i + 1) \<le> unat n" if "\<not> ?i \<ge> n"
      using that unat_Suc_less [of ?i n] str_end_ge [of cursor "blob fdt" b n]
      by (simp add: word_le_nat_alt word_less_nat_alt)
    with q Inr t show ?thesis by (simp add: Fdt_PropStrIter_def Let_def)
  qed (simp add: q Fdt_PropStrIter_def)
qed

lemma compatible_loop_returns:
  assumes "struct_fits fdt"
  shows "\<exists>r. compatible_loop fdt node cname cursor = Some r"
proof -
  obtain q where q: "Fdt_PropRaw fdt node (cstr ''compatible'') = Some q"
    using PropRaw_returns [OF assms] by blast
  define n where "n = (case q of Inr (b, n) \<Rightarrow> unat n | Inl e \<Rightarrow> 0)"
  show ?thesis
  proof (induction "n - unat cursor" arbitrary: cursor rule: less_induct)
    case less
    obtain r where r: "Fdt_PropStrIter fdt node (cstr ''compatible'') cursor = Some r"
      and b: "\<forall>s c. r = Inr (s, c) \<longrightarrow> unat cursor < unat c \<and> unat c \<le> n"
      using PropStrIter_advances [OF assms, of node "cstr ''compatible''" cursor] q by (fastforce simp: n_def)
    show ?case
    proof (cases r)
      case (Inr t)
      obtain s c where t: "t = (s, c)" by (cases t)
      with b Inr have "n - unat c < n - unat cursor" by auto
      from less.hyps [OF this] r Inr t show ?thesis by (subst compatible_loop.simps) auto
    qed (auto simp: compatible_loop.simps r)
  qed
qed

lemma find_compat_loop_returns:
  assumes "struct_fits fdt"
  shows "\<exists>r. find_compat_loop fdt cname off = Some r"
proof (induction "unat (size_struct fdt) - unat off" arbitrary: off rule: less_induct)
  case less
  show ?case
  proof (cases "fdt_read_token fdt off")
    case (Inr t)
    obtain token payload nxt where t: "t = (token, payload, nxt)" by (cases t)
    obtain y where "Fdt_NodeIsCompatible fdt off cname = Some y"
      using compatible_loop_returns [OF assms, of off cname 0] by (auto simp: Fdt_NodeIsCompatible_def)
    with less.hyps [OF token_advances(1) [OF assms Inr [unfolded t]]] Inr t show ?thesis
      by (subst find_compat_loop.simps) simp
  qed (simp add: find_compat_loop.simps)
qed

lemma FindByCompatible_returns:
  assumes "struct_fits fdt"
  shows "\<exists>r. Fdt_FindByCompatible fdt cname start = Some r"
proof -
  obtain q where "fdt_skip_node fdt start = Some q" using skip_node_returns [OF assms] by blast
  then show ?thesis
    using find_compat_loop_returns [OF assms] by (cases q) (auto simp: Fdt_FindByCompatible_def)
qed

section \<open>No result depends on bytes outside of the blob\<close>

text \<open>The blocks lie inside of the blob, as \<open>Fdt_Open\<close> checks.\<close>

definition fdt_wf :: "Fdt \<Rightarrow> bool" where
  "fdt_wf fdt \<longleftrightarrow> unat (off_struct fdt) + unat (size_struct fdt) \<le> unat (totalsize fdt) \<and>
     unat (off_strings fdt) + unat (size_strings fdt) \<le> unat (totalsize fdt)"

lemma Fdt_Open_wf:
  assumes "Fdt_Open addr b = Inr fdt"
  shows "fdt_wf fdt" and "blob fdt = b" and "off_struct fdt \<noteq> 0 \<Longrightarrow> struct_fits fdt"
proof -
  have f: "\<not> off_struct fdt > totalsize fdt" "\<not> size_struct fdt > totalsize fdt - off_struct fdt"
    "\<not> off_strings fdt > totalsize fdt" "\<not> size_strings fdt > totalsize fdt - off_strings fdt"
    "off_struct fdt AND 3 = 0" "blob fdt = b"
    using assms by (auto simp: Fdt_Open_def Let_def split: if_splits)
  have s: "unat (off_struct fdt) + unat (size_struct fdt) \<le> unat (totalsize fdt)"
    using f(1,2) by (simp add: word_less_nat_alt unat_sub word_le_nat_alt)
  moreover have "unat (off_strings fdt) + unat (size_strings fdt) \<le> unat (totalsize fdt)"
    using f(3,4) by (simp add: word_less_nat_alt unat_sub word_le_nat_alt)
  ultimately show "fdt_wf fdt" by (simp add: fdt_wf_def)
  show "blob fdt = b" by (fact f(6))
  assume nz: "off_struct fdt \<noteq> 0"
  have "off_struct fdt = (off_struct fdt AND mask 2) OR (off_struct fdt AND NOT (mask 2))"
    by (rule bit_word_eqI) (auto simp: bit_simps)
  then have "off_struct fdt = off_struct fdt AND NOT (mask 2)"
    using f(5) by (simp add: mask_eq_exp_minus_1)
  then have "unat (off_struct fdt) = unat (off_struct fdt) div 4 * 4"
    using unat_and_not_mask [of "off_struct fdt" 2] by simp
  with nz have "4 \<le> unat (off_struct fdt)"
    by (metis div_mult_self_is_m dvd_imp_le dvd_triv_right gr0I unat_eq_zero)
  with s unat_lt2p [of "totalsize fdt"] show "struct_fits fdt"
    by (simp add: struct_fits_def word_le_nat_alt)
qed

definition agree :: "Fdt \<Rightarrow> blob \<Rightarrow> bool" where
  "agree fdt b \<longleftrightarrow> (\<forall>i < unat (totalsize fdt). b i = blob fdt i)"

lemma sword_agree:
  assumes "fdt_wf fdt" "agree fdt b" "unat off + 4 \<le> unat (size_struct fdt)"
  shows "sword (fdt\<lparr>blob := b\<rparr>) off = sword fdt off"
  using assms by (simp add: sword_def fdt_be32_def fdt_wf_def agree_def)

lemma name_scan_agree:
  assumes "fdt_wf fdt" "agree fdt b"
  shows "name_scan (fdt\<lparr>blob := b\<rparr>) payload i = name_scan fdt payload i"
  using assms
proof (induction fdt payload i rule: name_scan.induct)
  case (1 fdt p i)
  have "sbyte (fdt\<lparr>blob := b\<rparr>) (p + i) = sbyte fdt (p + i)" if "p + i < size_struct fdt"
    using that 1 by (simp add: sbyte_def fdt_wf_def agree_def word_less_nat_alt)
  with 1 show ?case
    by (subst (1 2) name_scan.simps) auto
qed

lemma read_token_agree:
  assumes "fdt_wf fdt" "agree fdt b"
  shows "fdt_read_token (fdt\<lparr>blob := b\<rparr>) off = fdt_read_token fdt off"
proof (cases "off > size_struct fdt \<or> size_struct fdt - off < 4")
  case False
  then have o: "unat off + 4 \<le> unat (size_struct fdt)" "unat (off + 4) = unat off + 4"
    using guard_exact [of "size_struct fdt" off 4] by auto
  have "sword (fdt\<lparr>blob := b\<rparr>) (off + 4) = sword fdt (off + 4)" if "\<not> size_struct fdt - (off + 4) < 8"
  proof (rule sword_agree [OF assms])
    have "\<not> off + 4 > size_struct fdt" using o by (simp add: word_less_nat_alt)
    from guard_exact [OF this that] show "unat (off + 4) + 4 \<le> unat (size_struct fdt)" by simp
  qed
  with sword_agree [OF assms o(1)] name_scan_agree [OF assms, of "off + 4" 0] show ?thesis
    by (simp add: fdt_read_token_def Let_def)
qed (simp add: fdt_read_token_def)

lemma strings_agree:
  assumes "fdt_wf fdt" "agree fdt b"
  shows "strings_nul (fdt\<lparr>blob := b\<rparr>) i = strings_nul fdt i"
  using assms
proof (induction fdt i rule: strings_nul.induct)
  case (1 fdt i)
  have "b (unat (off_strings fdt) + unat i) = blob fdt (unat (off_strings fdt) + unat i)" if "i < size_strings fdt"
    using that 1 by (simp add: fdt_wf_def agree_def word_less_nat_alt)
  with 1 show ?case
    by (subst (1 2) strings_nul.simps) auto
qed

lemma strings_nul_D:
  "strings_nul fdt i \<Longrightarrow> \<exists>k. unat i + k < unat (size_strings fdt) \<and>
     blob fdt (unat (off_strings fdt) + unat i + k) = 0"
proof (induction fdt i rule: strings_nul.induct)
  case (1 fdt i)
  then have lt: "i < size_strings fdt" by (auto simp: strings_nul.simps [of fdt i] split: if_splits)
  show ?case
  proof (cases "blob fdt (unat (off_strings fdt) + unat i) = 0")
    case True
    with lt show ?thesis by (intro exI [of _ 0]) (simp add: word_less_nat_alt)
  next
    case False
    with "1.prems" lt have "strings_nul fdt (i + 1)" by (simp add: strings_nul.simps [of fdt i])
    from "1.IH" [OF lt this] unat_Suc_less [OF lt] obtain k
      where "unat i + Suc k < unat (size_strings fdt)" "blob fdt (unat (off_strings fdt) + unat i + Suc k) = 0"
      by auto
    then show ?thesis by blast
  qed
qed

lemma strcmp_agree:
  assumes "blob fdt (p + k) = 0" "p + k < n" "\<forall>i < n. b i = blob fdt i"
  shows "fdt_strcmp b p name = fdt_strcmp (blob fdt) p name"
  using assms
proof (induction name arbitrary: p k)
  case (Cons c cs)
  then have "b p = blob fdt p" by simp
  moreover have "fdt_strcmp b (p + 1) cs = fdt_strcmp (blob fdt) (p + 1) cs" if nz: "blob fdt p \<noteq> 0"
  proof -
    obtain k' where "k = Suc k'" using nz Cons.prems(1) by (cases k) auto
    with Cons.prems show ?thesis by (intro Cons.IH [of "p + 1" k']) auto
  qed
  ultimately show ?case by simp
qed simp

lemma find_prop_loop_agree:
  assumes "struct_fits fdt" "fdt_wf fdt" "agree fdt b"
  shows "find_prop_loop (fdt\<lparr>blob := b\<rparr>) name off = find_prop_loop fdt name off"
proof (induction "unat (size_struct fdt) - unat off" arbitrary: off rule: less_induct)
  case less
  note rt = read_token_agree [OF assms(2,3)]
  show ?case
  proof (cases "fdt_read_token fdt off")
    case (Inr t)
    obtain token payload nxt where t: "t = (token, payload, nxt)" by (cases t)
    note IH = less.hyps [OF token_advances(1) [OF assms(1) Inr [unfolded t]]]
    have sw: "sword (fdt\<lparr>blob := b\<rparr>) payload = sword fdt payload"
      "sword (fdt\<lparr>blob := b\<rparr>) (payload + 4) = sword fdt (payload + 4)" if "token = FDT_PROP"
    proof -
      have e: "unat payload + 8 \<le> unat (size_struct fdt)"
        using read_prop_exact(4) [OF Inr [unfolded t]] read_token_PROP [of fdt off payload nxt] Inr t that by simp
      moreover have "unat (payload + 4) = unat payload + 4"
        using e unat_lt2p [of "size_struct fdt"] by (simp add: unat_word_ariths)
      ultimately show "sword (fdt\<lparr>blob := b\<rparr>) payload = sword fdt payload"
        "sword (fdt\<lparr>blob := b\<rparr>) (payload + 4) = sword fdt (payload + 4)"
        by (auto intro!: sword_agree [OF assms(2,3)])
    qed
    have cmp: "fdt_strcmp b q name = fdt_strcmp (blob fdt) q name" if "fdt_strings_get fdt n = Some q" for n q
    proof -
      from that have q: "q = unat (off_strings fdt) + unat n" "strings_nul fdt n"
        by (auto simp: fdt_strings_get_def split: if_splits)
      from strings_nul_D [OF q(2)] obtain k where "unat n + k < unat (size_strings fdt)"
        "blob fdt (q + k) = 0" by (auto simp: q(1))
      with assms(2,3) q(1) show ?thesis
        by (intro strcmp_agree [of fdt q k "unat (totalsize fdt)"]) (auto simp: fdt_wf_def agree_def)
    qed
    have get: "fdt_strings_get (fdt\<lparr>blob := b\<rparr>) n = fdt_strings_get fdt n" for n
      using strings_agree [OF assms(2,3)] by (simp add: fdt_strings_get_def)
    show ?thesis
      using Inr t rt IH sw cmp get
      by (subst (1 2) find_prop_loop.simps) (simp add: Let_def split: option.split)
  qed (simp add: find_prop_loop.simps rt)
qed

lemma PropRaw_agree:
  assumes "struct_fits fdt" "fdt_wf fdt" "agree fdt b"
  shows "Fdt_PropRaw (fdt\<lparr>blob := b\<rparr>) node name = Fdt_PropRaw fdt node name"
  using find_prop_loop_agree [OF assms] read_token_agree [OF assms(2,3)]
  by (auto simp: Fdt_PropRaw_def fdt_find_prop_def split: sum.split)

section \<open>An example blob\<close>

text \<open>
  A root node with one-cell addresses and sizes and a child \<^verbatim>\<open>memory@0\<close> with a
  \<^verbatim>\<open>device_type\<close> and a \<^verbatim>\<open>reg\<close> property.
\<close>

definition dtb_bytes :: "u8 list" where
  "dtb_bytes = [
    208, 13, 254, 237, 0, 0, 0, 207, 0, 0, 0, 56, 0, 0, 0, 164, 0, 0, 0, 40, 0, 0, 0, 17, 0,
    0, 0, 16, 0, 0, 0, 0, 0, 0, 0, 43, 0, 0, 0, 108, 0, 0, 0, 0, 0, 0, 0, 0, 0, 0, 0, 0, 0,
    0, 0, 0, 0, 0, 0, 1, 0, 0, 0, 0, 0, 0, 0, 3, 0, 0, 0, 4, 0, 0, 0, 16, 0, 0, 0, 1, 0, 0,
    0, 3, 0, 0, 0, 4, 0, 0, 0, 31, 0, 0, 0, 1, 0, 0, 0, 1, 109, 101, 109, 111, 114, 121, 64,
    48, 0, 0, 0, 0, 0, 0, 0, 3, 0, 0, 0, 7, 0, 0, 0, 0, 109, 101, 109, 111, 114, 121, 0, 0,
    0, 0, 0, 3, 0, 0, 0, 8, 0, 0, 0, 12, 128, 0, 0, 0, 8, 0, 0, 0, 0, 0, 0, 2, 0, 0, 0, 2,
    0, 0, 0, 9, 100, 101, 118, 105, 99, 101, 95, 116, 121, 112, 101, 0, 114, 101, 103, 0,
    35, 97, 100, 100, 114, 101, 115, 115, 45, 99, 101, 108, 108, 115, 0, 35, 115, 105, 122,
    101, 45, 99, 101, 108, 108, 115, 0]"

definition dtb_ex :: blob where
  "dtb_ex i = (if i < 207 then dtb_bytes ! i else 0)"

definition fdt_ex :: Fdt where
  "fdt_ex = \<lparr>blob = dtb_ex, totalsize = 207, off_struct = 56, size_struct = 108, off_strings = 164,
     size_strings = 43, off_rsvmap = 40, fdt_version = 17, boot_cpuid_phys = 0\<rparr>"

lemma fdt_ex_open: "Fdt_Open 0x80000000 dtb_ex = Inr fdt_ex"
  by (simp add: Fdt_Open_def fdt_be32_def dtb_ex_def dtb_bytes_def fdt_ex_def FDT_MAGIC_def
      FDT_REQUIRED_VERSION_def FDT_MAX_LAST_COMP_def sizeof_FdtRawHeader_def Let_def)

lemma fdt_ex_reg: "Fdt_PropRaw fdt_ex 40 (cstr ''reg'') = Some (Inr (144, 8))"
  by code_simp

section \<open>Properties of the parser\<close>

text \<open>
  C36. On every blob the header check accepts, and whose structure block does not start at the
  header, every navigation and lookup call returns, with a result or an error: resolving a
  path, searching by compatible string, iterating over children and reading a register
  property never loop, whatever the structure block contains.
\<close>

theorem fdt_calls_return:
  assumes "Fdt_Open addr b = Inr fdt" "off_struct fdt \<noteq> 0"
  shows "(\<exists>r. Fdt_ResolvePath fdt path = Some r) \<and> (\<exists>r. Fdt_FindByCompatible fdt name off = Some r) \<and>
    (\<exists>r. Fdt_ChildIter fdt node cursor = Some r) \<and> (\<exists>r. Fdt_PropReg fdt node index = Some r) \<and>
    (\<exists>r. fdt_skip_node fdt node = Some r)"
proof -
  have f: "struct_fits fdt" using Fdt_Open_wf(3) [OF assms] .
  show ?thesis
    using ResolvePath_returns [OF f] FindByCompatible_returns [OF f] ChildIter_returns [OF f]
      PropReg_returns [OF f] skip_node_returns [OF f] by blast
qed

theorem fdt_calls_return_witness:
  "(\<exists>r. Fdt_ResolvePath fdt_ex (cstr ''/memory'') = Some r) \<and>
   Fdt_ResolvePath fdt_ex (cstr ''/memory'') = Some (Inr 40)"
proof -
  have "off_struct fdt_ex \<noteq> 0" by (simp add: fdt_ex_def)
  from fdt_calls_return [OF fdt_ex_open this] have "\<exists>r. Fdt_ResolvePath fdt_ex (cstr ''/memory'') = Some r"
    by blast
  moreover have "Fdt_ResolvePath fdt_ex (cstr ''/memory'') = Some (Inr 40)" by code_simp
  ultimately show ?thesis by blast
qed

text \<open>
  C37. Property lookup stays inside of the blob: the bytes it returns lie within the structure
  block and so within the first totalsize bytes, and the lookup reads nothing outside of
  these, since it has the same result on every memory that agrees with the blob there.
\<close>

theorem Fdt_PropRaw_in_bounds:
  assumes "Fdt_Open addr b = Inr fdt" "off_struct fdt \<noteq> 0"
    and "\<forall>i < unat (totalsize fdt). b' i = b i"
  shows "Fdt_PropRaw (fdt\<lparr>blob := b'\<rparr>) node name = Fdt_PropRaw fdt node name \<and>
    (\<forall>p len. Fdt_PropRaw fdt node name = Some (Inr (p, len)) \<longrightarrow>
      unat (off_struct fdt) \<le> p \<and> p + unat len \<le> unat (totalsize fdt))"
proof -
  note wf = Fdt_Open_wf [OF assms(1)]
  have f: "struct_fits fdt" using wf(3) assms(2) by simp
  have "agree fdt b'" using assms(3) wf(2) by (simp add: agree_def)
  with PropRaw_agree [OF f wf(1)] PropRaw_returns [OF f, of node name] wf(1) show ?thesis
    by (fastforce simp: fdt_wf_def)
qed

theorem Fdt_PropRaw_in_bounds_witness:
  "Fdt_PropRaw (fdt_ex\<lparr>blob := \<lambda>i. if i < 207 then dtb_ex i else 255\<rparr>) 40 (cstr ''reg'') = Some (Inr (144, 8))"
proof -
  have "off_struct fdt_ex \<noteq> 0" "\<forall>i < unat (totalsize fdt_ex). (if i < 207 then dtb_ex i else 255) = dtb_ex i"
    by (simp_all add: fdt_ex_def)
  from Fdt_PropRaw_in_bounds [OF fdt_ex_open this, of 40 "cstr ''reg''"] fdt_ex_reg show ?thesis by simp
qed

end
