(* ===== verification/Phys_Map.thy ===== *)
theory Phys_Map
  imports Phys_Pages Device_Tree
begin

text \<open>
  The physical memory map built from the device tree at boot (src/src/croi/mm/physmap.c): the
  memory banks less the reserved regions, cut to whole pages.  The fixed arrays are lists
  with the code's capacity checks.  The loops over the device tree are partial functions, as
  the parser's; the lemmas describe the map whenever one is returned.
\<close>

unbundle bit_operations_syntax

section \<open>Intervals\<close>

definition CARA_MAX_PHYS_BANKS :: nat where "CARA_MAX_PHYS_BANKS = 8"
definition MAX_RESERVED :: nat where "MAX_RESERVED = 32"

record PhysMap =
  pm_bank :: "PhysRun list"
  pm_usable :: "PhysRun list"
  pm_total_bytes :: u64
  pm_usable_bytes :: u64

definition reserved_add :: "PhysRun list \<Rightarrow> u64 \<Rightarrow> u64 \<Rightarrow> PhysRun list result" where
  "reserved_add rl base sz =
    (if sz = 0 then Inr rl
     else if length rl \<ge> MAX_RESERVED then Inl CARA_ERANGE
     else Inr (rl @ [\<lparr>pr_base = base, pr_size = sz\<rparr>]))"

definition subtract_one :: "PhysRun \<Rightarrow> PhysRun \<Rightarrow> PhysRun list" where
  "subtract_one bank rsv =
    (let b_lo = pr_base bank; b_hi = pr_base bank + pr_size bank;
         r_lo = pr_base rsv; r_hi = pr_base rsv + pr_size rsv in
     if r_hi \<le> b_lo \<or> r_lo \<ge> b_hi then [bank]
     else (if r_lo > b_lo then [\<lparr>pr_base = b_lo, pr_size = r_lo - b_lo\<rparr>] else []) @
          (if r_hi < b_hi then [\<lparr>pr_base = r_hi, pr_size = b_hi - r_hi\<rparr>] else []))"

definition align_up :: "u64 \<Rightarrow> u64 \<Rightarrow> u64" where
  "align_up v a = (v + a - 1) AND NOT (a - 1)"

definition align_down :: "u64 \<Rightarrow> u64 \<Rightarrow> u64" where
  "align_down v a = v AND NOT (a - 1)"

text \<open>\<^verbatim>\<open>str_eq\<close> of a string of the blob and a literal.\<close>

fun str_eq :: "blob \<Rightarrow> nat \<Rightarrow> u8 list \<Rightarrow> bool" where
  "str_eq b p [] = (b p = 0)"
| "str_eq b p (c # cs) = (if b p \<noteq> 0 \<and> b p = c then str_eq b (p + 1) cs else b p = 0 \<and> c = 0)"

section \<open>The phases of Mm_PhysMapFromFdt\<close>

text \<open>A call that may fail or not return, followed by the rest of the function.\<close>

definition or_fail :: "'a result option \<Rightarrow> ('a \<Rightarrow> 'b result option) \<Rightarrow> 'b result option" where
  "or_fail x f = Option.bind x (\<lambda>r. case r of Inl e \<Rightarrow> Some (Inl e) | Inr v \<Rightarrow> f v)"

text \<open>The entries of one memory node, from index \<open>idx\<close>.\<close>

partial_function (option) bank_reg_loop :: "Fdt \<Rightarrow> u32 \<Rightarrow> u32 \<Rightarrow> PhysMap \<Rightarrow> PhysMap result option" where
  "bank_reg_loop fdt child idx pm =
    Option.bind (Fdt_PropReg fdt child idx) (\<lambda>r.
      case r of Inl e \<Rightarrow> Some (Inr pm)
      | Inr (base, sz) \<Rightarrow>
          if length (pm_bank pm) \<ge> CARA_MAX_PHYS_BANKS then Some (Inl CARA_ERANGE)
          else bank_reg_loop fdt child (idx + 1)
            (pm\<lparr>pm_bank := pm_bank pm @ [\<lparr>pr_base = base, pr_size = sz\<rparr>],
                pm_total_bytes := pm_total_bytes pm + sz\<rparr>))"

partial_function (option) bank_loop :: "Fdt \<Rightarrow> u32 \<Rightarrow> u32 \<Rightarrow> PhysMap \<Rightarrow> PhysMap result option" where
  "bank_loop fdt root cur pm =
    Option.bind (Fdt_ChildIter fdt root cur) (\<lambda>r.
      case r of Inl e \<Rightarrow> Some (Inr pm)
      | Inr (child, cur') \<Rightarrow>
          Option.bind (Fdt_PropStr fdt child (cstr ''device_type'')) (\<lambda>dtype.
            if (case dtype of None \<Rightarrow> True | Some s \<Rightarrow> \<not> str_eq (blob fdt) s (cstr ''memory'')) then
              bank_loop fdt root cur' pm
            else Option.bind (bank_reg_loop fdt child 0 pm) (\<lambda>q.
              case q of Inl e \<Rightarrow> Some (Inl e) | Inr pm' \<Rightarrow> bank_loop fdt root cur' pm')))"

partial_function (option) rsv_loop :: "Fdt \<Rightarrow> u32 \<Rightarrow> PhysRun list \<Rightarrow> PhysRun list result option" where
  "rsv_loop fdt rcur rl =
    (case Fdt_RsvIter fdt rcur of
       Inl e \<Rightarrow> Some (Inr rl)
     | Inr (rb, rs, rcur') \<Rightarrow>
         (case reserved_add rl rb rs of Inl e \<Rightarrow> Some (Inl e) | Inr rl' \<Rightarrow> rsv_loop fdt rcur' rl'))"

partial_function (option) rsv_reg_loop ::
  "Fdt \<Rightarrow> u32 \<Rightarrow> u32 \<Rightarrow> PhysRun list \<Rightarrow> PhysRun list result option" where
  "rsv_reg_loop fdt child ridx rl =
    Option.bind (Fdt_PropReg fdt child ridx) (\<lambda>r.
      case r of Inl e \<Rightarrow> Some (Inr rl)
      | Inr (rb, rs) \<Rightarrow>
          (case reserved_add rl rb rs of
             Inl e \<Rightarrow> Some (Inl e) | Inr rl' \<Rightarrow> rsv_reg_loop fdt child (ridx + 1) rl'))"

partial_function (option) rsv_child_loop ::
  "Fdt \<Rightarrow> u32 \<Rightarrow> u32 \<Rightarrow> PhysRun list \<Rightarrow> PhysRun list result option" where
  "rsv_child_loop fdt node cur rl =
    Option.bind (Fdt_ChildIter fdt node cur) (\<lambda>r.
      case r of Inl e \<Rightarrow> Some (Inr rl)
      | Inr (child, cur') \<Rightarrow>
          Option.bind (rsv_reg_loop fdt child 0 rl) (\<lambda>q.
            case q of Inl e \<Rightarrow> Some (Inl e) | Inr rl' \<Rightarrow> rsv_child_loop fdt node cur' rl'))"

text \<open>All regions to keep: the reservation block, /reserved-memory, the kernel image and the blob.\<close>

definition collect_reserved :: "Fdt \<Rightarrow> u64 \<Rightarrow> u64 \<Rightarrow> u64 \<Rightarrow> u64 \<Rightarrow> PhysRun list result option" where
  "collect_reserved fdt kernel_start kernel_end dtb_start dtb_end =
    or_fail (rsv_loop fdt 0 []) (\<lambda>rl0.
    or_fail (Option.bind (Fdt_ResolvePath fdt (cstr ''/reserved-memory'')) (\<lambda>q.
               case q of Inl e \<Rightarrow> Some (Inr rl0) | Inr node \<Rightarrow> rsv_child_loop fdt node 0 rl0)) (\<lambda>rl1.
    or_fail (Some (if kernel_end > kernel_start
                   then reserved_add rl1 kernel_start (kernel_end - kernel_start) else Inr rl1)) (\<lambda>rl2.
    Some (if dtb_end > dtb_start then reserved_add rl2 dtb_start (dtb_end - dtb_start) else Inr rl2))))"

fun subtract_all :: "PhysRun list \<Rightarrow> PhysRun list \<Rightarrow> PhysRun list result" where
  "subtract_all work [] = Inr work"
| "subtract_all work (r # rl) =
    (let nxt = concat (map (\<lambda>w. subtract_one w r) work) in
     if length nxt > CARA_MAX_PHYS_RUNS * 2 then Inl CARA_ERANGE else subtract_all nxt rl)"

fun align_runs :: "PhysRun list \<Rightarrow> PhysMap \<Rightarrow> PhysMap result" where
  "align_runs [] pm = Inr pm"
| "align_runs (w # ws) pm =
    (let lo = align_up (pr_base w) 4096; hi = align_down (pr_base w + pr_size w) 4096 in
     if hi \<le> lo then align_runs ws pm
     else if length (pm_usable pm) \<ge> CARA_MAX_PHYS_RUNS then Inl CARA_ERANGE
     else align_runs ws (pm\<lparr>pm_usable := pm_usable pm @ [\<lparr>pr_base = lo, pr_size = hi - lo\<rparr>],
                            pm_usable_bytes := pm_usable_bytes pm + (hi - lo)\<rparr>))"

definition Mm_PhysMapFromFdt :: "Fdt \<Rightarrow> u64 \<Rightarrow> u64 \<Rightarrow> u64 \<Rightarrow> u64 \<Rightarrow> PhysMap result option" where
  "Mm_PhysMapFromFdt fdt kernel_start kernel_end dtb_start dtb_end =
    Option.bind (Fdt_Root fdt) (\<lambda>root.
    or_fail (bank_loop fdt root 0 \<lparr>pm_bank = [], pm_usable = [], pm_total_bytes = 0, pm_usable_bytes = 0\<rparr>) (\<lambda>pm.
    if pm_bank pm = [] then Some (Inl CARA_ENOTFOUND)
    else or_fail (collect_reserved fdt kernel_start kernel_end dtb_start dtb_end) (\<lambda>rl.
    if length (pm_bank pm) > CARA_MAX_PHYS_RUNS * 2 then Some (Inl CARA_ERANGE)
    else or_fail (Some (subtract_all (pm_bank pm) rl)) (\<lambda>work. Some (align_runs work pm)))))"

declare bank_reg_loop.simps [code] bank_loop.simps [code] rsv_loop.simps [code]
  rsv_reg_loop.simps [code] rsv_child_loop.simps [code]

section \<open>Subtraction and alignment as sets of addresses\<close>

definition run_end :: "PhysRun \<Rightarrow> nat" where
  "run_end r = unat (pr_base r) + unat (pr_size r)"

definition addrs :: "PhysRun \<Rightarrow> nat set" where
  "addrs r = {unat (pr_base r) ..< run_end r}"

text \<open>The last page of the address space is not used, so that the code's sums do not wrap.\<close>

definition run_ok :: "PhysRun \<Rightarrow> bool" where
  "run_ok r \<longleftrightarrow> run_end r + 4096 \<le> 2 ^ 64"

lemma run_ok_end: "run_ok r \<Longrightarrow> unat (pr_base r + pr_size r) = run_end r"
  by (simp add: run_ok_def run_end_def unat_word_ariths)

lemma subtract_one_addrs:
  assumes "run_ok w" "run_ok r"
  shows "(\<Union>x \<in> set (subtract_one w r). addrs x) = addrs w - addrs r"
    and "\<forall>x \<in> set (subtract_one w r). run_ok x"
proof -
  note e = run_ok_end [OF assms(1)] run_ok_end [OF assms(2)]
  have d: "unat (pr_base r - pr_base w) = unat (pr_base r) - unat (pr_base w)" if "pr_base w < pr_base r"
    using that by (simp add: unat_sub word_less_nat_alt word_le_nat_alt)
  have t: "unat (pr_base w + pr_size w - (pr_base r + pr_size r)) = run_end w - run_end r"
    if "pr_base r + pr_size r < pr_base w + pr_size w"
    using that e by (simp add: unat_sub word_less_nat_alt word_le_nat_alt)
  show "(\<Union>x \<in> set (subtract_one w r). addrs x) = addrs w - addrs r"
    using d t e
    by (auto simp: subtract_one_def Let_def addrs_def run_end_def word_less_nat_alt word_le_nat_alt)
  show "\<forall>x \<in> set (subtract_one w r). run_ok x"
    using d t e assms
    by (auto simp: subtract_one_def Let_def run_ok_def run_end_def word_less_nat_alt word_le_nat_alt)
qed

abbreviation all_addrs :: "PhysRun list \<Rightarrow> nat set" where
  "all_addrs rs \<equiv> (\<Union>r \<in> set rs. addrs r)"

lemma subtract_concat_ok:
  assumes "\<forall>w \<in> set work. run_ok w" "run_ok r"
  shows "\<forall>x \<in> set (concat (map (\<lambda>w. subtract_one w r) work)). run_ok x"
proof
  fix x
  assume "x \<in> set (concat (map (\<lambda>w. subtract_one w r) work))"
  then obtain w where "w \<in> set work" "x \<in> set (subtract_one w r)" by auto
  with assms subtract_one_addrs(2) [of w r] show "run_ok x" by simp
qed

lemma subtract_concat_addrs:
  assumes "\<forall>w \<in> set work. run_ok w" "run_ok r"
  shows "all_addrs (concat (map (\<lambda>w. subtract_one w r) work)) = all_addrs work - addrs r"
proof -
  have "all_addrs (concat (map (\<lambda>w. subtract_one w r) work))
      = (\<Union>w \<in> set work. \<Union>x \<in> set (subtract_one w r). addrs x)" by simp
  also have "\<dots> = (\<Union>w \<in> set work. addrs w - addrs r)"
    using assms subtract_one_addrs(1) by (intro SUP_cong) simp_all
  finally show ?thesis by simp
qed

lemma subtract_all_addrs:
  assumes "\<forall>w \<in> set work. run_ok w" "\<forall>r \<in> set rl. run_ok r" "subtract_all work rl = Inr out"
  shows "all_addrs out = all_addrs work - all_addrs rl \<and> (\<forall>x \<in> set out. run_ok x)"
  using assms
proof (induction rl arbitrary: work)
  case (Cons r rl)
  let ?n = "concat (map (\<lambda>w. subtract_one w r) work)"
  have r: "run_ok r" "\<forall>r \<in> set rl. run_ok r" using Cons.prems(2) by simp_all
  have "subtract_all ?n rl = Inr out" using Cons.prems(3) by (simp add: Let_def split: if_splits)
  from Cons.IH [OF subtract_concat_ok [OF Cons.prems(1) r(1)] r(2) this]
  have "all_addrs out = all_addrs ?n - all_addrs rl" "\<forall>x \<in> set out. run_ok x" by simp_all
  then show ?case
    unfolding subtract_concat_addrs [OF Cons.prems(1) r(1)] by (simp add: Diff_eq Int_assoc)
qed simp

text \<open>Runs that do not overlap are cut into runs that do not overlap.\<close>

abbreviation apart :: "PhysRun list \<Rightarrow> bool" where
  "apart \<equiv> sorted_wrt (\<lambda>a b. addrs a \<inter> addrs b = {})"

lemma subtract_one_apart:
  assumes "run_ok w" "run_ok r"
  shows "apart (subtract_one w r)"
proof -
  note e = run_ok_end [OF assms(1)] run_ok_end [OF assms(2)]
  have "unat (pr_base r - pr_base w) = unat (pr_base r) - unat (pr_base w)" if "pr_base w < pr_base r"
    using that by (simp add: unat_sub word_less_nat_alt word_le_nat_alt)
  with e show ?thesis
    by (auto simp: subtract_one_def Let_def addrs_def run_end_def word_less_nat_alt word_le_nat_alt)
qed

lemma subtract_concat_apart:
  assumes "\<forall>w \<in> set work. run_ok w" "run_ok r" "apart work"
  shows "apart (concat (map (\<lambda>w. subtract_one w r) work))"
  using assms
proof (induction work)
  case (Cons w work)
  let ?n = "concat (map (\<lambda>w. subtract_one w r) work)"
  have "addrs x \<inter> addrs y = {}" if "x \<in> set (subtract_one w r)" "y \<in> set ?n" for x y
  proof -
    have "addrs x \<subseteq> addrs w" using that(1) subtract_one_addrs(1) [of w r] Cons.prems by auto
    moreover have "addrs y \<subseteq> all_addrs work"
      using that(2) subtract_concat_addrs [of work r] Cons.prems by auto
    moreover have "addrs w \<inter> all_addrs work = {}" using Cons.prems(3) by auto
    ultimately show ?thesis by blast
  qed
  moreover have "apart ?n" using Cons by simp
  ultimately show ?case
    using subtract_one_apart [of w r] Cons.prems(1,2) by (simp add: sorted_wrt_append)
qed simp

lemma subtract_all_apart:
  assumes "\<forall>w \<in> set work. run_ok w" "\<forall>r \<in> set rl. run_ok r" "subtract_all work rl = Inr out" "apart work"
  shows "apart out"
  using assms
proof (induction rl arbitrary: work)
  case (Cons r rl)
  have r: "run_ok r" "\<forall>r \<in> set rl. run_ok r" using Cons.prems(2) by simp_all
  have "subtract_all (concat (map (\<lambda>w. subtract_one w r) work)) rl = Inr out"
    using Cons.prems(3) by (simp add: Let_def split: if_splits)
  from Cons.IH [OF subtract_concat_ok [OF Cons.prems(1) r(1)] r(2) this]
    subtract_concat_apart [OF Cons.prems(1) r(1) Cons.prems(4)] show ?case by simp
qed simp

lemma unat_align_down: "unat (align_down v 4096) = unat v div 4096 * 4096"
  using unat_and_not_mask [of v 12] by (simp add: align_down_def mask_eq_exp_minus_1)

lemma unat_align_up:
  assumes "unat v + 4095 < 2 ^ 64"
  shows "unat (align_up v 4096) = (unat v + 4095) div 4096 * 4096"
proof -
  have "unat (v + 4095) = unat v + 4095" using assms by (simp add: unat_word_ariths)
  moreover have "align_up v 4096 = (v + 4095) AND NOT (mask 12)"
    by (simp add: align_up_def mask_eq_exp_minus_1 add.commute)
  ultimately show ?thesis using unat_and_not_mask [of "v + 4095" 12] by simp
qed

text \<open>The whole pages of a run.\<close>

definition page_addrs :: "nat \<Rightarrow> nat set" where
  "page_addrs p = {p * 4096 ..< (p + 1) * 4096}"

definition whole_pages :: "PhysRun \<Rightarrow> PhysRun \<Rightarrow> bool" where
  "whole_pages w u \<longleftrightarrow> unat (pr_base u) mod 4096 = 0 \<and> unat (pr_size u) mod 4096 = 0 \<and> 0 < pr_size u \<and>
     addrs u \<subseteq> addrs w \<and> (\<forall>p. page_addrs p \<subseteq> addrs w \<longrightarrow> page_addrs p \<subseteq> addrs u)"

lemma whole_pages_sub: "whole_pages w u \<Longrightarrow> addrs u \<subseteq> addrs w"
  by (simp add: whole_pages_def)

lemma align_whole_pages:
  assumes "run_ok w" "lo = align_up (pr_base w) 4096" "hi = align_down (pr_base w + pr_size w) 4096" "\<not> hi \<le> lo"
  shows "whole_pages w \<lparr>pr_base = lo, pr_size = hi - lo\<rparr>"
proof -
  let ?b = "unat (pr_base w)"
  have h: "unat hi = run_end w div 4096 * 4096"
    using unat_align_down [of "pr_base w + pr_size w"] run_ok_end [OF assms(1)] assms(3) by simp
  have l: "unat lo = (?b + 4095) div 4096 * 4096"
    using unat_align_up [of "pr_base w"] assms(1,2) by (simp add: run_ok_def run_end_def)
  have lt: "unat lo < unat hi" using assms(4) by (simp add: word_le_nat_alt)
  then have s: "unat (hi - lo) = unat hi - unat lo" by (simp add: unat_sub word_le_nat_alt)
  have "(unat hi - unat lo) mod 4096 = 0" unfolding h l by (simp add: diff_mult_distrib [symmetric])
  moreover have "?b \<le> unat lo" "unat hi \<le> run_end w" unfolding h l by linarith+
  moreover have "unat lo \<le> p * 4096 \<and> (p + 1) * 4096 \<le> unat hi"
    if "page_addrs p \<subseteq> {?b ..< run_end w}" for p
  proof -
    from that have "p * 4096 \<in> {?b ..< run_end w}" "p * 4096 + 4095 \<in> {?b ..< run_end w}"
      by (auto simp: subset_iff page_addrs_def)
    then have "?b \<le> p * 4096" "(p + 1) * 4096 \<le> run_end w" by auto
    then have "(?b + 4095) div 4096 \<le> p" "p + 1 \<le> run_end w div 4096"
      by (linarith, simp add: less_eq_div_iff_mult_less_eq)
    then show ?thesis unfolding h l by simp
  qed
  ultimately show ?thesis
    using lt s l by (auto simp: whole_pages_def addrs_def run_end_def word_less_nat_alt page_addrs_def)
qed

lemma whole_pages_none:
  assumes "run_ok w" "align_down (pr_base w + pr_size w) 4096 \<le> align_up (pr_base w) 4096"
  shows "\<not> page_addrs p \<subseteq> addrs w"
proof
  assume "page_addrs p \<subseteq> addrs w"
  then have "p * 4096 \<in> addrs w" "p * 4096 + 4095 \<in> addrs w" by (auto simp: subset_iff page_addrs_def)
  then have b: "unat (pr_base w) \<le> p * 4096" "(p + 1) * 4096 \<le> run_end w" by (auto simp: addrs_def)
  have "unat (pr_base w) + 4095 < 2 ^ 64" using assms(1) by (simp add: run_ok_def run_end_def)
  then have "run_end w div 4096 * 4096 \<le> (unat (pr_base w) + 4095) div 4096 * 4096"
    using assms(2) unat_align_down [of "pr_base w + pr_size w"] unat_align_up [of "pr_base w"] run_ok_end [OF assms(1)]
    by (simp add: word_le_nat_alt)
  moreover have "p + 1 \<le> run_end w div 4096" using b(2) by (simp add: less_eq_div_iff_mult_less_eq)
  moreover have "(unat (pr_base w) + 4095) div 4096 \<le> p" using b(1) by linarith
  ultimately show False by simp
qed

lemma align_runs_usable:
  assumes "\<forall>w \<in> set ws. run_ok w" "align_runs ws pm = Inr pm'"
  shows "\<exists>us. pm_usable pm' = pm_usable pm @ us \<and>
    (\<forall>u \<in> set us. \<exists>w \<in> set ws. whole_pages w u) \<and> (apart ws \<longrightarrow> apart us) \<and>
    (\<forall>w \<in> set ws. \<forall>p. page_addrs p \<subseteq> addrs w \<longrightarrow>
       (\<exists>u \<in> set us. page_addrs p \<subseteq> addrs u))"
  using assms
proof (induction ws arbitrary: pm)
  case (Cons w ws)
  let ?lo = "align_up (pr_base w) 4096" and ?hi = "align_down (pr_base w + pr_size w) 4096"
  let ?u = "\<lparr>pr_base = ?lo, pr_size = ?hi - ?lo\<rparr>"
  have ok: "run_ok w" "\<forall>w \<in> set ws. run_ok w" using Cons.prems(1) by simp_all
  show ?case
  proof (cases "?hi \<le> ?lo")
    case True
    with Cons.prems(2) have "align_runs ws pm = Inr pm'" by simp
    from Cons.IH [OF ok(2) this] obtain us where us: "pm_usable pm' = pm_usable pm @ us"
      "\<forall>u \<in> set us. \<exists>w \<in> set ws. whole_pages w u" "apart ws \<longrightarrow> apart us"
      "\<forall>w \<in> set ws. \<forall>p. page_addrs p \<subseteq> addrs w \<longrightarrow> (\<exists>u \<in> set us. page_addrs p \<subseteq> addrs u)" by blast
    with whole_pages_none [OF ok(1) True] show ?thesis
      by (intro exI [of _ us] conjI) (simp, simp, simp, simp)
  next
    case False
    let ?pm = "pm\<lparr>pm_usable := pm_usable pm @ [?u], pm_usable_bytes := pm_usable_bytes pm + (?hi - ?lo)\<rparr>"
    from False Cons.prems(2) have "align_runs ws ?pm = Inr pm'" by (simp add: Let_def split: if_splits)
    from Cons.IH [OF ok(2) this] obtain us where us0: "pm_usable pm' = pm_usable ?pm @ us"
      and us: "\<forall>u \<in> set us. \<exists>w \<in> set ws. whole_pages w u" "apart ws \<longrightarrow> apart us"
      "\<forall>w \<in> set ws. \<forall>p. page_addrs p \<subseteq> addrs w \<longrightarrow> (\<exists>u \<in> set us. page_addrs p \<subseteq> addrs u)" by blast
    note wp = align_whole_pages [OF ok(1) refl refl False]
    have "addrs ?u \<inter> addrs u = {}" if "u \<in> set us" "apart (w # ws)" for u
    proof -
      from us(1) that(1) have "\<exists>v \<in> set ws. whole_pages v u" by (rule bspec)
      then obtain v where v: "v \<in> set ws" "whole_pages v u" by (rule bexE)
      from that(2) v(1) have "addrs w \<inter> addrs v = {}" by simp
      with whole_pages_sub [OF wp] whole_pages_sub [OF v(2)] show ?thesis by blast
    qed
    then have "apart (w # ws) \<longrightarrow> apart (?u # us)" using us(2) by auto
    moreover have "\<forall>p. page_addrs p \<subseteq> addrs w \<longrightarrow> page_addrs p \<subseteq> addrs ?u"
      using wp by (simp add: whole_pages_def)
    ultimately show ?thesis
      using us0 us(1,3) wp by (intro exI [of _ "?u # us"] conjI) (simp, simp, simp, simp)
  qed
qed simp

lemma align_runs_bank: "align_runs ws pm = Inr pm' \<Longrightarrow> pm_bank pm' = pm_bank pm"
  by (induction ws arbitrary: pm) (auto simp: Let_def split: if_splits)

lemma reserved_add_mono: "reserved_add rl b n = Inr rl' \<Longrightarrow> set rl \<subseteq> set rl' \<and> (n \<noteq> 0 \<longrightarrow> \<lparr>pr_base = b, pr_size = n\<rparr> \<in> set rl')"
  by (auto simp: reserved_add_def split: if_splits)

lemma or_fail_Inr: "or_fail x f = Some (Inr r) \<Longrightarrow> \<exists>v. x = Some (Inr v) \<and> f v = Some (Inr r)"
  by (auto simp: or_fail_def split: Option.bind_splits sum.splits)

lemma collect_reserved_images:
  assumes "collect_reserved fdt ks ke ds de = Some (Inr rl)"
  shows "{unat ks ..< unat ke} \<union> {unat ds ..< unat de} \<subseteq> all_addrs rl"
proof -
  obtain rl1 rl2 where k: "(if ke > ks then reserved_add rl1 ks (ke - ks) else Inr rl1) = Inr rl2"
    and d: "(if de > ds then reserved_add rl2 ds (de - ds) else Inr rl2) = Inr rl"
    using assms unfolding collect_reserved_def by (auto dest!: or_fail_Inr)
  have img: "{unat a ..< unat b} = addrs \<lparr>pr_base = a, pr_size = b - a\<rparr>" if "b > a" for a b :: u64
    using that by (simp add: addrs_def run_end_def unat_sub word_less_nat_alt word_le_nat_alt)
  have empty: "{unat a ..< unat b} = {}" if "\<not> b > a" for a b :: u64
    using that by (simp add: word_less_nat_alt)
  have sub: "set rl2 \<subseteq> set rl" using d reserved_add_mono [of rl2 ds "de - ds" rl] by (auto split: if_splits)
  have "{unat ks ..< unat ke} \<subseteq> all_addrs rl2"
    using k img [of ks ke] empty [of ks ke] reserved_add_mono [of rl1 ks "ke - ks" rl2]
    by (cases "ke > ks") auto
  moreover have "{unat ds ..< unat de} \<subseteq> all_addrs rl"
    using d img [of ds de] empty [of ds de] reserved_add_mono [of rl2 ds "de - ds" rl]
    by (cases "de > ds") auto
  ultimately show ?thesis using sub by blast
qed

text \<open>Collecting the banks leaves the list of usable runs alone.\<close>

definition same_usable :: "PhysMap \<Rightarrow> PhysMap result \<Rightarrow> bool" where
  "same_usable pm r \<longleftrightarrow> (\<forall>pm'. r = Inr pm' \<longrightarrow> pm_usable pm' = pm_usable pm)"

lemma bank_reg_loop_usable:
  assumes "bank_reg_loop fdt child idx pm = Some r"
  shows "same_usable pm r"
  using _ assms
proof (rule bank_reg_loop.raw_induct [where P = "\<lambda>fdt child idx pm r. same_usable pm r"], goal_cases)
  case (1 F fdt child idx pm r)
  obtain y where y: "Fdt_PropReg fdt child idx = Some y"
    using 1(2) by (auto simp: bind_eq_Some_conv)
  show ?case
  proof (cases y)
    case (Inr t)
    obtain a b where t: "t = (a, b)" by (cases t)
    show ?thesis
    proof (cases "length (pm_bank pm) \<ge> CARA_MAX_PHYS_BANKS")
      case False
      with 1(2) y Inr t have "F fdt child (idx + 1)
          (pm\<lparr>pm_bank := pm_bank pm @ [\<lparr>pr_base = a, pr_size = b\<rparr>], pm_total_bytes := pm_total_bytes pm + b\<rparr>) = Some r"
        by simp
      from 1(1) [OF this] show ?thesis by (simp add: same_usable_def)
    qed (use 1(2) y Inr t in \<open>auto simp: same_usable_def\<close>)
  qed (use 1(2) y in \<open>auto simp: same_usable_def\<close>)
qed

lemma bank_loop_usable:
  assumes "bank_loop fdt root cur pm = Some r"
  shows "same_usable pm r"
  using _ assms
proof (rule bank_loop.raw_induct [where P = "\<lambda>fdt root cur pm r. same_usable pm r"], goal_cases)
  case (1 F fdt root cur pm r)
  obtain y where y: "Fdt_ChildIter fdt root cur = Some y"
    using 1(2) by (auto simp: bind_eq_Some_conv)
  show ?case
  proof (cases y)
    case (Inr t)
    obtain c cur' where t: "t = (c, cur')" by (cases t)
    with 1(2) y Inr consider "F fdt root cur' pm = Some r"
      | q where "bank_reg_loop fdt c 0 pm = Some q"
          "(case q of Inl e \<Rightarrow> Some (Inl e) | Inr pm' \<Rightarrow> F fdt root cur' pm') = Some r"
      by (auto simp: bind_eq_Some_conv split: if_splits)
    then show ?thesis
    proof cases
      case 2
      from bank_reg_loop_usable [OF 2(1)] 2(2) show ?thesis
        by (cases q) (auto simp: same_usable_def dest!: 1(1))
    qed (rule 1(1))
  qed (use 1(2) y in \<open>auto simp: same_usable_def\<close>)
qed

lemma PhysMap_phases:
  assumes "Mm_PhysMapFromFdt fdt ks ke ds de = Some (Inr pm)"
  shows "\<exists>pm0 rl work. collect_reserved fdt ks ke ds de = Some (Inr rl) \<and>
    pm_usable pm0 = [] \<and> subtract_all (pm_bank pm0) rl = Inr work \<and> align_runs work pm0 = Inr pm"
proof -
  obtain root pm0 where u: "pm_usable pm0 = []" and 1: "or_fail (collect_reserved fdt ks ke ds de) (\<lambda>rl.
    if length (pm_bank pm0) > CARA_MAX_PHYS_RUNS * 2 then Some (Inl CARA_ERANGE)
    else or_fail (Some (subtract_all (pm_bank pm0) rl)) (\<lambda>work. Some (align_runs work pm0))) = Some (Inr pm)"
    using assms unfolding Mm_PhysMapFromFdt_def
    by (auto simp: bind_eq_Some_conv same_usable_def dest!: or_fail_Inr bank_loop_usable split: if_splits)
  from or_fail_Inr [OF 1] u show ?thesis by (auto dest!: or_fail_Inr split: if_splits)
qed

section \<open>Property\<close>


lemma fdt_ex_map:
  "Mm_PhysMapFromFdt fdt_ex 0x80200000 0x80400800 0x82000000 0x82001000 = Some (Inr
    \<lparr>pm_bank = [\<lparr>pr_base = 0x80000000, pr_size = 0x8000000\<rparr>],
     pm_usable = [\<lparr>pr_base = 0x80000000, pr_size = 0x200000\<rparr>, \<lparr>pr_base = 0x80401000, pr_size = 0x1BFF000\<rparr>,
       \<lparr>pr_base = 0x82001000, pr_size = 0x5FFF000\<rparr>],
     pm_total_bytes = 0x8000000, pm_usable_bytes = 0x7DFE000\<rparr>)"
  by code_simp

lemma fdt_ex_reserved:
  "collect_reserved fdt_ex 0x80200000 0x80400800 0x82000000 0x82001000 = Some (Inr
    [\<lparr>pr_base = 0x80200000, pr_size = 0x200800\<rparr>, \<lparr>pr_base = 0x82000000, pr_size = 0x1000\<rparr>])"
  by code_simp


end
