(* ===== verification/Kernel_Heap.thy ===== *)
theory Kernel_Heap
  imports Phys_Pages
begin

text \<open>
  The kernel heap (src/src/croi/mm/heap.c): eight size classes of slab objects and large blocks
  of whole pages, on top of the page allocator.

  Memory is the page allocator's array of 64-bit words; a heap accesses it through the
  addresses it hands out, which \<open>heap_v2p\<close> translates back.  The header of a slab page has the
  magic number in the low half of word 0 and the class in the byte above; a large block has
  the number of pages in the upper half.  The list of slab pages of a class is the list of
  their addresses; the link words inside the pages are not written in the model's memory.
\<close>

unbundle bit_operations_syntax

section \<open>State\<close>

definition SLAB_MAGIC :: u32 where "SLAB_MAGIC = 0x534C4142"
definition LARGE_MAGIC :: u32 where "LARGE_MAGIC = 0x4C415247"
definition CARA_HEAP_NUM_CLASSES :: nat where "CARA_HEAP_NUM_CLASSES = 8"

definition g_class_sizes :: "u32 list" where
  "g_class_sizes = [16, 32, 64, 128, 256, 512, 1024, 2048]"

text \<open>The sizes of \<^verbatim>\<open>struct SlabHeader\<close> (a word and a list node) and \<^verbatim>\<open>struct LargeHeader\<close>.\<close>

definition sizeof_SlabHeader :: u32 where "sizeof_SlabHeader = 24"
definition sizeof_LargeHeader :: u64 where "sizeof_LargeHeader = 8"

record HeapClass =
  hc_obj_size :: u32
  hc_in_flight :: u32
  hc_peak_in_flight :: u32
  hc_free_head :: u64
  hc_slab_pages :: "u64 list"

record Heap =
  h_classes :: "HeapClass list"
  h_large_in_flight :: u32
  h_large_peak :: u32
  h_bytes_in_flight :: u64
  h_peak_bytes_in_flight :: u64
  h_va_base :: u64
  h_pa_base :: u64

text \<open>The heap with the page allocator it points to and the memory.\<close>

type_synonym heap_state = "Heap \<times> PageAllocator \<times> pmem"

definition heap_p2v :: "Heap \<Rightarrow> u64 \<Rightarrow> u64" where
  "heap_p2v h phys = (if h_va_base h \<noteq> 0 then h_va_base h + (phys - h_pa_base h) else Mm_PhysToVirt phys)"

definition heap_v2p :: "Heap \<Rightarrow> u64 \<Rightarrow> u64" where
  "heap_v2p h va = (if h_va_base h \<noteq> 0 then h_pa_base h + (va - h_va_base h) else Mm_VirtToPhys va)"

definition Heap_Init :: Heap where
  "Heap_Init = \<lparr>h_classes = map (\<lambda>sz. \<lparr>hc_obj_size = sz, hc_in_flight = 0, hc_peak_in_flight = 0,
       hc_free_head = 0, hc_slab_pages = []\<rparr>) g_class_sizes,
     h_large_in_flight = 0, h_large_peak = 0, h_bytes_in_flight = 0, h_peak_bytes_in_flight = 0,
     h_va_base = 0, h_pa_base = 0\<rparr>"

definition Heap_InitArena :: "u64 \<Rightarrow> u64 \<Rightarrow> Heap" where
  "Heap_InitArena va_base pa_base = Heap_Init\<lparr>h_va_base := va_base, h_pa_base := pa_base\<rparr>"

text \<open>The word of memory at a heap address.\<close>

definition load :: "Heap \<Rightarrow> pmem \<Rightarrow> u64 \<Rightarrow> u64" where
  "load h mem va = (let pa = unat (heap_v2p h va) in mem (pa div 4096) (pa mod 4096 div 8))"

definition store :: "Heap \<Rightarrow> u64 \<Rightarrow> u64 \<Rightarrow> pmem \<Rightarrow> pmem" where
  "store h va v mem = (let pa = unat (heap_v2p h va); p = pa div 4096 in
     mem(p := (mem p)(pa mod 4096 div 8 := v)))"

section \<open>Allocation\<close>

text \<open>The index of the first class that is large enough; the number of classes if none is.\<close>

definition size_to_class :: "u64 \<Rightarrow> nat" where
  "size_to_class sz = (case find (\<lambda>i. sz \<le> ucast (g_class_sizes ! i)) [0..<CARA_HEAP_NUM_CLASSES] of
     Some i \<Rightarrow> i | None \<Rightarrow> CARA_HEAP_NUM_CLASSES)"

definition upd_class :: "nat \<Rightarrow> (HeapClass \<Rightarrow> HeapClass) \<Rightarrow> Heap \<Rightarrow> Heap" where
  "upd_class cid f h = h\<lparr>h_classes := (h_classes h)[cid := f (h_classes h ! cid)]\<rparr>"

definition slab_first_off :: "u32 \<Rightarrow> u32" where
  "slab_first_off obj_size =
    (if sizeof_SlabHeader AND (obj_size - 1) \<noteq> 0
     then (sizeof_SlabHeader + obj_size - 1) AND NOT (obj_size - 1) else sizeof_SlabHeader)"

text \<open>The loop that links the objects from index \<open>i\<close>; \<open>n\<close> objects are left.\<close>

fun slab_link :: "Heap \<Rightarrow> u64 \<Rightarrow> u32 \<Rightarrow> u32 \<Rightarrow> nat \<Rightarrow> nat \<Rightarrow> u64 \<Rightarrow> pmem \<Rightarrow> u64 \<times> pmem" where
  "slab_link h page first_off obj_size i 0 prev mem = (prev, mem)"
| "slab_link h page first_off obj_size i (Suc n) prev mem =
    (let obj = page + ucast first_off + of_nat i * ucast obj_size in
     slab_link h page first_off obj_size (Suc i) n obj (store h obj prev mem))"

definition slab_grow :: "nat \<Rightarrow> heap_state \<Rightarrow> heap_state result" where
  "slab_grow cid st = (case st of (h, pa, mem) \<Rightarrow>
    (let (phys, pa1, mem1) = Page_Alloc pa 1 mem in
     if phys = 0 then Inl CARA_ENOMEM
     else let sh = heap_p2v h phys;
              mem2 = store h sh (ucast SLAB_MAGIC OR push_bit 32 (of_nat cid)) mem1;
              h1 = upd_class cid (\<lambda>c. c\<lparr>hc_slab_pages := hc_slab_pages c @ [sh]\<rparr>) h;
              obj_size = hc_obj_size (h_classes h1 ! cid);
              first_off = slab_first_off obj_size;
              n_objs = (4096 - first_off) div obj_size;
              (prev, mem3) = slab_link h1 sh first_off obj_size 0 (unat n_objs) 0 mem2
       in Inr (upd_class cid (\<lambda>c. c\<lparr>hc_free_head := prev\<rparr>) h1, pa1, mem3)))"

text \<open>Zeroing of an object, by words: the object sizes are multiples of 16 bytes.\<close>

fun zero_words :: "Heap \<Rightarrow> u64 \<Rightarrow> nat \<Rightarrow> pmem \<Rightarrow> pmem" where
  "zero_words h va 0 mem = mem"
| "zero_words h va (Suc n) mem = zero_words h (va + 8) n (store h va 0 mem)"

text \<open>The slab path once the class has a free object.\<close>

definition slab_take :: "nat \<Rightarrow> heap_state \<Rightarrow> u64 \<times> heap_state" where
  "slab_take cid st = (case st of (h, pa, mem) \<Rightarrow>
    (let obj = hc_free_head (h_classes h ! cid);
         h1 = upd_class cid (\<lambda>c. let n = hc_in_flight c + 1 in
                c\<lparr>hc_free_head := load h mem obj, hc_in_flight := n,
                  hc_peak_in_flight := (if n > hc_peak_in_flight c then n else hc_peak_in_flight c)\<rparr>) h;
         sz = hc_obj_size (h_classes h ! cid);
         bytes = h_bytes_in_flight h1 + ucast sz;
         h2 = h1\<lparr>h_bytes_in_flight := bytes,
                 h_peak_bytes_in_flight := (if bytes > h_peak_bytes_in_flight h1 then bytes
                                            else h_peak_bytes_in_flight h1)\<rparr>
     in (obj, h2, pa, zero_words h2 obj (unat sz div 8) mem)))"

definition large_pages :: "u64 \<Rightarrow> u32" where
  "large_pages sz = ucast ((sz + sizeof_LargeHeader + CARA_PAGE_SIZE - 1) div CARA_PAGE_SIZE)"

definition large_take :: "u64 \<Rightarrow> heap_state \<Rightarrow> u64 \<times> heap_state" where
  "large_take sz st = (case st of (h, pa, mem) \<Rightarrow>
    (let n_pages = large_pages sz;
         (phys, pa1, mem1) = Page_Alloc pa n_pages mem in
     if phys = 0 then (0, h, pa1, mem1)
     else let lh = heap_p2v h phys;
              mem2 = store h lh (ucast LARGE_MAGIC OR push_bit 32 (ucast n_pages)) mem1;
              n = h_large_in_flight h + 1;
              bytes = h_bytes_in_flight h + ucast n_pages * CARA_PAGE_SIZE;
              h1 = h\<lparr>h_large_in_flight := n,
                     h_large_peak := (if n > h_large_peak h then n else h_large_peak h),
                     h_bytes_in_flight := bytes,
                     h_peak_bytes_in_flight := (if bytes > h_peak_bytes_in_flight h then bytes
                                                else h_peak_bytes_in_flight h)\<rparr>
       in (lh + sizeof_LargeHeader, h1, pa1, mem2)))"

definition alloc_from :: "u64 \<Rightarrow> heap_state \<Rightarrow> u64 \<times> heap_state" where
  "alloc_from sz st =
    (if sz = 0 then (0, st)
     else let cid = size_to_class sz in
       if cid < CARA_HEAP_NUM_CLASSES then
         (if hc_free_head (h_classes (fst st) ! cid) = 0 then
            (case slab_grow cid st of Inl e \<Rightarrow> (0, st) | Inr st1 \<Rightarrow> slab_take cid st1)
          else slab_take cid st)
       else large_take sz st)"

section \<open>Freeing\<close>

text \<open>The part of \<^verbatim>\<open>Croi_Free\<close> after the heap has been chosen.\<close>

definition free_in :: "u64 \<Rightarrow> heap_state \<Rightarrow> heap_state" where
  "free_in ptr st = (case st of (h, pa, mem) \<Rightarrow>
    (let page = ptr AND NOT (CARA_PAGE_SIZE - 1);
         hdr = load h mem page;
         magic = ucast hdr :: u32 in
     if magic = SLAB_MAGIC then
       let cid = unat (ucast (drop_bit 32 hdr) :: u8);
           c = h_classes h ! cid;
           mem1 = store h ptr (hc_free_head c) mem;
           h1 = upd_class cid (\<lambda>c. c\<lparr>hc_free_head := ptr, hc_in_flight := hc_in_flight c - 1\<rparr>) h
       in (h1\<lparr>h_bytes_in_flight := h_bytes_in_flight h1 - ucast (hc_obj_size c)\<rparr>, pa, mem1)
     else if magic = LARGE_MAGIC then
       let n_pages = ucast (drop_bit 32 hdr) :: u32 in
       (h\<lparr>h_large_in_flight := h_large_in_flight h - 1,
          h_bytes_in_flight := h_bytes_in_flight h - ucast n_pages * CARA_PAGE_SIZE\<rparr>,
        Page_Free pa (heap_v2p h page) n_pages, mem)
     else st))"

text \<open>
  The globals: the active heap, the shared heap with its window of addresses, and the
  memory they both live in.
\<close>

record heap_globals =
  g_active_heap :: "(Heap \<times> PageAllocator) option"
  g_shared_heap :: "(Heap \<times> PageAllocator) option"
  g_shared_lo :: u64
  g_shared_hi :: u64
  g_mem :: pmem

definition Heap_SetActive :: "Heap \<times> PageAllocator \<Rightarrow> heap_globals \<Rightarrow> heap_globals" where
  "Heap_SetActive h g = g\<lparr>g_active_heap := Some h\<rparr>"

definition Heap_RegisterShared :: "Heap \<times> PageAllocator \<Rightarrow> u64 \<Rightarrow> u64 \<Rightarrow> heap_globals \<Rightarrow> heap_globals" where
  "Heap_RegisterShared h lo hi g = g\<lparr>g_shared_heap := Some h, g_shared_lo := lo, g_shared_hi := hi\<rparr>"

definition Croi_Alloc :: "u64 \<Rightarrow> heap_globals \<Rightarrow> u64 \<times> heap_globals" where
  "Croi_Alloc sz g = (case g_active_heap g of
     None \<Rightarrow> (0, g)
   | Some (h, pa) \<Rightarrow>
       (case alloc_from sz (h, pa, g_mem g) of (p, h', pa', mem') \<Rightarrow>
          (p, g\<lparr>g_active_heap := Some (h', pa'), g_mem := mem'\<rparr>)))"

text \<open>\<^verbatim>\<open>Croi_HeapAlloc\<close> on the registered shared heap.\<close>

definition Croi_HeapAlloc :: "u64 \<Rightarrow> heap_globals \<Rightarrow> u64 \<times> heap_globals" where
  "Croi_HeapAlloc sz g = (case g_shared_heap g of
     None \<Rightarrow> (0, g)
   | Some (h, pa) \<Rightarrow>
       (case alloc_from sz (h, pa, g_mem g) of (p, h', pa', mem') \<Rightarrow>
          (p, g\<lparr>g_shared_heap := Some (h', pa'), g_mem := mem'\<rparr>)))"

definition Croi_Free :: "u64 \<Rightarrow> heap_globals \<Rightarrow> heap_globals" where
  "Croi_Free ptr g =
    (if ptr = 0 then g
     else if g_shared_heap g \<noteq> None \<and> ptr \<ge> g_shared_lo g \<and> ptr < g_shared_hi g then
       (case g_shared_heap g of None \<Rightarrow> g
        | Some (h, pa) \<Rightarrow> (case free_in ptr (h, pa, g_mem g) of (h', pa', mem') \<Rightarrow>
            g\<lparr>g_shared_heap := Some (h', pa'), g_mem := mem'\<rparr>))
     else (case g_active_heap g of None \<Rightarrow> g
        | Some (h, pa) \<Rightarrow> (case free_in ptr (h, pa, g_mem g) of (h', pa', mem') \<Rightarrow>
            g\<lparr>g_active_heap := Some (h', pa'), g_mem := mem'\<rparr>)))"

section \<open>The exec.library memory calls\<close>

text \<open>
  \<^verbatim>\<open>Croi_AllocShared\<close> (src/src/croi/mm/shared.c) and the shims of
  src/src/croi/exec_lib/mem.c; the log messages about advisory flags are left out.
\<close>

definition MEMF_CLEAR :: u32 where "MEMF_CLEAR = push_bit 16 1"

definition Croi_AllocShared :: "u64 \<Rightarrow> heap_globals \<Rightarrow> u64 \<times> heap_globals" where
  "Croi_AllocShared sz g = Croi_HeapAlloc sz g"

text \<open>Clearing \<open>n\<close> bytes from a word boundary: whole words, then the low bytes of one more.\<close>

definition zero_bytes :: "Heap \<Rightarrow> u64 \<Rightarrow> u32 \<Rightarrow> pmem \<Rightarrow> pmem" where
  "zero_bytes h p n mem =
    (let k = unat n div 8; r = unat n mod 8; mem1 = zero_words h p k mem; q = p + of_nat (8 * k) in
     if r = 0 then mem1 else store h q (load h mem1 q AND NOT (mask (8 * r))) mem1)"

definition Croi_AllocMem_Impl :: "u32 \<Rightarrow> u32 \<Rightarrow> heap_globals \<Rightarrow> u64 \<times> heap_globals" where
  "Croi_AllocMem_Impl sz flags g =
    (if sz = 0 then (0, g)
     else case Croi_AllocShared (ucast sz) g of (p, g1) \<Rightarrow>
       if p = 0 then (0, g1)
       else if flags AND MEMF_CLEAR \<noteq> 0 then
         (case g_shared_heap g1 of None \<Rightarrow> (p, g1)
          | Some (h, _) \<Rightarrow> (p, g1\<lparr>g_mem := zero_bytes h p sz (g_mem g1)\<rparr>))
       else (p, g1))"

definition Croi_FreeMem_Impl :: "u64 \<Rightarrow> u32 \<Rightarrow> heap_globals \<Rightarrow> heap_globals" where
  "Croi_FreeMem_Impl addr sz g = (if addr \<noteq> 0 then Croi_Free addr g else g)"

definition Croi_AllocVec_Impl :: "u32 \<Rightarrow> u32 \<Rightarrow> heap_globals \<Rightarrow> u64 \<times> heap_globals" where
  "Croi_AllocVec_Impl sz flags g =
    (if sz = 0 \<or> sz > 0xFFFFFFF0 then (0, g)
     else let total = sz + 8 in
       case Croi_AllocMem_Impl total flags g of (base, g1) \<Rightarrow>
         if base = 0 then (0, g1)
         else case g_shared_heap g1 of None \<Rightarrow> (base + 8, g1)
           | Some (h, _) \<Rightarrow> (base + 8, g1\<lparr>g_mem := store h base (ucast total) (g_mem g1)\<rparr>))"

definition Croi_FreeVec_Impl :: "u64 \<Rightarrow> heap_globals \<Rightarrow> heap_globals" where
  "Croi_FreeVec_Impl mem g =
    (if mem = 0 then g
     else let base = mem - 8;
              total = (case g_shared_heap g of None \<Rightarrow> 0 | Some (h, _) \<Rightarrow> load h (g_mem g) base)
          in Croi_FreeMem_Impl base (ucast total) g)"

section \<open>Addresses\<close>

lemma v2p_p2v: "heap_v2p h (heap_p2v h phys + off) = phys + off"
  by (simp add: heap_v2p_def heap_p2v_def Mm_PhysToVirt_def Mm_VirtToPhys_def)

lemma upd_class_simps [simp]:
  "h_va_base (upd_class c f h) = h_va_base h" "h_pa_base (upd_class c f h) = h_pa_base h"
  "h_bytes_in_flight (upd_class c f h) = h_bytes_in_flight h" "h_large_in_flight (upd_class c f h) = h_large_in_flight h"
  "length (h_classes (upd_class c f h)) = length (h_classes h)"
  "c < length (h_classes h) \<Longrightarrow> h_classes (upd_class c f h) ! c = f (h_classes h ! c)"
  by (simp_all add: upd_class_def)

text \<open>Only the two base addresses of a heap matter for the translation.\<close>

lemma v2p_cong: "h_va_base h = h_va_base h' \<Longrightarrow> h_pa_base h = h_pa_base h' \<Longrightarrow> heap_v2p h = heap_v2p h'"
  by (simp add: heap_v2p_def fun_eq_iff)

lemma access_cong:
  assumes "heap_v2p h = heap_v2p h'"
  shows "load h = load h'" "store h = store h'"
  using assms by (simp_all add: load_def store_def fun_eq_iff)

text \<open>The word at offset \<open>off\<close> of the page a heap got from the allocator.\<close>

lemma page_word:
  assumes "unat phys mod 4096 = 0" "off < 4096"
  shows "unat (heap_v2p h (heap_p2v h phys + of_nat off)) div 4096 = unat phys div 4096"
    "unat (heap_v2p h (heap_p2v h phys + of_nat off)) mod 4096 = off"
proof -
  obtain q where q: "unat phys = 4096 * q" using assms(1) by (auto simp: mod_eq_0_iff_dvd)
  have "unat (of_nat off :: u64) = off" using assms(2) by (simp add: unat_of_nat)
  moreover have "unat phys + off < 2 ^ 64"
  proof -
    have "4096 * q < 4096 * 2 ^ 52" using unat_lt2p [of phys] q by simp
    then have "q < 2 ^ 52" by simp
    then have "q + 1 \<le> 2 ^ 52" by simp
    then have "4096 * (q + 1) \<le> 4096 * 2 ^ 52" by (rule mult_le_mono2)
    with assms(2) q show ?thesis by simp
  qed
  ultimately have "unat (phys + of_nat off) = 4096 * q + off"
    by (simp add: unat_word_ariths q)
  then show "unat (heap_v2p h (heap_p2v h phys + of_nat off)) div 4096 = unat phys div 4096"
    "unat (heap_v2p h (heap_p2v h phys + of_nat off)) mod 4096 = off"
    using assms(2) q by (simp_all add: v2p_p2v)
qed

lemma load_page:
  assumes "unat phys mod 4096 = 0" "off < 4096"
  shows "load h mem (heap_p2v h phys + of_nat off) = mem (unat phys div 4096) (off div 8)"
  using page_word [OF assms] by (simp add: load_def Let_def)

lemma store_page:
  assumes "unat phys mod 4096 = 0" "off < 4096"
  shows "store h (heap_p2v h phys + of_nat off) v mem =
    mem(unat phys div 4096 := (mem (unat phys div 4096))(off div 8 := v))"
  using page_word [OF assms] by (simp add: store_def Let_def)

lemma Page_Alloc_aligned:
  assumes "pa_inv pa" "Page_Alloc pa n mem = (phys, pa', mem')" "phys \<noteq> 0"
  shows "unat phys mod 4096 = 0"
proof -
  from assms(2,3) have n: "n \<noteq> 0" by (auto simp: Page_Alloc_def split: if_splits)
  with assms(2,3) obtain runs' where al: "alloc_in_runs (pa_runs pa) n = Some (phys, runs')"
    by (auto simp: Page_Alloc_def Let_def split: option.splits prod.splits)
  have runs: "\<forall>r \<in> set (pa_runs pa). run_inv r" using assms(1) by (simp add: pa_inv_def)
  from alloc_in_runs_some [OF al n runs] obtain as r bs s where "pa_runs pa = as @ r # bs" "phys = run_phys r s"
    and f: "fits (run_bitmap r) (unat (run_data_pages r)) (unat n) s" by blast
  moreover have "s < unat (run_data_pages r)" using f n by (simp add: fits_def unat_gt_0 [symmetric])
  ultimately show ?thesis using run_phys_page(2) [of r s] runs by simp
qed

section \<open>The free list of a slab\<close>

text \<open>The objects on a free list, from its head.\<close>

fun free_chain :: "Heap \<Rightarrow> pmem \<Rightarrow> u64 \<Rightarrow> u64 list \<Rightarrow> bool" where
  "free_chain h mem p [] = (p = 0)"
| "free_chain h mem p (x # xs) = (p = x \<and> p \<noteq> 0 \<and> free_chain h mem (load h mem p) xs)"

lemma slab_link_words:
  fixes h :: Heap and phys :: u64 and fo sz :: nat
  assumes "unat phys mod 4096 = 0" "fo + (i + n) * sz \<le> 4096" "8 dvd fo" "8 dvd sz" "0 < sz"
    and "unat first_off = fo" "unat obj_size = sz"
  defines "obj j \<equiv> heap_p2v h phys + of_nat (fo + j * sz)"
  shows "\<exists>mem'. slab_link h (heap_p2v h phys) first_off obj_size i n prev mem
      = (if n = 0 then prev else obj (i + n - 1), mem') \<and>
    (\<forall>j. i \<le> j \<and> j < i + n \<longrightarrow> mem' (unat phys div 4096) ((fo + j * sz) div 8) = (if j = i then prev else obj (j - 1))) \<and>
    (\<forall>j < i. mem' (unat phys div 4096) ((fo + j * sz) div 8) = mem (unat phys div 4096) ((fo + j * sz) div 8)) \<and>
    (\<forall>w. 8 * w < fo \<longrightarrow> mem' (unat phys div 4096) w = mem (unat phys div 4096) w) \<and>
    (\<forall>q. q \<noteq> unat phys div 4096 \<longrightarrow> mem' q = mem q)"
  using assms(2)
proof (induction n arbitrary: i prev mem)
  case 0
  show ?case by (intro exI [of _ mem] conjI) auto
next
  case (Suc n)
  let ?P = "unat phys div 4096"
  have off: "fo + i * sz < 4096" using Suc.prems assms(5) by (simp add: algebra_simps)
  have o: "heap_p2v h phys + ucast first_off + of_nat i * ucast obj_size = obj i"
  proof -
    have "(ucast first_off :: u64) = of_nat fo" "(ucast obj_size :: u64) = of_nat sz"
      using of_nat_unat [of first_off, where 'a = "64 word"] of_nat_unat [of obj_size, where 'a = "64 word"] assms(6,7)
      by simp_all
    then show ?thesis by (simp add: obj_def add.assoc)
  qed
  let ?m = "mem(?P := (mem ?P)((fo + i * sz) div 8 := prev))"
  have st: "store h (obj i) prev mem = ?m"
    unfolding obj_def by (rule store_page [OF assms(1) off])
  have ne: "(fo + j * sz) div 8 \<noteq> (fo + i * sz) div 8" if "j \<noteq> i" for j
  proof -
    obtain a b where ab: "fo = 8 * a" "sz = 8 * b" using assms(3,4) by (auto simp: dvd_def)
    then have "b \<noteq> 0" using assms(5) by simp
    have "(fo + j * sz) div 8 = a + j * b" "(fo + i * sz) div 8 = a + i * b"
      by (simp_all add: ab algebra_simps flip: distrib_left)
    with that \<open>b \<noteq> 0\<close> show ?thesis by simp
  qed
  have "fo + (Suc i + n) * sz \<le> 4096" using Suc.prems by simp
  from Suc.IH [OF this, of "obj i" ?m] obtain mem' where
    m: "slab_link h (heap_p2v h phys) first_off obj_size (Suc i) n (obj i) ?m
        = (if n = 0 then obj i else obj (Suc i + n - 1), mem')"
      "\<forall>j. Suc i \<le> j \<and> j < Suc i + n \<longrightarrow> mem' ?P ((fo + j * sz) div 8) = (if j = Suc i then obj i else obj (j - 1))"
      "\<forall>j < Suc i. mem' ?P ((fo + j * sz) div 8) = ?m ?P ((fo + j * sz) div 8)"
      "\<forall>w. 8 * w < fo \<longrightarrow> mem' ?P w = ?m ?P w" "\<forall>q. q \<noteq> ?P \<longrightarrow> mem' q = ?m q" by blast
  have "slab_link h (heap_p2v h phys) first_off obj_size i (Suc n) prev mem = (obj (i + Suc n - 1), mem')"
    using m(1) o st by (simp add: Let_def)
  moreover have "mem' ?P ((fo + j * sz) div 8) = (if j = i then prev else obj (j - 1))" if "i \<le> j \<and> j < i + Suc n" for j
    using that m(2,3) by (cases "j = i") auto
  moreover have "mem' ?P ((fo + j * sz) div 8) = mem ?P ((fo + j * sz) div 8)" if "j < i" for j
    using that m(3) ne [of j] by simp
  moreover have "mem' ?P w = mem ?P w" if "8 * w < fo" for w
  proof -
    have "8 * ((fo + i * sz) div 8) = fo + i * sz" using assms(3,4) by simp
    then have "w \<noteq> (fo + i * sz) div 8" using that by auto
    with that m(4) show ?thesis by simp
  qed
  ultimately show ?case using m(5) by (intro exI [of _ mem'] conjI allI impI) simp_all
qed

text \<open>Multiples of the page size.\<close>

definition page_al :: "u64 \<Rightarrow> bool" where
  "page_al w \<longleftrightarrow> (\<exists>k. w = k * 4096)"

lemma page_al_iff: "page_al w \<longleftrightarrow> unat w mod 4096 = 0"
proof
  assume "page_al w"
  then obtain k where k: "w = k * 4096" unfolding page_al_def by (rule exE)
  have "unat w = (unat k * 4096) mod 2 ^ 64" unfolding k by (simp add: unat_word_ariths)
  moreover have "(4096::nat) dvd 2 ^ 64" by (rule dvdI [of _ _ "2 ^ 52"]) simp
  ultimately have "unat w mod 4096 = (unat k * 4096) mod 4096" by (simp only: mod_mod_cancel)
  then show "unat w mod 4096 = 0" by simp
next
  assume "unat w mod 4096 = 0"
  then have "4096 dvd unat w" by (rule mod_0_imp_dvd)
  then obtain q where q: "unat w = 4096 * q" by (rule dvdE)
  have "w = of_nat (unat w)" by simp
  also have "\<dots> = of_nat q * 4096" unfolding q by simp
  finally show "page_al w" unfolding page_al_def by (rule exI)
qed

lemma page_al_add: "page_al a \<Longrightarrow> page_al b \<Longrightarrow> page_al (a + b)"
  unfolding page_al_def by (metis distrib_right)

lemma page_al_diff: "page_al a \<Longrightarrow> page_al b \<Longrightarrow> page_al (a - b)"
  unfolding page_al_def by (metis left_diff_distrib)

definition heap_aligned :: "Heap \<Rightarrow> bool" where
  "heap_aligned h \<longleftrightarrow> page_al (h_va_base h) \<and> page_al (h_pa_base h)"

lemma p2v_aligned:
  assumes "heap_aligned h" "page_al phys"
  shows "page_al (heap_p2v h phys)"
proof -
  have "page_al CARA_KERNEL_VA_OFFSET"
    unfolding page_al_iff by (simp add: CARA_KERNEL_VA_OFFSET_def)
  with assms show ?thesis
    by (simp add: heap_p2v_def heap_aligned_def page_al_add page_al_diff Mm_PhysToVirt_def)
qed

lemma in_page_nonzero:
  assumes "page_al p" "0 < off" "off < 4096"
  shows "p + of_nat off \<noteq> 0"
proof
  assume "p + of_nat off = 0"
  then have "of_nat off = 0 - p" by (simp add: eq_neg_iff_add_eq_0 add.commute)
  moreover have "page_al (0 - p)" using assms(1) by (intro page_al_diff) (simp_all add: page_al_iff)
  ultimately have "page_al (of_nat off)" by simp
  with assms(2,3) show False by (simp add: page_al_iff unat_of_nat)
qed

text \<open>The geometry of a slab page, for each of the eight classes.\<close>

definition slab_objs :: "nat \<Rightarrow> nat" where
  "slab_objs cid = (4096 - unat (slab_first_off (g_class_sizes ! cid))) div unat (g_class_sizes ! cid)"

lemma less8: "cid < CARA_HEAP_NUM_CLASSES \<Longrightarrow> cid \<in> {0, 1, 2, 3, 4, 5, 6, 7}"
  by (auto simp: CARA_HEAP_NUM_CLASSES_def)

lemma slab_geometry:
  assumes "cid < CARA_HEAP_NUM_CLASSES"
  shows "8 dvd unat (slab_first_off (g_class_sizes ! cid))" "8 dvd unat (g_class_sizes ! cid)"
    "0 < unat (g_class_sizes ! cid)" "24 \<le> unat (slab_first_off (g_class_sizes ! cid))"
    "unat (slab_first_off (g_class_sizes ! cid)) + slab_objs cid * unat (g_class_sizes ! cid) \<le> 4096"
    "unat ((4096 - slab_first_off (g_class_sizes ! cid)) div (g_class_sizes ! cid)) = slab_objs cid"
    "0 < slab_objs cid"
  using less8 [OF assms]
  by (auto simp: slab_first_off_def g_class_sizes_def sizeof_SlabHeader_def slab_objs_def)

lemma chain_from_words:
  assumes "unat phys mod 4096 = 0" "heap_aligned h" "fo + n * sz \<le> 4096" "0 < sz" "0 < fo"
  defines "obj j \<equiv> heap_p2v h phys + of_nat (fo + j * sz)"
  assumes "\<forall>j < n. mem (unat phys div 4096) ((fo + j * sz) div 8) = (if j = 0 then 0 else obj (j - 1))"
  shows "m \<le> n \<Longrightarrow> free_chain h mem (if m = 0 then 0 else obj (m - 1)) (rev (map obj [0..<m]))"
proof (induction m)
  case (Suc m)
  have lt: "fo + m * sz < 4096"
  proof -
    have "m * sz + sz \<le> n * sz" using Suc.prems mult_le_mono1 [of "Suc m" n sz] by simp
    with assms(3,4) show ?thesis by linarith
  qed
  have "load h mem (obj m) = (if m = 0 then 0 else obj (m - 1))"
    unfolding obj_def load_page [OF assms(1) lt] using assms(7) Suc.prems by (simp add: obj_def)
  moreover have "obj m \<noteq> 0"
    unfolding obj_def using assms(1,2,5) lt
    by (intro in_page_nonzero p2v_aligned) (simp_all add: page_al_iff)
  ultimately show ?case using Suc by simp
qed simp

lemma load_store_same [simp]: "load h (store h va v mem) va = v"
  by (simp add: load_def store_def Let_def)

lemma access_upd_class [simp]:
  "load (upd_class c f h) = load h" "store (upd_class c f h) = store h"
  "heap_p2v (upd_class c f h) = heap_p2v h"
  by (simp_all add: load_def store_def heap_v2p_def heap_p2v_def fun_eq_iff)

lemma chain_cong: "load h = load h' \<Longrightarrow> free_chain h mem p xs = free_chain h' mem p xs"
  by (induction xs arbitrary: p) auto

section \<open>Properties of the heap\<close>

text \<open>
  C38. Growing a class carves a fresh page into a well-formed free list: the list holds every
  object slot of the page exactly once, each slot starts behind the page header and ends
  inside of the page, and the header with the class number is intact.
\<close>

theorem slab_grow_freelist:
  assumes "pa_inv pa" "heap_aligned h" "cid < CARA_HEAP_NUM_CLASSES" "length (h_classes h) = CARA_HEAP_NUM_CLASSES"
    and "hc_obj_size (h_classes h ! cid) = g_class_sizes ! cid"
    and "slab_grow cid (h, pa, mem) = Inr (h', pa', mem')"
  shows "\<exists>page. let fo = unat (slab_first_off (g_class_sizes ! cid)); sz = unat (g_class_sizes ! cid) in
    unat page mod 4096 = 0 \<and> load h' mem' page = ucast SLAB_MAGIC OR push_bit 32 (of_nat cid) \<and>
    free_chain h' mem' (hc_free_head (h_classes h' ! cid))
      (rev (map (\<lambda>j. page + of_nat (fo + j * sz)) [0..<slab_objs cid])) \<and>
    24 \<le> fo \<and> 0 < slab_objs cid \<and> fo + slab_objs cid * sz \<le> 4096"
proof -
  let ?fo = "unat (slab_first_off (g_class_sizes ! cid))" and ?sz = "unat (g_class_sizes ! cid)"
  note geo = slab_geometry [OF assms(3)]
  obtain phys pa1 mem1 where al: "Page_Alloc pa 1 mem = (phys, pa1, mem1)" by (cases "Page_Alloc pa 1 mem")
  with assms(6) have nz: "phys \<noteq> 0" by (auto simp: slab_grow_def)
  have pal: "unat phys mod 4096 = 0" by (rule Page_Alloc_aligned [OF assms(1) al nz])
  let ?page = "heap_p2v h phys" and ?P = "unat phys div 4096"
  let ?hdr = "ucast SLAB_MAGIC OR push_bit 32 (of_nat cid) :: u64"
  let ?mem2 = "store h ?page ?hdr mem1"
  let ?h1 = "upd_class cid (\<lambda>c. c\<lparr>hc_slab_pages := hc_slab_pages c @ [?page]\<rparr>) h"
  have m2: "?mem2 = mem1(?P := (mem1 ?P)(0 := ?hdr))"
    using store_page [OF pal, of 0 h ?hdr mem1] by simp
  from slab_link_words [OF pal _ geo(1,2,3) refl refl, of 0 "slab_objs cid" ?h1 0 ?mem2] geo(5,7)
  obtain mem3 where l: "slab_link ?h1 ?page (slab_first_off (g_class_sizes ! cid)) (g_class_sizes ! cid) 0 (slab_objs cid) 0 ?mem2
        = (?page + of_nat (?fo + (slab_objs cid - 1) * ?sz), mem3)"
    and w: "\<forall>j < slab_objs cid. mem3 ?P ((?fo + j * ?sz) div 8) = (if j = 0 then 0 else ?page + of_nat (?fo + (j - 1) * ?sz))"
    and hd: "\<forall>w. 8 * w < ?fo \<longrightarrow> mem3 ?P w = ?mem2 ?P w" by auto
  have r: "h' = upd_class cid (\<lambda>c. c\<lparr>hc_free_head := ?page + of_nat (?fo + (slab_objs cid - 1) * ?sz)\<rparr>) ?h1" "mem' = mem3"
    using assms(3,4,5,6) al nz l geo(6) by (auto simp: slab_grow_def Let_def)
  have "load h' mem' ?page = ?hdr"
    using load_page [OF pal, of 0 h mem3] hd geo(4) m2 by (simp add: r)
  moreover have "free_chain h mem3 (if slab_objs cid = 0 then 0 else ?page + of_nat (?fo + (slab_objs cid - 1) * ?sz))
      (rev (map (\<lambda>j. ?page + of_nat (?fo + j * ?sz)) [0..<slab_objs cid]))"
    using geo(3,4,5) w by (intro chain_from_words [OF pal assms(2), of ?fo "slab_objs cid"]) auto
  then have "free_chain h' mem' (hc_free_head (h_classes h' ! cid))
      (rev (map (\<lambda>j. ?page + of_nat (?fo + j * ?sz)) [0..<slab_objs cid]))"
    using chain_cong [of h' h] geo(7) assms(3,4) by (simp add: r)
  moreover have "unat ?page mod 4096 = 0"
    using p2v_aligned [OF assms(2), of phys] pal by (simp add: page_al_iff)
  ultimately show ?thesis using geo(4,5,7) by (intro exI [of _ ?page]) (simp add: Let_def)
qed


text \<open>
  C40. The size of a large block: for requests below 2^44 - 4104 bytes the pages taken hold the
  header and the request and no page more; the sum and the 32-bit page count are not checked,
  so that a request of 2^44 bytes, or of 2^64 - 1, is served with a single page.
\<close>

theorem large_pages_bounds:
  assumes "unat sz < 2 ^ 44 - 4104"
  shows "unat sz + 8 \<le> unat (large_pages sz) * 4096 \<and> unat (large_pages sz) * 4096 < unat sz + 8 + 4096 \<and>
    large_pages (2 ^ 44) = 1 \<and> large_pages (- 1) = 1"
proof -
  have "unat (sz + sizeof_LargeHeader + CARA_PAGE_SIZE - 1) = unat sz + 4103"
  proof -
    have e: "sz + sizeof_LargeHeader + CARA_PAGE_SIZE - 1 = sz + 4103"
      by (simp add: sizeof_LargeHeader_def CARA_PAGE_SIZE_def)
    show ?thesis unfolding e using assms by (simp add: unat_word_ariths)
  qed
  then have q: "unat ((sz + sizeof_LargeHeader + CARA_PAGE_SIZE - 1) div CARA_PAGE_SIZE) = (unat sz + 4103) div 4096"
    by (simp add: unat_div CARA_PAGE_SIZE_def)
  have "(unat sz + 4103) div 4096 < 2 ^ 32" using assms by (simp add: div_less_iff_less_mult)
  then have n: "unat (large_pages sz) = (unat sz + 4103) div 4096"
    unfolding large_pages_def by (simp add: unsigned_ucast_eq q take_bit_nat_eq_self)
  have "large_pages (2 ^ 44) = 1" "large_pages (- 1) = 1"
    by (simp_all add: large_pages_def sizeof_LargeHeader_def CARA_PAGE_SIZE_def)
  moreover have "unat sz + 8 \<le> (unat sz + 4103) div 4096 * 4096" "(unat sz + 4103) div 4096 * 4096 < unat sz + 4104"
    by linarith+
  ultimately show ?thesis by (simp add: n)
qed

section \<open>The properties on an example\<close>

lemma pa_ex_one: "Page_Alloc pa_ex 1 mem = (0x80001000, snd (Page_Alloc pa_ex 1 mem))"
  by (simp add: Page_Alloc_def pa_ex_def run_ex_def page_scan.simps Let_def run_phys_def CARA_PAGE_SIZE_def)

theorem slab_grow_freelist_witness:
  "\<exists>h' pa' mem' page. slab_grow 7 (Heap_Init, pa_ex, \<lambda>_ _. 0) = Inr (h', pa', mem') \<and>
     free_chain h' mem' (hc_free_head (h_classes h' ! 7)) [page + 2048]"
proof -
  obtain pa1 mem1 where a: "Page_Alloc pa_ex 1 (\<lambda>_ _. 0) = (0x80001000, pa1, mem1)"
    using pa_ex_one [of "\<lambda>_ _. 0"] by (metis prod.collapse)
  obtain h' pa' mem' where g: "slab_grow 7 (Heap_Init, pa_ex, \<lambda>_ _. 0) = Inr (h', pa', mem')"
    by (simp add: slab_grow_def a Let_def split_def)
  have p: "heap_aligned Heap_Init" "(7::nat) < CARA_HEAP_NUM_CLASSES" "length (h_classes Heap_Init) = CARA_HEAP_NUM_CLASSES"
    "hc_obj_size (h_classes Heap_Init ! 7) = g_class_sizes ! 7"
    by (simp_all add: heap_aligned_def page_al_iff Heap_Init_def CARA_HEAP_NUM_CLASSES_def g_class_sizes_def)
  have "slab_objs 7 = 1" "unat (slab_first_off (g_class_sizes ! 7)) = 2048"
    by (simp_all add: slab_objs_def slab_first_off_def g_class_sizes_def sizeof_SlabHeader_def)
  with slab_grow_freelist [OF pa_ex_inv p g] g show ?thesis by (auto simp: Let_def)
qed


theorem large_pages_bounds_witness: "unat (5000::u64) + 8 \<le> unat (large_pages 5000) * 4096"
  using large_pages_bounds [of 5000] by simp

end
