(* ===== verification/Semaphores.thy ===== *)
theory Semaphores
  imports Scheduler
begin

text \<open>
  Signal semaphores (src/src/croi/exec_lib/sem.c) on top of the scheduler's signals.

  A semaphore's wait queue is the list of the waiters named by its requests, in order.  A call
  of \<open>Croi_ObtainSemaphore_Impl\<close> that blocks is suspended inside \<open>Croi_Wait\<close>; the scheduler's
  \<open>wait_loop\<close> says that the task is still in that loop.  A null semaphore, which every call
  ignores, is not represented.
\<close>

unbundle bit_operations_syntax

section \<open>Semaphores\<close>

definition NT_SIGNALSEM :: u8 where "NT_SIGNALSEM = 15"
definition SIGF_SINGLE :: u32 where "SIGF_SINGLE = 0x10"

record SignalSemaphore =
  ss_Type :: u8
  ss_Pri :: u8
  ss_Name :: "string option"
  ss_NestCount :: "16 word"
  ss_WaitQueue :: "tid option list"
  ss_Owner :: "tid option"
  ss_QueueCount :: "16 word"

definition Croi_InitSemaphore_Impl :: SignalSemaphore where
  "Croi_InitSemaphore_Impl = \<lparr>ss_Type = NT_SIGNALSEM, ss_Pri = 0, ss_Name = None, ss_NestCount = 0, ss_WaitQueue = [],
     ss_Owner = None, ss_QueueCount = -1\<rparr>"

text \<open>The first component is \<open>None\<close> when the call returns without waiting, else what the wait did.\<close>

definition Croi_ObtainSemaphore_Impl ::
  "SignalSemaphore \<Rightarrow> sched \<Rightarrow> wait_result option \<times> SignalSemaphore \<times> sched" where
  "Croi_ObtainSemaphore_Impl sem s =
    (let me = g_current s in
     if ss_Owner sem = None then (None, sem\<lparr>ss_Owner := me, ss_NestCount := 1\<rparr>, s)
     else if ss_Owner sem = me then (None, sem\<lparr>ss_NestCount := ss_NestCount sem + 1\<rparr>, s)
     else let sem1 = sem\<lparr>ss_WaitQueue := ss_WaitQueue sem @ [me], ss_QueueCount := ss_QueueCount sem + 1\<rparr>;
              s1 = snd (Croi_SetSignal 0 SIGF_SINGLE s);
              (r, s2) = Croi_Wait SIGF_SINGLE s1
          in (Some r, sem1, s2))"

definition Croi_ReleaseSemaphore_Impl :: "SignalSemaphore \<Rightarrow> sched \<Rightarrow> SignalSemaphore \<times> sched" where
  "Croi_ReleaseSemaphore_Impl sem s =
    (let sem1 = (if sint (ss_NestCount sem) > 0 then sem\<lparr>ss_NestCount := ss_NestCount sem - 1\<rparr> else sem) in
     if ss_NestCount sem1 \<noteq> 0 then (sem1, s)
     else case ss_WaitQueue sem1 of
       [] \<Rightarrow> (sem1\<lparr>ss_Owner := None\<rparr>, s)
     | w # q \<Rightarrow>
         (sem1\<lparr>ss_WaitQueue := q, ss_QueueCount := ss_QueueCount sem1 - 1, ss_Owner := w, ss_NestCount := 1\<rparr>,
          case w of None \<Rightarrow> s | Some t \<Rightarrow> Croi_Signal t SIGF_SINGLE s))"

definition Croi_AttemptSemaphore_Impl :: "SignalSemaphore \<Rightarrow> sched \<Rightarrow> bool \<times> SignalSemaphore" where
  "Croi_AttemptSemaphore_Impl sem s =
    (let me = g_current s in
     if ss_Owner sem = None then (True, sem\<lparr>ss_Owner := me, ss_NestCount := 1\<rparr>)
     else if ss_Owner sem = me then (True, sem\<lparr>ss_NestCount := ss_NestCount sem + 1\<rparr>)
     else (False, sem))"

section \<open>Executions with one semaphore\<close>

text \<open>
  \<open>held t\<close> counts the calls of task \<open>t\<close> that have obtained the semaphore and are not yet
  released; \<open>blocked\<close> holds the tasks inside a blocking obtain.  The rules are any scheduler
  calls and any semaphore calls, with two obligations of the programs: a release is paired
  with an obtain of the same task, nested less than 32767 deep, and nobody but a release
  sends \<open>SIGF_SINGLE\<close> to a task that is blocked in an obtain.
\<close>

record semsys =
  sem :: SignalSemaphore
  sch :: sched
  held :: "tid \<Rightarrow> nat"
  blocked :: "tid set"

definition single_pending :: "sched \<Rightarrow> tid \<Rightarrow> bool" where
  "single_pending s t \<longleftrightarrow> tc_SigRecvd (tasks s t) AND SIGF_SINGLE \<noteq> 0"

inductive sem_step :: "semsys \<Rightarrow> semsys \<Rightarrow> bool" where
  sem_obtain: "\<not> halted (sch x) \<Longrightarrow> g_current (sch x) = Some c \<Longrightarrow> wait_loop (sch x) c = None \<Longrightarrow> held x c < 32767 \<Longrightarrow>
    Croi_ObtainSemaphore_Impl (sem x) (sch x) = (r, sem', s') \<Longrightarrow>
    sem_step x (if r = None then x\<lparr>sem := sem', sch := s', held := (held x)(c := held x c + 1)\<rparr>
                else x\<lparr>sem := sem', sch := s', blocked := insert c (blocked x)\<rparr>)"
| sem_attempt: "\<not> halted (sch x) \<Longrightarrow> g_current (sch x) = Some c \<Longrightarrow> wait_loop (sch x) c = None \<Longrightarrow> held x c < 32767 \<Longrightarrow>
    Croi_AttemptSemaphore_Impl (sem x) (sch x) = (ok, sem') \<Longrightarrow>
    sem_step x (x\<lparr>sem := sem', held := (if ok then (held x)(c := held x c + 1) else held x)\<rparr>)"
| sem_release: "\<not> halted (sch x) \<Longrightarrow> g_current (sch x) = Some c \<Longrightarrow> wait_loop (sch x) c = None \<Longrightarrow> held x c > 0 \<Longrightarrow>
    Croi_ReleaseSemaphore_Impl (sem x) (sch x) = (sem', s') \<Longrightarrow>
    sem_step x (x\<lparr>sem := sem', sch := s', held := (held x)(c := held x c - 1)\<rparr>)"
| sem_wake: "\<not> halted (sch x) \<Longrightarrow> g_current (sch x) = Some c \<Longrightarrow> c \<in> blocked x \<Longrightarrow> wait_loop (sch x) c = Some m \<Longrightarrow>
    Croi_Wait m (sch x) = (WaitReturns hit, s') \<Longrightarrow>
    sem_step x (x\<lparr>sch := s', held := (held x)(c := held x c + 1), blocked := blocked x - {c}\<rparr>)"
| sem_other: "sched_step (sch x) s' \<Longrightarrow>
    (\<And>t. t \<in> blocked x \<Longrightarrow> wait_loop s' t = wait_loop (sch x) t \<and> single_pending s' t = single_pending (sch x) t) \<Longrightarrow>
    sem_step x (x\<lparr>sch := s'\<rparr>)"

definition sem_init :: "sched \<Rightarrow> semsys" where
  "sem_init s = \<lparr>sem = Croi_InitSemaphore_Impl, sch = s, held = (\<lambda>_. 0), blocked = {}\<rparr>"

text \<open>A blocked task is queued, or has been made the owner and has the signal pending.\<close>

definition owner_ok :: "semsys \<Rightarrow> tid list \<Rightarrow> bool" where
  "owner_ok x q = (case ss_Owner (sem x) of
      None \<Rightarrow> q = [] \<and> ss_NestCount (sem x) = 0
    | Some w \<Rightarrow> w \<notin> set q \<and> held x w \<le> 32767 \<and>
        (if held x w = 0 then w \<in> blocked x \<and> single_pending (sch x) w \<and> ss_NestCount (sem x) = 1
         else ss_NestCount (sem x) = of_nat (held x w)))"

definition sem_ok :: "semsys \<Rightarrow> tid list \<Rightarrow> bool" where
  "sem_ok x q \<longleftrightarrow> ss_WaitQueue (sem x) = map Some q \<and> distinct q \<and> set q \<subseteq> blocked x \<and>
     (\<forall>t \<in> set q. \<not> single_pending (sch x) t) \<and>
     (\<forall>t \<in> blocked x. wait_loop (sch x) t = Some SIGF_SINGLE \<and> held x t = 0 \<and>
        (t \<in> set q \<or> ss_Owner (sem x) = Some t)) \<and>
     (\<forall>t. held x t > 0 \<longrightarrow> ss_Owner (sem x) = Some t) \<and> owner_ok x q"

lemma sem_init_ok: "sem_ok (sem_init s) []"
  by (simp add: sem_ok_def owner_ok_def sem_init_def Croi_InitSemaphore_Impl_def)

lemma sem_okD:
  assumes "sem_ok x q"
  shows "ss_WaitQueue (sem x) = map Some q" "distinct q" "set q \<subseteq> blocked x"
    "t \<in> set q \<Longrightarrow> \<not> single_pending (sch x) t"
    "t \<in> blocked x \<Longrightarrow> wait_loop (sch x) t = Some SIGF_SINGLE"
    "t \<in> blocked x \<Longrightarrow> held x t = 0"
    "t \<in> blocked x \<Longrightarrow> t \<in> set q \<or> ss_Owner (sem x) = Some t"
    "held x t > 0 \<Longrightarrow> ss_Owner (sem x) = Some t" "owner_ok x q"
  using assms by (simp_all add: sem_ok_def)

lemma sem_okI:
  assumes "ss_WaitQueue (sem x) = map Some q" "distinct q" "set q \<subseteq> blocked x"
    "\<And>t. t \<in> set q \<Longrightarrow> \<not> single_pending (sch x) t"
    "\<And>t. t \<in> blocked x \<Longrightarrow> wait_loop (sch x) t = Some SIGF_SINGLE"
    "\<And>t. t \<in> blocked x \<Longrightarrow> held x t = 0"
    "\<And>t. t \<in> blocked x \<Longrightarrow> t \<in> set q \<or> ss_Owner (sem x) = Some t"
    "\<And>t. held x t > 0 \<Longrightarrow> ss_Owner (sem x) = Some t" "owner_ok x q"
  shows "sem_ok x q"
  using assms by (simp add: sem_ok_def)

subsection \<open>What the calls do to waits and pending signals\<close>

lemma obtain_blocks:
  assumes "g_current s = Some c" "ss_Owner sm \<noteq> None" "ss_Owner sm \<noteq> Some c"
    and "Croi_ObtainSemaphore_Impl sm s = (r, sm', s')" "\<not> halted s'"
  shows "r \<noteq> None \<and> sm' = sm\<lparr>ss_WaitQueue := ss_WaitQueue sm @ [Some c], ss_QueueCount := ss_QueueCount sm + 1\<rparr> \<and>
    wait_loop s' = (wait_loop s)(c := Some SIGF_SINGLE) \<and>
    (\<forall>t. single_pending s' t \<longleftrightarrow> t \<noteq> c \<and> single_pending s t)"
proof -
  let ?s1 = "upd_task c (\<lambda>t. t\<lparr>tc_SigRecvd := tc_SigRecvd (tasks s c) AND NOT SIGF_SINGLE\<rparr>) s"
  have s1: "snd (Croi_SetSignal 0 SIGF_SINGLE s) = ?s1"
    using assms(1) by (simp add: Croi_SetSignal_def Let_def)
  have clr: "(tc_SigRecvd (tasks s c) AND NOT SIGF_SINGLE) AND SIGF_SINGLE = 0"
    by (simp add: and.assoc)
  have nz: "SIGF_SINGLE \<noteq> 0" by (simp add: SIGF_SINGLE_def)
  obtain r' s2 where w: "Croi_Wait SIGF_SINGLE ?s1 = (r', s2)" by (cases "Croi_Wait SIGF_SINGLE ?s1")
  have o: "r = Some r'" "s' = s2" "sm' = sm\<lparr>ss_WaitQueue := ss_WaitQueue sm @ [Some c], ss_QueueCount := ss_QueueCount sm + 1\<rparr>"
    using assms(1-4) s1 w by (auto simp: Croi_ObtainSemaphore_Impl_def Let_def)
  obtain n rest where q: "g_runq s = n # rest"
    using w assms(1,5) o(2) clr nz by (cases "g_runq s") (auto simp: Croi_Wait_def Let_def)
  have "s2 = dispatch n (upd_task n (\<lambda>t. t\<lparr>tc_State := TS_RUN\<rparr>)
      ((upd_task c (\<lambda>t. t\<lparr>tc_SigWait := SIGF_SINGLE, tc_State := TS_WAIT\<rparr>) ?s1)
        \<lparr>g_sleepers := g_sleepers s @ [c], g_runq := rest, wait_loop := (wait_loop s)(c := Some SIGF_SINGLE)\<rparr>))"
    using w assms(1) q clr nz by (simp add: Croi_Wait_def Let_def)
  then show ?thesis using o clr by (simp add: single_pending_def)
qed

lemma signal_pending:
  "wait_loop (Croi_Signal t SIGF_SINGLE s) = wait_loop s"
  "single_pending (Croi_Signal t SIGF_SINGLE s) u \<longleftrightarrow> u = t \<or> single_pending s u"
proof -
  have nz: "SIGF_SINGLE \<noteq> 0" by (simp add: SIGF_SINGLE_def)
  show "wait_loop (Croi_Signal t SIGF_SINGLE s) = wait_loop s"
    by (simp add: Croi_Signal_def Let_def)
  have r: "tc_SigRecvd (tasks (Croi_Signal t SIGF_SINGLE s) u)
      = (if u = t then tc_SigRecvd (tasks s t) OR SIGF_SINGLE else tc_SigRecvd (tasks s u))"
    using nz by (simp add: Croi_Signal_def Let_def)
  have "(tc_SigRecvd (tasks s t) OR SIGF_SINGLE) AND SIGF_SINGLE = SIGF_SINGLE"
    by (rule bit_word_eqI) (auto simp: bit_simps)
  with nz show "single_pending (Croi_Signal t SIGF_SINGLE s) u \<longleftrightarrow> u = t \<or> single_pending s u"
    unfolding single_pending_def r by simp
qed

lemma wait_returns:
  assumes "g_current s = Some c" "Croi_Wait SIGF_SINGLE s = (WaitReturns hit, s')"
  shows "single_pending s c" "wait_loop s' = (wait_loop s)(c := None)"
    "u \<noteq> c \<Longrightarrow> single_pending s' u = single_pending s u"
proof -
  have nz: "SIGF_SINGLE \<noteq> 0" by (simp add: SIGF_SINGLE_def)
  show p: "single_pending s c"
    using assms nz by (auto simp: Croi_Wait_def Let_def single_pending_def split: if_splits list.splits)
  have "s' = (upd_task c (\<lambda>t. t\<lparr>tc_SigRecvd := tc_SigRecvd t AND NOT (tc_SigRecvd (tasks s c) AND SIGF_SINGLE), tc_SigWait := 0\<rparr>) s)
      \<lparr>wait_loop := (wait_loop s)(c := None)\<rparr>"
    using assms nz p by (auto simp: Croi_Wait_def Let_def single_pending_def)
  then show "wait_loop s' = (wait_loop s)(c := None)" "u \<noteq> c \<Longrightarrow> single_pending s' u = single_pending s u"
    by (simp_all add: single_pending_def)
qed

lemma nest_positive:
  assumes "0 < n" "n \<le> 32767"
  shows "sint (of_nat n :: 16 word) > 0" "(of_nat n :: 16 word) - 1 = of_nat (n - 1)"
    "of_nat (n - 1) = (0 :: 16 word) \<longleftrightarrow> n = 1"
proof -
  have "sint (of_nat n :: 16 word) = int n"
    using assms by (simp add: signed_of_nat signed_take_bit_int_eq_self)
  then show "sint (of_nat n :: 16 word) > 0" using assms by simp
  show "(of_nat n :: 16 word) - 1 = of_nat (n - 1)" using assms(1) by (simp add: of_nat_diff)
  have "unat (of_nat (n - 1) :: 16 word) = n - 1" using assms(2) by (simp add: unat_of_nat)
  then show "of_nat (n - 1) = (0 :: 16 word) \<longleftrightarrow> n = 1"
    using assms(1) unat_eq_zero [of "of_nat (n - 1) :: 16 word"] by auto
qed

subsection \<open>The invariant\<close>

text \<open>Taking a semaphore that is free or already held, by obtain or attempt.\<close>

lemma ok_take_free:
  assumes "sem_ok x q" "ss_Owner (sem x) = None"
  shows "sem_ok (x\<lparr>sem := (sem x)\<lparr>ss_Owner := Some c, ss_NestCount := 1\<rparr>, held := (held x)(c := held x c + 1)\<rparr>) []"
proof -
  note d = sem_okD [OF assms(1)]
  have q: "q = []" using d(9) assms(2) by (simp add: owner_ok_def)
  have h: "held x t = 0" for t using d(8) [of t] assms(2) by (cases "held x t") auto
  have "blocked x = {}" using d(7) q assms(2) by auto
  with q h d(1) show ?thesis by (intro sem_okI) (auto simp: owner_ok_def split: if_splits)
qed

lemma ok_take_again:
  assumes "sem_ok x q" "ss_Owner (sem x) = Some c" "wait_loop (sch x) c = None" "held x c < 32767"
  shows "sem_ok (x\<lparr>sem := (sem x)\<lparr>ss_NestCount := ss_NestCount (sem x) + 1\<rparr>, held := (held x)(c := held x c + 1)\<rparr>) q"
proof -
  note d = sem_okD [OF assms(1)]
  have c: "c \<notin> blocked x" using d(5) [of c] assms(3) by auto
  have "held x c \<noteq> 0" "ss_NestCount (sem x) = of_nat (held x c)" "c \<notin> set q"
    using d(9) assms(2) c by (auto simp: owner_ok_def split: if_splits)
  then have "owner_ok (x\<lparr>sem := (sem x)\<lparr>ss_NestCount := ss_NestCount (sem x) + 1\<rparr>, held := (held x)(c := held x c + 1)\<rparr>) q"
    using assms(2,4) by (simp add: owner_ok_def)
  with d(1,2,3) show ?thesis
  proof (intro sem_okI)
    fix t
    assume "t \<in> blocked (x\<lparr>sem := (sem x)\<lparr>ss_NestCount := ss_NestCount (sem x) + 1\<rparr>, held := (held x)(c := held x c + 1)\<rparr>)"
    then have t: "t \<in> blocked x" "t \<noteq> c" using c by auto
    show "held (x\<lparr>sem := (sem x)\<lparr>ss_NestCount := ss_NestCount (sem x) + 1\<rparr>, held := (held x)(c := held x c + 1)\<rparr>) t = 0"
      using t d(6) by simp
  qed (use d(4,5,7,8) assms(2) in \<open>auto split: if_splits\<close>)
qed

lemma ok_block:
  assumes "sem_ok x q" "ss_Owner (sem x) \<noteq> None" "ss_Owner (sem x) \<noteq> Some c" "wait_loop (sch x) c = None"
    and "sm' = (sem x)\<lparr>ss_WaitQueue := ss_WaitQueue (sem x) @ [Some c], ss_QueueCount := ss_QueueCount (sem x) + 1\<rparr>"
    and "wait_loop s' = (wait_loop (sch x))(c := Some SIGF_SINGLE)"
    and "\<forall>t. single_pending s' t \<longleftrightarrow> t \<noteq> c \<and> single_pending (sch x) t"
  shows "sem_ok (x\<lparr>sem := sm', sch := s', blocked := insert c (blocked x)\<rparr>) (q @ [c])"
proof -
  note d = sem_okD [OF assms(1)]
  have c: "c \<notin> blocked x" using d(5) [of c] assms(4) by auto
  have h: "held x c = 0" using d(8) [of c] assms(3) by (cases "held x c") auto
  have "owner_ok (x\<lparr>sem := sm', sch := s', blocked := insert c (blocked x)\<rparr>) (q @ [c])"
    using d(9) assms(2,3,5,7) by (auto simp: owner_ok_def split: option.splits if_splits)
  moreover have "t \<in> set q \<or> t = c \<or> ss_Owner (sem x) = Some t" if "t = c \<or> t \<in> blocked x" for t
    using d(7) [of t] that by blast
  ultimately show ?thesis
    using d(1,2,3,4,5,6,8) c h assms(5,6,7) by (intro sem_okI) auto
qed

lemma ok_release:
  assumes "sem_ok x q" "held x c > 0" "Croi_ReleaseSemaphore_Impl (sem x) (sch x) = (sm', s')"
  shows "\<exists>q'. sem_ok (x\<lparr>sem := sm', sch := s', held := (held x)(c := held x c - 1)\<rparr>) q'"
proof -
  note d = sem_okD [OF assms(1)]
  have own: "ss_Owner (sem x) = Some c" using d(8) assms(2) by blast
  have cq: "c \<notin> blocked x" "c \<notin> set q" using d(3) d(6) [of c] assms(2) by auto
  have h: "held x t = 0" if "t \<noteq> c" for t using d(8) [of t] own that by (cases "held x t") auto
  have nest: "ss_NestCount (sem x) = of_nat (held x c)" "held x c \<le> 32767"
    using d(9) own assms(2) by (auto simp: owner_ok_def)
  note n = nest_positive [OF assms(2) nest(2)]
  have bq: "blocked x = set q" using d(3,7) own cq by auto
  show ?thesis
  proof (cases "held x c = 1")
    case False
    then have "sm' = (sem x)\<lparr>ss_NestCount := of_nat (held x c - 1)\<rparr>" "s' = sch x"
      using assms(3) nest(1) n by (auto simp: Croi_ReleaseSemaphore_Impl_def Let_def)
    moreover have "held x c - 1 > 0" "held x c - 1 \<le> 32767" using False assms(2) nest(2) by auto
    ultimately have "sem_ok (x\<lparr>sem := sm', sch := s', held := (held x)(c := held x c - 1)\<rparr>) q"
      using d(1,2,4,5) h own cq bq by (intro sem_okI) (auto simp: owner_ok_def split: if_splits)
    then show ?thesis by blast
  next
    case True
    show ?thesis
    proof (cases q)
      case Nil
      then have "sm' = (sem x)\<lparr>ss_NestCount := 0, ss_Owner := None\<rparr>" "s' = sch x"
        using assms(3) nest(1) True d(1) by (auto simp: Croi_ReleaseSemaphore_Impl_def Let_def)
      then have "sem_ok (x\<lparr>sem := sm', sch := s', held := (held x)(c := held x c - 1)\<rparr>) []"
        using d(1) Nil h True bq by (intro sem_okI) (auto simp: owner_ok_def split: if_splits)
      then show ?thesis by blast
    next
      case (Cons w r)
      then have "sm' = (sem x)\<lparr>ss_NestCount := 1, ss_WaitQueue := map Some r,
          ss_QueueCount := ss_QueueCount (sem x) - 1, ss_Owner := Some w\<rparr>" "s' = Croi_Signal w SIGF_SINGLE (sch x)"
        using assms(3) nest(1) True d(1) by (auto simp: Croi_ReleaseSemaphore_Impl_def Let_def)
      then have "sem_ok (x\<lparr>sem := sm', sch := s', held := (held x)(c := held x c - 1)\<rparr>) r"
        using d(2,4,5) Cons h True bq cq
        by (intro sem_okI) (auto simp: owner_ok_def signal_pending split: if_splits)
      then show ?thesis by blast
    qed
  qed
qed

lemma ok_wake:
  assumes "sem_ok x q" "g_current (sch x) = Some c" "c \<in> blocked x"
    and "Croi_Wait SIGF_SINGLE (sch x) = (WaitReturns hit, s')"
  shows "sem_ok (x\<lparr>sch := s', held := (held x)(c := held x c + 1), blocked := blocked x - {c}\<rparr>) q"
proof -
  note d = sem_okD [OF assms(1)] and w = wait_returns [OF assms(2,4)]
  have cq: "c \<notin> set q" using d(4) w(1) by blast
  have own: "ss_Owner (sem x) = Some c" using d(7) assms(3) cq by blast
  have hc: "held x c = 0" using d(6) assms(3) by blast
  have h: "held x t = 0" for t using d(8) [of t] own hc by (cases "held x t") auto
  have bq: "blocked x - {c} = set q" using d(3,7) own cq by auto
  have "ss_NestCount (sem x) = 1" using d(9) own hc by (simp add: owner_ok_def)
  moreover have "\<not> single_pending s' t \<and> wait_loop s' t = Some SIGF_SINGLE" if "t \<in> set q" for t
    using that d(3) d(4,5) [of t] w(2) w(3) [of t] cq by auto
  ultimately show ?thesis
    using d(1,2) cq own h bq by (intro sem_okI) (auto simp: owner_ok_def split: if_splits)
qed

lemma ok_step:
  assumes "sem_step x y" "sem_ok x q" "\<not> halted (sch y)"
  shows "\<exists>q'. sem_ok y q'"
  using assms(1)
proof cases
  case (sem_obtain c r sm' s')
  consider (free) "ss_Owner (sem x) = None" | (own) "ss_Owner (sem x) = Some c"
    | (busy) "ss_Owner (sem x) \<noteq> None" "ss_Owner (sem x) \<noteq> Some c" by blast
  then show ?thesis
  proof cases
    case free
    then show ?thesis
      using sem_obtain ok_take_free [OF assms(2) free, of c] by (auto simp: Croi_ObtainSemaphore_Impl_def Let_def)
  next
    case own
    then show ?thesis
      using sem_obtain ok_take_again [OF assms(2) own] by (auto simp: Croi_ObtainSemaphore_Impl_def Let_def)
  next
    case busy
    have "\<not> halted s'" using sem_obtain assms(3) by (auto split: if_splits)
    then show ?thesis
      using sem_obtain obtain_blocks [OF sem_obtain(3) busy sem_obtain(6)] ok_block [OF assms(2) busy sem_obtain(4), of sm' s']
      by auto
  qed
next
  case (sem_attempt c ok sm')
  consider (free) "ss_Owner (sem x) = None" | (own) "ss_Owner (sem x) = Some c"
    | (busy) "ss_Owner (sem x) \<noteq> None" "ss_Owner (sem x) \<noteq> Some c" by blast
  then show ?thesis
    using sem_attempt ok_take_free [OF assms(2), of c] ok_take_again [OF assms(2)] assms(2)
    by cases (auto simp: Croi_AttemptSemaphore_Impl_def Let_def)
next
  case (sem_release c sm' s')
  then show ?thesis using ok_release [OF assms(2)] by blast
next
  case (sem_wake c m hit s')
  then show ?thesis using ok_wake [OF assms(2)] sem_okD(5) [OF assms(2), of c] by auto
next
  case (sem_other s')
  note d = sem_okD [OF assms(2)]
  have "owner_ok (x\<lparr>sch := s'\<rparr>) q"
    using d(9) sem_other(3) by (auto simp: owner_ok_def split: option.splits if_splits)
  then have "sem_ok (x\<lparr>sch := s'\<rparr>) q"
    using d(1-8) sem_other(3) by (intro sem_okI) auto
  with sem_other show ?thesis by blast
qed

lemma ok_reach:
  assumes "sem_step\<^sup>*\<^sup>* (sem_init s) x" "\<not> halted (sch x)"
  shows "\<exists>q. sem_ok x q"
  using assms
proof (induction rule: rtranclp_induct)
  case base
  show ?case using sem_init_ok by blast
next
  case (step y z)
  have "\<not> halted (sch y)" using step.hyps(2) by cases (auto dest: halted_final)
  with step show ?case using ok_step by blast
qed

text \<open>
  C12. Mutual exclusion of signal semaphores.  In every reachable state at most one task holds
  the semaphore, the owner field names it and the nest count is the number of its obtains not
  yet released.  A task blocked in \<open>ObtainSemaphore\<close> is in the wait queue, or the semaphore has
  been handed to it and the signal that ends its wait is pending: no waiter is left behind.
\<close>

theorem semaphore_mutual_exclusion:
  assumes "sem_step\<^sup>*\<^sup>* (sem_init s) x" and "\<not> halted (sch x)"
  shows "(held x t > 0 \<and> held x u > 0 \<longrightarrow> t = u) \<and>
    (held x t > 0 \<longrightarrow> ss_Owner (sem x) = Some t \<and> ss_NestCount (sem x) = of_nat (held x t)) \<and>
    (t \<in> blocked x \<longrightarrow> held x t = 0 \<and> (Some t \<in> set (ss_WaitQueue (sem x)) \<and> ss_Owner (sem x) \<noteq> None \<or>
      ss_Owner (sem x) = Some t \<and> ss_NestCount (sem x) = 1 \<and> single_pending (sch x) t))"
proof (intro conjI)
  obtain q where q: "sem_ok x q" using ok_reach [OF assms] by blast
  note d = sem_okD [OF q]
  show "held x t > 0 \<and> held x u > 0 \<longrightarrow> t = u" using d(8) [of t] d(8) [of u] by auto
  show "held x t > 0 \<longrightarrow> ss_Owner (sem x) = Some t \<and> ss_NestCount (sem x) = of_nat (held x t)"
    using d(8) [of t] d(9) by (auto simp: owner_ok_def)
  show "t \<in> blocked x \<longrightarrow> held x t = 0 \<and> (Some t \<in> set (ss_WaitQueue (sem x)) \<and> ss_Owner (sem x) \<noteq> None \<or>
      ss_Owner (sem x) = Some t \<and> ss_NestCount (sem x) = 1 \<and> single_pending (sch x) t)"
    using d(1) d(6,7) [of t] d(9) by (auto simp: owner_ok_def split: option.splits if_splits)
qed

text \<open>Task 7 obtains the semaphore and yields; task 8 blocks on it; task 7 releases it.\<close>

definition sem_ex1 :: semsys where
  "sem_ex1 = (sem_init sched2)\<lparr>sem := Croi_InitSemaphore_Impl\<lparr>ss_Owner := Some 7, ss_NestCount := 1\<rparr>,
     held := (\<lambda>_. 0)(7 := 1)\<rparr>"

definition sem_ex2 :: semsys where
  "sem_ex2 = sem_ex1\<lparr>sch := Croi_Yield sched2\<rparr>"

definition sem_ex3 :: semsys where
  "sem_ex3 = (case Croi_ObtainSemaphore_Impl (sem sem_ex2) (sch sem_ex2) of
     (r, m, s) \<Rightarrow> sem_ex2\<lparr>sem := m, sch := s, blocked := {8}\<rparr>)"

definition sem_ex4 :: semsys where
  "sem_ex4 = (case Croi_ReleaseSemaphore_Impl (sem sem_ex3) (sch sem_ex3) of
     (m, s) \<Rightarrow> sem_ex3\<lparr>sem := m, sch := s, held := (held sem_ex3)(7 := 0)\<rparr>)"

lemma sem_ex_values:
  "g_current (sch sem_ex2) = Some 8" "wait_loop (sch sem_ex2) 8 = None" "held sem_ex2 8 = 0" "\<not> halted (sch sem_ex2)"
  "fst (Croi_ObtainSemaphore_Impl (sem sem_ex2) (sch sem_ex2)) \<noteq> None"
  "g_current (sch sem_ex3) = Some 7" "wait_loop (sch sem_ex3) 7 = None" "held sem_ex3 7 = 1" "\<not> halted (sch sem_ex3)"
  "\<not> halted (sch sem_ex4)" "ss_WaitQueue (sem sem_ex4) = []"
  by code_simp+

lemma sem_ex_blocked: "blocked sem_ex1 = {}" "blocked sem_ex2 = {}" "blocked sem_ex3 = {8}" "blocked sem_ex4 = {8}"
  by (simp_all add: sem_ex1_def sem_ex2_def sem_ex3_def sem_ex4_def sem_init_def split: prod.splits)

lemma sem_ex_reach: "sem_step\<^sup>*\<^sup>* (sem_init sched2) sem_ex4"
proof -
  have o: "Croi_ObtainSemaphore_Impl (sem (sem_init sched2)) (sch (sem_init sched2)) =
      (None, Croi_InitSemaphore_Impl\<lparr>ss_Owner := Some 7, ss_NestCount := 1\<rparr>, sched2)"
    by (simp add: Croi_ObtainSemaphore_Impl_def sem_init_def Croi_InitSemaphore_Impl_def sched_ex_values)
  have 1: "sem_step (sem_init sched2) sem_ex1"
    using sem_step.sem_obtain [OF _ _ _ _ o, of 7] by (simp add: sem_init_def sem_ex1_def sched_ex_values)
  have "sched_step sched2 (Croi_Yield sched2)" by (rule step_yield [of _ 7]) (simp_all add: sched_ex_values)
  then have 2: "sem_step sem_ex1 sem_ex2"
    unfolding sem_ex2_def by (intro sem_step.sem_other) (simp_all add: sem_ex1_def sem_init_def)
  obtain r m s where b: "Croi_ObtainSemaphore_Impl (sem sem_ex2) (sch sem_ex2) = (r, m, s)"
    by (cases "Croi_ObtainSemaphore_Impl (sem sem_ex2) (sch sem_ex2)") auto
  have 3: "sem_step sem_ex2 sem_ex3"
    using sem_step.sem_obtain [OF _ _ _ _ b, of 8] sem_ex_values b by (auto simp: sem_ex3_def sem_ex_blocked)
  obtain m' s' where c: "Croi_ReleaseSemaphore_Impl (sem sem_ex3) (sch sem_ex3) = (m', s')"
    by (cases "Croi_ReleaseSemaphore_Impl (sem sem_ex3) (sch sem_ex3)") auto
  have 4: "sem_step sem_ex3 sem_ex4"
    using sem_step.sem_release [OF _ _ _ _ c, of 7] sem_ex_values c by (simp add: sem_ex4_def)
  show ?thesis using 1 2 3 4 by (meson r_into_rtranclp rtranclp_trans)
qed

theorem semaphore_mutual_exclusion_witness:
  "ss_Owner (sem sem_ex4) = Some 8 \<and> ss_NestCount (sem sem_ex4) = 1 \<and> single_pending (sch sem_ex4) 8"
  using semaphore_mutual_exclusion [OF sem_ex_reach, of 8 8] sem_ex_values by (simp add: sem_ex_blocked)

end
