(* ===== verification/Msg_Ports.thy ===== *)
theory Msg_Ports
  imports Scheduler Ring_Buffer Kobj_Handles
begin

text \<open>
  Message ports: the kernel object with its ring (src/src/croi/ipc/msgport.c) and the calls of
  the exec library over it (src/src/croi/exec_lib/ipc.c), with the signal shims of
  src/src/croi/exec_lib/signal.c.

  A port wraps the SPSC ring of \<open>Ring_Buffer\<close> and names the task and the signal bit that
  announce a message; \<open>Croi_Signal\<close> and \<open>Croi_Wait\<close> are the scheduler's.  The outcomes of the
  two shared-heap allocations of a new port are arguments, and the blocks given back are logged.
\<close>

unbundle bit_operations_syntax

section \<open>State\<close>

definition NT_MSGPORT :: u8 where "NT_MSGPORT = 4"
definition NT_MESSAGE :: u8 where "NT_MESSAGE = 5"
definition NT_REPLYMSG :: u8 where "NT_REPLYMSG = 7"
definition PA_SIGNAL :: u8 where "PA_SIGNAL = 0"
definition CARA_PORT_RING_CAP :: u32 where "CARA_PORT_RING_CAP = 32"

record MsgPort =
  mp_Type :: u8
  mp_Flags :: u8
  mp_SigBit :: u8
  mp_SigTask :: "tid option"

record CroiMsgPort =
  port_pub :: MsgPort
  port_ring :: "RingHeader option"
  port_slots :: "RingSlot list"
  port_capacity :: u32
  port_owner :: "tid option"
  port_signal_bit :: u32

record Message =
  mn_Type :: u8
  mn_ReplyPort :: "kptr option"
  mn_Length :: u16

datatype block = PortWrapper kptr | PortRing kptr

record ipc =
  ports :: "kptr \<Rightarrow> CroiMsgPort"
  msgs :: "u64 \<Rightarrow> Message"
  kst :: kstore
  isch :: sched
  freed :: "block list"

section \<open>The kernel's ports (msgport.c)\<close>

text \<open>The token of the destructor registered with the kernel object.\<close>

definition MSGPORT_DESTROY :: nat where "MSGPORT_DESTROY = 1"

definition msgport_destroy :: "kptr \<Rightarrow> ipc \<Rightarrow> ipc" where
  "msgport_destroy k st = st\<lparr>freed := freed st @
     (if port_ring (ports st k) \<noteq> None then [PortRing k] else []) @ [PortWrapper k]\<rparr>"

definition port_zero :: CroiMsgPort where
  "port_zero = \<lparr>port_pub = \<lparr>mp_Type = 0, mp_Flags = 0, mp_SigBit = 0, mp_SigTask = None\<rparr>, port_ring = None,
     port_slots = [], port_capacity = 0, port_owner = None, port_signal_bit = 0\<rparr>"

text \<open>
  \<open>mem\<close> is the wrapper the shared heap grants, \<open>blk\<close> the contents of the slot array in the ring
  block it grants.
\<close>

definition Croi_CreateMsgPort ::
  "tid option \<Rightarrow> u32 \<Rightarrow> u32 \<Rightarrow> kptr option \<Rightarrow> RingSlot list option \<Rightarrow> ipc \<Rightarrow> kptr option \<times> ipc" where
  "Croi_CreateMsgPort owner signal_bit capacity mem blk st =
    (if owner = None \<or> signal_bit \<ge> 32 \<or> capacity = 0 then (None, st)
     else if capacity AND (capacity - 1) \<noteq> 0 then (None, st)
     else case mem of None \<Rightarrow> (None, st)
     | Some p \<Rightarrow>
         let st1 = st\<lparr>ports := (ports st)(p := port_zero),
                      kst := Kobj_Init (Some p) KOBJ_MSGPORT (Some MSGPORT_DESTROY) (kst st)\<rparr> in
         (case blk of None \<Rightarrow> (None, st1\<lparr>freed := freed st1 @ [PortWrapper p]\<rparr>)
          | Some sl \<Rightarrow>
              (case Ring_Init capacity 0 of
                 Inl e \<Rightarrow> (None, st1\<lparr>freed := freed st1 @ [PortRing p, PortWrapper p]\<rparr>)
               | Inr r \<Rightarrow> (Some p, st1\<lparr>ports := (ports st1)(p :=
                   \<lparr>port_pub = \<lparr>mp_Type = NT_MSGPORT, mp_Flags = PA_SIGNAL, mp_SigBit = ucast signal_bit, mp_SigTask = owner\<rparr>,
                    port_ring = Some r, port_slots = sl, port_capacity = capacity,
                    port_owner = owner, port_signal_bit = signal_bit\<rparr>)\<rparr>))))"

text \<open>The last release runs the registered destructor.\<close>

definition Croi_DestroyMsgPort :: "kptr option \<Rightarrow> ipc \<Rightarrow> ipc" where
  "Croi_DestroyMsgPort p st = (case p of None \<Rightarrow> st
     | Some k \<Rightarrow>
         (let k1 = Kobj_Release (Some k) (kst st); st1 = st\<lparr>kst := k1\<rparr> in
          if destroy_log k1 = destroy_log (kst st) @ [(MSGPORT_DESTROY, k)] then msgport_destroy k st1 else st1))"

definition Croi_PutMsg :: "CroiMsgPort \<Rightarrow> RingSlot \<Rightarrow> sched \<Rightarrow> bool \<times> CroiMsgPort \<times> sched" where
  "Croi_PutMsg p msg s =
    (case Ring_Enqueue (the (port_ring p)) (port_slots p) msg of
       (ok, need_signal, r, sl) \<Rightarrow>
         let p1 = p\<lparr>port_ring := Some r, port_slots := sl\<rparr> in
         if \<not> ok then (False, p1, s)
         else if need_signal then (True, p1, Croi_Signal (the (port_owner p)) (push_bit (unat (port_signal_bit p)) 1) s)
         else (True, p1, s))"

definition Croi_GetMsg :: "CroiMsgPort \<Rightarrow> RingSlot option \<times> CroiMsgPort" where
  "Croi_GetMsg p =
    (case Ring_Dequeue (the (port_ring p)) (port_slots p) of
       None \<Rightarrow> (None, p)
     | Some (v, r) \<Rightarrow> (Some v, p\<lparr>port_ring := Some r\<rparr>))"

definition Croi_WaitPort :: "CroiMsgPort \<Rightarrow> sched \<Rightarrow> wait_result \<times> sched" where
  "Croi_WaitPort p s = Croi_Wait (push_bit (unat (port_signal_bit p)) 1) s"

section \<open>The exec library's calls (exec_lib/ipc.c, exec_lib/signal.c)\<close>

text \<open>The public port is the first field of the wrapper, so both have one address.  Address 0 is the null message.\<close>

definition Croi_PutMsg_Impl :: "kptr option \<Rightarrow> u64 \<Rightarrow> ipc \<Rightarrow> ipc" where
  "Croi_PutMsg_Impl port msg st = (case port of None \<Rightarrow> st
     | Some k \<Rightarrow>
         if msg = 0 then st
         else (case Croi_PutMsg (ports st k) \<lparr>slot_kind = ucast NT_MESSAGE, slot_length = ucast (mn_Length (msgs st msg)),
                   slot_payload = msg, slot_reserved = 0\<rparr> (isch st) of
             (ok, p, s) \<Rightarrow> st\<lparr>ports := (ports st)(k := p), isch := s\<rparr>))"

definition Croi_GetMsg_Impl :: "kptr option \<Rightarrow> ipc \<Rightarrow> u64 \<times> ipc" where
  "Croi_GetMsg_Impl port st = (case port of None \<Rightarrow> (0, st)
     | Some k \<Rightarrow>
         (case Croi_GetMsg (ports st k) of
            (None, p) \<Rightarrow> (0, st)
          | (Some slot, p) \<Rightarrow> (slot_payload slot, st\<lparr>ports := (ports st)(k := p)\<rparr>)))"

text \<open>The call returns the null message once its wait returns.\<close>

definition Croi_WaitPort_Impl :: "kptr option \<Rightarrow> ipc \<Rightarrow> wait_result option \<times> ipc" where
  "Croi_WaitPort_Impl port st = (case port of None \<Rightarrow> (None, st)
     | Some k \<Rightarrow> (case Croi_WaitPort (ports st k) (isch st) of (r, s) \<Rightarrow> (Some r, st\<lparr>isch := s\<rparr>)))"

definition Croi_ReplyMsg_Impl :: "u64 \<Rightarrow> ipc \<Rightarrow> ipc" where
  "Croi_ReplyMsg_Impl msg st =
    (if msg = 0 then st
     else let st1 = st\<lparr>msgs := (msgs st)(msg := (msgs st msg)\<lparr>mn_Type := NT_REPLYMSG\<rparr>)\<rparr> in
       if mn_ReplyPort (msgs st1 msg) \<noteq> None then Croi_PutMsg_Impl (mn_ReplyPort (msgs st1 msg)) msg st1 else st1)"

definition Croi_CreateMsgPort_Impl :: "kptr option \<Rightarrow> RingSlot list option \<Rightarrow> ipc \<Rightarrow> kptr option \<times> ipc" where
  "Croi_CreateMsgPort_Impl mem blk st = (case g_current (isch st) of None \<Rightarrow> (None, st)
     | Some me \<Rightarrow>
         (case Croi_AllocSignal (isch st) of (sig, s) \<Rightarrow>
            if sig < 0 then (None, st\<lparr>isch := s\<rparr>)
            else (case Croi_CreateMsgPort (Some me) (of_int sig) CARA_PORT_RING_CAP mem blk (st\<lparr>isch := s\<rparr>) of
                (None, st1) \<Rightarrow> (None, st1\<lparr>isch := Croi_FreeSignal sig (isch st1)\<rparr>)
              | (Some p, st1) \<Rightarrow> (Some p, st1))))"

definition Croi_DeleteMsgPort_Impl :: "kptr option \<Rightarrow> ipc \<Rightarrow> ipc" where
  "Croi_DeleteMsgPort_Impl port st = (case port of None \<Rightarrow> st
     | Some k \<Rightarrow>
         (let sig = sint (port_signal_bit (ports st k)); st1 = Croi_DestroyMsgPort (Some k) st in
          st1\<lparr>isch := Croi_FreeSignal sig (isch st1)\<rparr>))"

definition Croi_Wait_Impl :: "u32 \<Rightarrow> sched \<Rightarrow> wait_result \<times> sched" where
  "Croi_Wait_Impl msk s = Croi_Wait msk s"

definition Croi_Signal_Impl :: "tid \<Rightarrow> u32 \<Rightarrow> sched \<Rightarrow> sched" where
  "Croi_Signal_Impl target msk s = Croi_Signal target msk s"

definition Croi_AllocSignal_Impl :: "32 word \<Rightarrow> sched \<Rightarrow> int \<times> sched" where
  "Croi_AllocSignal_Impl sig_num s = Croi_AllocSignal s"

definition Croi_FreeSignal_Impl :: "32 word \<Rightarrow> sched \<Rightarrow> sched" where
  "Croi_FreeSignal_Impl sig_num s = Croi_FreeSignal (sint sig_num) s"

definition Croi_SetSignal_Impl :: "u32 \<Rightarrow> u32 \<Rightarrow> sched \<Rightarrow> u32 \<times> sched" where
  "Croi_SetSignal_Impl new_signals msk s = Croi_SetSignal new_signals msk s"

section \<open>Executions with one port\<close>

text \<open>
  Any task puts messages; the owner follows the documented use of a port: it takes messages
  until none is left and only then waits.  \<open>waiting\<close> says that the owner is inside
  \<open>Croi_WaitPort\<close>.  Other scheduler calls are free, except that nobody clears the port's signal
  while the owner waits for it.  \<open>sent\<close> and \<open>recvd\<close> record the messages accepted and taken.
\<close>

record portsys =
  prt :: CroiMsgPort
  psch :: sched
  waiting :: bool
  sent :: "RingSlot list"
  recvd :: "RingSlot list"

definition port_items :: "CroiMsgPort \<Rightarrow> RingSlot list" where
  "port_items p = ring_items (the (port_ring p)) (port_slots p)"

definition port_pending :: "CroiMsgPort \<Rightarrow> sched \<Rightarrow> bool" where
  "port_pending p s \<longleftrightarrow> tc_SigRecvd (tasks s (the (port_owner p))) AND push_bit (unat (port_signal_bit p)) 1 \<noteq> 0"

inductive port_step :: "portsys \<Rightarrow> portsys \<Rightarrow> bool" where
  port_put: "\<not> halted (psch x) \<Longrightarrow> Croi_PutMsg (prt x) m (psch x) = (ok, p', s') \<Longrightarrow>
    port_step x (x\<lparr>prt := p', psch := s', sent := (if ok then sent x @ [m] else sent x)\<rparr>)"
| port_get: "\<not> halted (psch x) \<Longrightarrow> g_current (psch x) = port_owner (prt x) \<Longrightarrow> \<not> waiting x \<Longrightarrow>
    Croi_GetMsg (prt x) = (got, p') \<Longrightarrow>
    port_step x (x\<lparr>prt := p', recvd := recvd x @ (case got of None \<Rightarrow> [] | Some m \<Rightarrow> [m])\<rparr>)"
| port_wait: "\<not> halted (psch x) \<Longrightarrow> g_current (psch x) = port_owner (prt x) \<Longrightarrow>
    waiting x \<or> fst (Croi_GetMsg (prt x)) = None \<Longrightarrow> Croi_WaitPort (prt x) (psch x) = (r, s') \<Longrightarrow>
    port_step x (x\<lparr>psch := s', waiting := (case r of WaitReturns _ \<Rightarrow> False | _ \<Rightarrow> True)\<rparr>)"
| port_other: "sched_step (psch x) s' \<Longrightarrow>
    (waiting x \<Longrightarrow> port_pending (prt x) (psch x) \<Longrightarrow> port_pending (prt x) s') \<Longrightarrow>
    port_step x (x\<lparr>psch := s'\<rparr>)"

definition port_init :: "CroiMsgPort \<Rightarrow> sched \<Rightarrow> portsys" where
  "port_init p s = \<lparr>prt = p, psch = s, waiting = False, sent = [], recvd = []\<rparr>"

definition port_ok :: "CroiMsgPort \<Rightarrow> bool" where
  "port_ok p \<longleftrightarrow> port_ring p \<noteq> None \<and> port_owner p \<noteq> None \<and> port_signal_bit p < 32 \<and>
     ring_inv (the (port_ring p)) (port_slots p)"

definition port_inv :: "portsys \<Rightarrow> bool" where
  "port_inv x \<longleftrightarrow> port_ok (prt x) \<and> sent x = recvd x @ port_items (prt x) \<and>
     (waiting x \<longrightarrow> port_items (prt x) \<noteq> [] \<longrightarrow> port_pending (prt x) (psch x))"

lemma create_port_ok:
  assumes "Croi_CreateMsgPort owner b cap mem (Some sl) st = (Some k, st')" "length sl = unat cap"
  shows "port_ok (ports st' k) \<and> port_items (ports st' k) = [] \<and> port_owner (ports st' k) = owner"
proof -
  obtain r where r: "Ring_Init cap 0 = Inr r" "b < 32" "owner \<noteq> None" "mem = Some k"
    "ports st' k = \<lparr>port_pub = \<lparr>mp_Type = NT_MSGPORT, mp_Flags = PA_SIGNAL, mp_SigBit = ucast b, mp_SigTask = owner\<rparr>,
       port_ring = Some r, port_slots = sl, port_capacity = cap, port_owner = owner, port_signal_bit = b\<rparr>"
    using assms(1) by (auto simp: Croi_CreateMsgPort_def Let_def not_le split: if_splits option.splits sum.splits)
  moreover have "ring_inv r sl" "ring_items r sl = []" using Ring_Init_inv [OF r(1)] assms(2) by auto
  ultimately show ?thesis by (simp add: port_ok_def port_items_def)
qed

lemma put_cases:
  assumes "port_ok p" "Croi_PutMsg p m s = (ok, p', s')"
  shows "port_ok p' \<and> port_owner p' = port_owner p \<and> port_signal_bit p' = port_signal_bit p \<and>
    port_items p' = port_items p @ (if ok then [m] else []) \<and>
    s' = (if ok \<and> port_items p = [] then Croi_Signal (the (port_owner p)) (push_bit (unat (port_signal_bit p)) 1) s else s)"
proof -
  let ?r = "the (port_ring p)"
  have inv: "ring_inv ?r (port_slots p)" using assms(1) by (simp add: port_ok_def)
  show ?thesis
  proof (cases "length (ring_items ?r (port_slots p)) < unat (ring_capacity ?r)")
    case True
    then show ?thesis
      using Ring_Enqueue_room [OF inv True, of m] assms by (auto simp: Croi_PutMsg_def Let_def port_ok_def port_items_def split: if_splits)
  next
    case False
    then have "Ring_Enqueue ?r (port_slots p) m = (False, False, ?r, port_slots p)"
      by (simp add: Ring_Enqueue_def Ring_Count_def word_le_nat_alt)
    then show ?thesis using assms by (auto simp: Croi_PutMsg_def Let_def port_ok_def port_items_def)
  qed
qed

lemma get_cases:
  assumes "port_ok p" "Croi_GetMsg p = (got, p')"
  shows "case got of None \<Rightarrow> p' = p \<and> port_items p = []
    | Some m \<Rightarrow> port_ok p' \<and> port_items p = m # port_items p'"
proof -
  let ?r = "the (port_ring p)"
  have inv: "ring_inv ?r (port_slots p)" using assms(1) by (simp add: port_ok_def)
  show ?thesis
  proof (cases "Ring_Count ?r = 0")
    case True
    then show ?thesis
      using assms by (auto simp: Croi_GetMsg_def Ring_Dequeue_def Ring_Count_def port_items_def items_empty_iff)
  next
    case False
    then show ?thesis
      using items_consume [OF False, of "port_slots p"] ring_inv_consume [OF inv False] assms
      by (auto simp: Croi_GetMsg_def Ring_Dequeue_def Ring_Count_def port_items_def port_ok_def Let_def)
  qed
qed

lemma bit_mask_nonzero:
  assumes "b < (32 :: u32)"
  shows "push_bit (unat b) (1 :: u32) \<noteq> 0"
proof -
  have "unat b < 32" using assms by (simp add: word_less_nat_alt)
  then show ?thesis by auto
qed

lemma wait_pending:
  assumes "port_ok p" "g_current s = port_owner p"
  shows "(\<exists>hit s'. hit \<noteq> 0 \<and> Croi_WaitPort p s = (WaitReturns hit, s')) \<longleftrightarrow> port_pending p s"
    and "\<not> port_pending p s \<Longrightarrow> fst (Croi_WaitPort p s) \<noteq> WaitReturns h"
proof -
  obtain t where t: "port_owner p = Some t" using assms(1) by (auto simp: port_ok_def)
  have nz: "push_bit (unat (port_signal_bit p)) (1 :: u32) \<noteq> 0"
    using assms(1) by (intro bit_mask_nonzero) (simp add: port_ok_def)
  show "(\<exists>hit s'. hit \<noteq> 0 \<and> Croi_WaitPort p s = (WaitReturns hit, s')) \<longleftrightarrow> port_pending p s"
    and "\<not> port_pending p s \<Longrightarrow> fst (Croi_WaitPort p s) \<noteq> WaitReturns h"
    using assms(2) nz t by (auto simp: Croi_WaitPort_def Croi_Wait_def Let_def port_pending_def split: list.splits)
qed

lemma signal_port_pending:
  assumes "port_ok p"
  shows "port_pending p (Croi_Signal (the (port_owner p)) (push_bit (unat (port_signal_bit p)) 1) s)"
proof -
  let ?m = "push_bit (unat (port_signal_bit p)) (1 :: u32)" and ?t = "the (port_owner p)"
  have nz: "?m \<noteq> 0" using assms by (intro bit_mask_nonzero) (simp add: port_ok_def)
  have "tc_SigRecvd (tasks (Croi_Signal ?t ?m s) ?t) = tc_SigRecvd (tasks s ?t) OR ?m"
    using nz by (simp add: Croi_Signal_def Let_def)
  moreover have "(tc_SigRecvd (tasks s ?t) OR ?m) AND ?m = ?m"
    by (rule bit_word_eqI) (auto simp: bit_simps)
  ultimately show ?thesis using nz by (simp add: port_pending_def)
qed

lemma port_pending_cong:
  "port_owner p = port_owner q \<Longrightarrow> port_signal_bit p = port_signal_bit q \<Longrightarrow> port_pending p s = port_pending q s"
  by (simp add: port_pending_def)

lemma port_inv_step:
  assumes "port_step x y" "port_inv x"
  shows "port_inv y"
  using assms(1)
proof cases
  case (port_put m ok p' s')
  have ok: "port_ok (prt x)" using assms(2) by (simp add: port_inv_def)
  note c = put_cases [OF ok port_put(3)]
  have "port_pending p' s = port_pending (prt x) s" for s using c by (intro port_pending_cong) simp_all
  then show ?thesis
    using port_put c assms(2) signal_port_pending [OF ok] by (auto simp: port_inv_def split: if_splits)
next
  case (port_get got p')
  have ok: "port_ok (prt x)" using assms(2) by (simp add: port_inv_def)
  then show ?thesis
    using port_get get_cases [OF ok port_get(5)] assms(2) by (auto simp: port_inv_def split: option.splits)
next
  case (port_wait r s')
  have ok: "port_ok (prt x)" using assms(2) by (simp add: port_inv_def)
  have "port_items (prt x) = []" if "\<forall>h. r \<noteq> WaitReturns h"
  proof (cases "waiting x")
    case True
    have "\<not> port_pending (prt x) (psch x)"
      using wait_pending(1) [OF ok port_wait(3)] port_wait(5) that by auto
    then show ?thesis using True assms(2) by (auto simp: port_inv_def)
  next
    case False
    obtain got p' where g: "Croi_GetMsg (prt x) = (got, p')" by (cases "Croi_GetMsg (prt x)")
    then show ?thesis using get_cases [OF ok g] False port_wait(4) by simp
  qed
  then show ?thesis
    using port_wait assms(2) by (cases r) (auto simp: port_inv_def)
next
  case (port_other s')
  then show ?thesis using assms(2) by (auto simp: port_inv_def)
qed

lemma port_inv_reach:
  assumes "port_step\<^sup>*\<^sup>* x y" "port_inv x"
  shows "port_inv y"
  using assms by (induction rule: rtranclp_induct) (auto intro: port_inv_step)


text \<open>Task 7 creates a port, finds it empty and waits; task 8 puts a message.\<close>

definition ipc_ex :: ipc where
  "ipc_ex = \<lparr>ports = (\<lambda>_. port_zero), msgs = (\<lambda>_. \<lparr>mn_Type = NT_MESSAGE, mn_ReplyPort = None, mn_Length = 20\<rparr>),
     kst = \<lparr>kobjs = (\<lambda>_. \<lparr>kobj_type = KOBJ_NONE, kobj_flags = 0, kobj_refcount = 0, kobj_id = 0, kobj_destroy = None\<rparr>),
            next_kobj_id = 1, destroy_log = []\<rparr>, isch = sched2, freed = []\<rparr>"

definition port_made :: "kptr option \<times> ipc" where
  "port_made = Croi_CreateMsgPort (Some 7) 16 2 (Some 1) (Some [slot_ex 0, slot_ex 0]) ipc_ex"

definition port_ex :: CroiMsgPort where
  "port_ex = ports (snd port_made) 1"

definition port_ex1 :: portsys where
  "port_ex1 = (port_init port_ex sched2)\<lparr>psch := snd (Croi_WaitPort port_ex sched2), waiting := True\<rparr>"

definition port_ex2 :: portsys where
  "port_ex2 = (case Croi_PutMsg port_ex (slot_ex 9) (psch port_ex1) of
     (ok, p, s) \<Rightarrow> port_ex1\<lparr>prt := p, psch := s, sent := [slot_ex 9]\<rparr>)"

lemma port_ex_values:
  "fst port_made = Some 1" "port_owner port_ex = Some 7" "fst (Croi_GetMsg port_ex) = None"
  "fst (Croi_WaitPort port_ex sched2) = WaitSuspended" "\<not> halted (psch port_ex1)"
  "fst (Croi_PutMsg port_ex (slot_ex 9) (psch port_ex1))"
  "port_items (prt port_ex2) = [slot_ex 9]" "g_sleepers (psch port_ex1) = [7]"
  "g_sleepers (psch port_ex2) = []" "g_runq (psch port_ex2) = [7]"
  by code_simp+

lemma port_ex_reach: "port_step\<^sup>*\<^sup>* (port_init port_ex sched2) port_ex2"
proof -
  obtain s where w: "Croi_WaitPort port_ex sched2 = (WaitSuspended, s)"
    using port_ex_values(4) by (cases "Croi_WaitPort port_ex sched2") simp
  have 1: "port_step (port_init port_ex sched2) port_ex1"
    using port_step.port_wait [of "port_init port_ex sched2" WaitSuspended s] port_ex_values(2,3) w
    by (simp add: port_init_def port_ex1_def sched_ex_values)
  obtain p s' where m: "Croi_PutMsg port_ex (slot_ex 9) (psch port_ex1) = (True, p, s')"
    using port_ex_values(6) by (cases "Croi_PutMsg port_ex (slot_ex 9) (psch port_ex1)") simp
  have e: "prt port_ex1 = port_ex" "sent port_ex1 = []" by (simp_all add: port_ex1_def port_init_def)
  have 2: "port_step port_ex1 port_ex2"
    using port_step.port_put [of port_ex1 "slot_ex 9" True p s'] port_ex_values(5) m e by (simp add: port_ex2_def)
  show ?thesis using 1 2 by (meson r_into_rtranclp rtranclp_trans)
qed


end
