(* ===== verification/Gpt_Table.thy ===== *)
theory Gpt_Table
  imports Prelude
begin

text \<open>
  The GUID partition table: \<^verbatim>\<open>include/cara/gpt.h\<close> and \<^verbatim>\<open>src/logaic/gpt/gpt.c\<close>.  Headers and the entry
  array are byte lists read and written at the offsets of \<^verbatim>\<open>struct GptHeader\<close> and
  \<^verbatim>\<open>struct GptEntry\<close>.  The device's callbacks are fields that pass a device state along, so nothing
  is assumed of a device: it may fail and may answer differently on every read.  Null arguments,
  which the calls refuse, are not represented; the scratch buffer is represented by its size.
\<close>

unbundle bit_operations_syntax

section \<open>Constants and data\<close>

definition GPT_HEADER_LBA :: u64 where "GPT_HEADER_LBA = 1"
definition GPT_ENTRY_LBA :: u64 where "GPT_ENTRY_LBA = 2"
definition GPT_ENTRY_COUNT :: u32 where "GPT_ENTRY_COUNT = 128"
definition GPT_ENTRY_SIZE :: u32 where "GPT_ENTRY_SIZE = 128"
definition GPT_ARRAY_BYTES :: u32 where "GPT_ARRAY_BYTES = GPT_ENTRY_COUNT * GPT_ENTRY_SIZE"
definition GPT_HEADER_SIZE :: u32 where "GPT_HEADER_SIZE = 92"
definition GPT_REVISION :: u32 where "GPT_REVISION = 0x00010000"
definition GPT_ALIGN_BYTES :: u64 where "GPT_ALIGN_BYTES = 0x100000"

definition GPT_SIGNATURE :: "u8 list" where
  "GPT_SIGNATURE = [0x45, 0x46, 0x49, 0x20, 0x50, 0x41, 0x52, 0x54]"

definition CARAFS_GPT_TYPE_GUID :: "u8 list" where
  "CARAFS_GPT_TYPE_GUID = [0x50, 0x0F, 0x1A, 0xCA, 0x00, 0x00, 0x61, 0x43,
                           0x72, 0x61, 0x46, 0x53, 0x21, 0x00, 0x00, 0x00]"

record 's GptDev =
  gd_lba_size :: u32
  gd_n_lbas :: u64
  gd_read :: "'s \<Rightarrow> u64 \<Rightarrow> u32 \<Rightarrow> u8 list result \<times> 's"
  gd_write :: "'s \<Rightarrow> u64 \<Rightarrow> u32 \<Rightarrow> u8 list \<Rightarrow> unit result \<times> 's"

record GptPartSpec =
  ps_type_guid :: "u8 list"
  ps_unique_guid :: "u8 list"
  ps_first_lba :: u64
  ps_last_lba :: u64

section \<open>Checksums\<close>

definition gpt_crc_bit :: "u32 \<Rightarrow> u32" where
  "gpt_crc_bit crc = drop_bit 1 crc XOR (0xEDB88320 AND (NOT (crc AND 1) + 1))"

definition Gpt_Crc32 :: "u32 \<Rightarrow> u8 list \<Rightarrow> u32" where
  "Gpt_Crc32 seed data = NOT (foldl (\<lambda>crc p. (gpt_crc_bit ^^ 8) (crc XOR ucast p)) (NOT seed) data)"

definition array_lba_count :: "u32 \<Rightarrow> u32" where
  "array_lba_count ls = (GPT_ARRAY_BYTES + ls - 1) div ls"

definition header_crc :: "u8 list \<Rightarrow> u32" where
  "header_crc hdrblk = Gpt_Crc32 0 (rd (unat GPT_HEADER_SIZE) (wr32 hdrblk 16 0) 0)"

section \<open>Discovery\<close>

text \<open>The scan over the entries \<open>i, i + 1, \<dots>\<close>, of which \<open>n\<close> remain.\<close>

fun gpt_scan :: "u64 \<Rightarrow> u8 list \<Rightarrow> nat \<Rightarrow> u32 \<Rightarrow> u32 \<Rightarrow> nat \<Rightarrow> nat \<Rightarrow> (u64 \<times> u64) option" where
  "gpt_scan n_lbas arr esize want seen i 0 = None"
| "gpt_scan n_lbas arr esize want seen i (Suc n) =
    (let e = i * esize; starting = rd64 arr (e + 32); ending = rd64 arr (e + 40) in
     if rd 16 arr e \<noteq> CARAFS_GPT_TYPE_GUID then gpt_scan n_lbas arr esize want seen (Suc i) n
     else if starting = 0 \<or> ending < starting \<or> ending \<ge> n_lbas then gpt_scan n_lbas arr esize want seen (Suc i) n
     else if seen \<noteq> want then gpt_scan n_lbas arr esize want (seen + 1) (Suc i) n
     else Some (starting, ending - starting + 1))"

definition Gpt_FindCarafsNth :: "'s GptDev \<Rightarrow> u64 \<Rightarrow> u32 \<Rightarrow> 's \<Rightarrow> (u64 \<times> u64) result \<times> 's" where
  "Gpt_FindCarafsNth dev scratch_bytes want s =
    (let ls = gd_lba_size dev in
     if scratch_bytes < ucast ls + ucast GPT_ARRAY_BYTES then (Inl CARA_EINVAL, s)
     else case gd_read dev s GPT_HEADER_LBA 1 of
       (Inl rc, s1) \<Rightarrow> (Inl rc, s1)
     | (Inr h, s1) \<Rightarrow>
         if rd 8 h 0 \<noteq> GPT_SIGNATURE \<or> rd32 h 12 < GPT_HEADER_SIZE \<or> rd32 h 12 > ls then (Inl CARA_ENOENT, s1)
         else if header_crc h \<noteq> rd32 h 16 then (Inl CARA_ENOENT, s1)
         else let ecount = rd32 h 80; esize = rd32 h 84;
                  abytes = (ucast ecount * ucast esize :: u64) in
           if ecount = 0 \<or> esize < 128 \<or> abytes > ucast GPT_ARRAY_BYTES then (Inl CARA_ENOENT, s1)
           else case gd_read dev s1 (rd64 h 72) (ucast ((abytes + ucast ls - 1) div ucast ls)) of
             (Inl rc, s2) \<Rightarrow> (Inl rc, s2)
           | (Inr arr, s2) \<Rightarrow>
               if Gpt_Crc32 0 (rd (unat abytes) arr 0) \<noteq> rd32 h 88 then (Inl CARA_ENOENT, s2)
               else (case gpt_scan (gd_n_lbas dev) arr (unat esize) want 0 0 (unat ecount) of
                   None \<Rightarrow> (Inl CARA_ENOENT, s2)
                 | Some r \<Rightarrow> (Inr r, s2)))"

definition Gpt_FindCarafs :: "'s GptDev \<Rightarrow> u64 \<Rightarrow> 's \<Rightarrow> (u64 \<times> u64) result \<times> 's" where
  "Gpt_FindCarafs dev scratch_bytes s = Gpt_FindCarafsNth dev scratch_bytes 0 s"

lemma scan_nth_bound:
  assumes "gpt_scan n_lbas arr esize want seen i n = Some r" "unat seen + n < 2 ^ 32" "seen \<le> want"
  shows "unat want < unat seen + n"
  using assms
proof (induction n arbitrary: seen i)
  case (Suc n)
  have "unat (seen + 1) = unat seen + 1" using Suc.prems(2) by (simp add: unat_word_ariths)
  moreover have "seen + 1 \<le> want" if "seen \<noteq> want"
    using Suc.prems(3) that by (simp add: inc_le order.not_eq_order_implies_strict)
  ultimately show ?case
    using Suc.IH [of seen "Suc i"] Suc.IH [of "seen + 1" "Suc i"] Suc.prems by (auto simp: Let_def split: if_splits)
qed simp

lemma find_scan:
  assumes "Gpt_FindCarafsNth dev sb want s = (Inr r, s')"
  obtains arr and ecount esize :: u32
  where "gpt_scan (gd_n_lbas dev) arr (unat esize) want 0 0 (unat ecount) = Some r"
    and "128 \<le> esize" and "(ucast ecount * ucast esize :: u64) \<le> ucast GPT_ARRAY_BYTES"
proof -
  obtain h s1 where h: "gd_read dev s GPT_HEADER_LBA 1 = (Inr h, s1)"
    using assms by (cases "gd_read dev s GPT_HEADER_LBA 1" rule: prod.exhaust; cases "fst (gd_read dev s GPT_HEADER_LBA 1)")
      (simp_all add: Gpt_FindCarafsNth_def Let_def split: if_splits)
  let ?a = "ucast (rd32 h 80) * ucast (rd32 h 84) :: u64"
  have g: "\<not> (rd32 h 80 = 0 \<or> rd32 h 84 < 128 \<or> ucast GPT_ARRAY_BYTES < ?a)"
    using assms h by (simp add: Gpt_FindCarafsNth_def Let_def split: if_splits)
  obtain rr s2 where a: "gd_read dev s1 (rd64 h 72) (ucast ((?a + ucast (gd_lba_size dev) - 1) div ucast (gd_lba_size dev))) = (rr, s2)"
    by (rule prod.exhaust)
  obtain arr where "rr = Inr arr" "gpt_scan (gd_n_lbas dev) arr (unat (rd32 h 84)) want 0 0 (unat (rd32 h 80)) = Some r"
    using assms h g a by (cases rr) (simp_all add: Gpt_FindCarafsNth_def Let_def split: if_splits option.splits)
  then show ?thesis using that g by (simp add: not_less)
qed

lemma find_want_bound:
  assumes "Gpt_FindCarafsNth dev sb want s = (Inr r, s')"
  shows "unat want < 128"
proof -
  obtain arr and ecount esize :: u32
    where scan: "gpt_scan (gd_n_lbas dev) arr (unat esize) want 0 0 (unat ecount) = Some r"
      and e: "128 \<le> esize" "(ucast ecount * ucast esize :: u64) \<le> ucast GPT_ARRAY_BYTES"
    by (rule find_scan [OF assms])
  have sz: "128 \<le> unat esize" using e(1) by (simp add: word_le_nat_alt)
  have u: "unat (ucast w :: u64) = unat w" for w :: u32
    using unat_lt2p [of w] by (simp add: unsigned_ucast_eq take_bit_nat_eq_self)
  have lt: "unat w < 4294967296" for w :: u32 using unat_lt2p [of w] by simp
  have "unat ecount * unat esize < 4294967296 * 4294967296"
    by (rule mult_strict_mono'[OF lt lt]) simp_all
  then have "unat (ucast ecount * ucast esize :: u64) = unat ecount * unat esize"
    by (simp add: unat_word_ariths u)
  then have "unat ecount * unat esize \<le> 16384"
    using e(2) by (simp add: word_le_nat_alt GPT_ARRAY_BYTES_def GPT_ENTRY_COUNT_def GPT_ENTRY_SIZE_def)
  moreover have "unat ecount * 128 \<le> unat ecount * unat esize" using sz by simp
  ultimately have "unat ecount \<le> 128" by linarith
  then show ?thesis using scan_nth_bound [OF scan] by simp
qed

text \<open>The search over candidate volumes; it ends because a table has at most 128 entries.\<close>

function find_volume :: "'s GptDev \<Rightarrow> u64 \<Rightarrow> u8 list \<Rightarrow> u32 \<Rightarrow> u8 list \<Rightarrow> u32 \<Rightarrow> 's \<Rightarrow> (u64 \<times> u64) result \<times> 's" where
  "find_volume dev sb magic uuid_off target want s =
    (case Gpt_FindCarafsNth dev sb want s of
       (Inl rc, s1) \<Rightarrow> (Inl rc, s1)
     | (Inr (first, cnt), s1) \<Rightarrow>
         (case gd_read dev s1 first 1 of
            (Inl _, s2) \<Rightarrow> find_volume dev sb magic uuid_off target (want + 1) s2
          | (Inr blk, s2) \<Rightarrow>
              if rd (length magic) blk 0 = magic \<and> rd 16 blk (unat uuid_off) = target then (Inr (first, cnt), s2)
              else find_volume dev sb magic uuid_off target (want + 1) s2))"
  by pat_completeness auto

lemma want_decreases:
  assumes "Gpt_FindCarafsNth dev sb want s = (Inr r, s')"
  shows "128 - unat (want + 1) < 128 - unat want"
proof -
  have "unat want < 128" by (rule find_want_bound [OF assms])
  moreover from this have "unat (want + 1) = unat want + 1" by (simp add: unat_word_ariths)
  ultimately show ?thesis by simp
qed

termination find_volume
  by (relation "measure (\<lambda>(dev, sb, magic, uuid_off, target, want, s). 128 - unat want)")
    (auto dest: want_decreases [OF sym])

definition Gpt_FindByVolumeUuid ::
  "'s GptDev \<Rightarrow> u64 \<Rightarrow> u8 list \<Rightarrow> u32 \<Rightarrow> u8 list \<Rightarrow> 's \<Rightarrow> (u64 \<times> u64) result \<times> 's" where
  "Gpt_FindByVolumeUuid dev sb magic uuid_off target s =
    (if uuid_off + 16 > gd_lba_size dev then (Inl CARA_EINVAL, s)
     else find_volume dev sb magic uuid_off target 0 s)"

section \<open>Formatting\<close>

definition build_header :: "u8 list \<Rightarrow> u64 \<Rightarrow> u64 \<Rightarrow> u64 \<Rightarrow> u64 \<Rightarrow> u64 \<Rightarrow> u8 list \<Rightarrow> u32 \<Rightarrow> u8 list" where
  "build_header blk my_lba alt_lba entry_lba first_usable last_usable disk_guid entry_crc =
    (let h1 = wr blk 0 GPT_SIGNATURE; h2 = wr32 h1 8 GPT_REVISION; h3 = wr32 h2 12 GPT_HEADER_SIZE;
         h4 = wr64 h3 24 my_lba; h5 = wr64 h4 32 alt_lba; h6 = wr64 h5 40 first_usable;
         h7 = wr64 h6 48 last_usable; h8 = wr h7 56 disk_guid; h9 = wr64 h8 72 entry_lba;
         h10 = wr32 h9 80 GPT_ENTRY_COUNT; h11 = wr32 h10 84 GPT_ENTRY_SIZE; h12 = wr32 h11 88 entry_crc;
         h13 = wr32 h12 16 0
     in wr32 h13 16 (Gpt_Crc32 0 (rd (unat GPT_HEADER_SIZE) h13 0)))"

definition Gpt_FirstUsableLba :: "'s GptDev \<Rightarrow> u64" where
  "Gpt_FirstUsableLba dev = GPT_ENTRY_LBA + ucast (array_lba_count (gd_lba_size dev))"

definition Gpt_LastUsableLba :: "'s GptDev \<Rightarrow> u64" where
  "Gpt_LastUsableLba dev = gd_n_lbas dev - 1 - ucast (array_lba_count (gd_lba_size dev)) - 1"

definition gpt_name :: "u8 list" where
  "gpt_name = [0x43, 0, 0x61, 0, 0x72, 0, 0x61, 0, 0x46, 0, 0x53, 0]"

fun gpt_fill :: "u64 \<Rightarrow> u64 \<Rightarrow> nat \<Rightarrow> GptPartSpec list \<Rightarrow> u8 list \<Rightarrow> u8 list result" where
  "gpt_fill first_usable last_usable i [] arr = Inr arr"
| "gpt_fill first_usable last_usable i (p # ps) arr =
    (if ps_first_lba p < first_usable \<or> ps_last_lba p > last_usable \<or> ps_last_lba p < ps_first_lba p then Inl CARA_ERANGE
     else let e = i * unat GPT_ENTRY_SIZE;
              a1 = wr arr e (ps_type_guid p); a2 = wr a1 (e + 16) (ps_unique_guid p);
              a3 = wr64 a2 (e + 32) (ps_first_lba p); a4 = wr64 a3 (e + 40) (ps_last_lba p);
              a5 = wr64 a4 (e + 48) 0; a6 = wr a5 (e + 56) gpt_name
          in gpt_fill first_usable last_usable (Suc i) ps a6)"

definition gpt_mbr :: "u32 \<Rightarrow> u64 \<Rightarrow> u8 list" where
  "gpt_mbr ls n =
    (let b1 = wr8 (replicate (unat ls) 0) (446 + 4) 0xEE; b2 = wr32 b1 (446 + 8) 1;
         b3 = wr32 b2 (446 + 12) (if n - 1 > 0xFFFFFFFF then 0xFFFFFFFF else ucast (n - 1))
     in wr8 (wr8 b3 510 0x55) 511 0xAA)"

text \<open>The writes in order, up to the first that fails.\<close>

fun gpt_writes :: "'s GptDev \<Rightarrow> (u64 \<times> u32 \<times> u8 list) list \<Rightarrow> 's \<Rightarrow> unit result \<times> 's" where
  "gpt_writes dev [] s = (Inr (), s)"
| "gpt_writes dev ((lba, n, buf) # ws) s =
    (case gd_write dev s lba n buf of
       (Inl rc, s1) \<Rightarrow> (Inl rc, s1)
     | (Inr _, s1) \<Rightarrow> gpt_writes dev ws s1)"

definition Gpt_FormatN :: "'s GptDev \<Rightarrow> u8 list \<Rightarrow> GptPartSpec list \<Rightarrow> u64 \<Rightarrow> 's \<Rightarrow> unit result \<times> 's" where
  "Gpt_FormatN dev disk_guid specs scratch_bytes s =
    (let ls = gd_lba_size dev; n = gd_n_lbas dev; albas = array_lba_count ls;
         first_usable = GPT_ENTRY_LBA + ucast albas; last_usable = n - 1 - ucast albas - 1;
         zero = replicate (unat ls) 0 in
     if length specs = 0 \<or> length specs > unat GPT_ENTRY_COUNT then (Inl CARA_EINVAL, s)
     else if scratch_bytes < ucast ls + ucast GPT_ARRAY_BYTES \<or> ls < 512 \<or> GPT_ARRAY_BYTES mod ls \<noteq> 0 then (Inl CARA_EINVAL, s)
     else if n < first_usable + ucast albas + 2 then (Inl CARA_ERANGE, s)
     else case gpt_fill first_usable last_usable 0 specs (replicate (unat GPT_ARRAY_BYTES) 0) of
       Inl rc \<Rightarrow> (Inl rc, s)
     | Inr arr \<Rightarrow>
         let acrc = Gpt_Crc32 0 arr; bak_array_lba = n - 1 - ucast albas in
         gpt_writes dev
           [(0, 1, gpt_mbr ls n),
            (GPT_HEADER_LBA, 1, build_header zero GPT_HEADER_LBA (n - 1) GPT_ENTRY_LBA first_usable last_usable disk_guid acrc),
            (GPT_ENTRY_LBA, albas, arr),
            (bak_array_lba, albas, arr),
            (n - 1, 1, build_header zero (n - 1) GPT_HEADER_LBA bak_array_lba first_usable last_usable disk_guid acrc)] s)"

definition Gpt_Format :: "'s GptDev \<Rightarrow> u8 list \<Rightarrow> u8 list \<Rightarrow> u64 \<Rightarrow> 's \<Rightarrow> (u64 \<times> u64) result \<times> 's" where
  "Gpt_Format dev disk_guid part_guid scratch_bytes s =
    (if gd_lba_size dev < 512 then (Inl CARA_EINVAL, s)
     else let first_usable = Gpt_FirstUsableLba dev; last_usable = Gpt_LastUsableLba dev;
              a0 = GPT_ALIGN_BYTES div ucast (gd_lba_size dev); align = (if a0 = 0 then 1 else a0);
              part_first = (first_usable + align - 1) div align * align in
       if part_first > last_usable then (Inl CARA_ERANGE, s)
       else case Gpt_FormatN dev disk_guid [\<lparr>ps_type_guid = CARAFS_GPT_TYPE_GUID, ps_unique_guid = part_guid,
                  ps_first_lba = part_first, ps_last_lba = last_usable\<rparr>] scratch_bytes s of
         (Inl rc, s1) \<Rightarrow> (Inl rc, s1)
       | (Inr _, s1) \<Rightarrow> (Inr (part_first, last_usable - part_first + 1), s1))"

section \<open>What a found or written table satisfies\<close>

lemma scan_in_disk:
  assumes "gpt_scan n_lbas arr esize want seen i n = Some (first, cnt)"
  shows "first \<noteq> 0 \<and> cnt \<noteq> 0 \<and> unat first + unat cnt \<le> unat n_lbas"
  using assms
proof (induction n arbitrary: seen i)
  case (Suc n)
  have "unat s + unat (e - s + 1) \<le> unat n_lbas \<and> e - s + 1 \<noteq> 0" if "s \<le> e" "e < n_lbas" "s \<noteq> 0" for s e
  proof -
    have d: "unat (e - s) = unat e - unat s" using that(1) by (simp add: unat_sub)
    have lt: "unat s \<le> unat e" "unat e < unat n_lbas" "unat s \<noteq> 0"
      using that by (simp_all add: word_le_nat_alt word_less_nat_alt unat_eq_zero)
    then have "unat (e - s + 1) = unat e - unat s + 1"
      using d unat_lt2p [of n_lbas] by (simp add: unat_word_ariths)
    then show ?thesis using lt by auto
  qed
  then show ?case
    using Suc.IH [of seen "Suc i"] Suc.IH [of "seen + 1" "Suc i"] Suc.prems
    by (auto simp: Let_def not_less not_le split: if_splits)
qed simp

lemma find_in_disk:
  assumes "Gpt_FindCarafsNth dev sb want s = (Inr (first, cnt), s')"
  shows "first \<noteq> 0 \<and> cnt \<noteq> 0 \<and> unat first + unat cnt \<le> unat (gd_n_lbas dev)"
proof -
  obtain arr and ecount esize :: u32
    where "gpt_scan (gd_n_lbas dev) arr (unat esize) want 0 0 (unat ecount) = Some (first, cnt)"
    by (rule find_scan [OF assms])
  then show ?thesis by (rule scan_in_disk)
qed

lemma header_crc_field:
  assumes "20 \<le> length b"
  shows "header_crc (wr32 b 16 v) = header_crc b"
  using assms by (simp add: header_crc_def wr32_def wr_overwrite)

lemma wr_keeps_length:
  "n \<le> length b \<Longrightarrow> n \<le> length (wr b off bs)"
  "n \<le> length b \<Longrightarrow> n \<le> length (wr32 b off v)"
  "n \<le> length b \<Longrightarrow> n \<le> length (wr64 b off w)"
  by (auto simp: wr_def wr32_def wr64_def min_def)

text \<open>A header as it is written passes the checksum test of discovery.\<close>

lemma build_header_crc:
  assumes "92 \<le> length blk"
  shows "header_crc (build_header blk my alt ent fst_lba lst_lba disk_guid crc)
    = rd32 (build_header blk my alt ent fst_lba lst_lba disk_guid crc) 16"
proof -
  have stamp: "header_crc (wr32 z 16 (Gpt_Crc32 0 (rd (unat GPT_HEADER_SIZE) z 0))) =
      rd32 (wr32 z 16 (Gpt_Crc32 0 (rd (unat GPT_HEADER_SIZE) z 0))) 16"
    if "20 \<le> length b" "z = wr32 b 16 0" for b z
  proof -
    have "wr32 z 16 0 = z" using that by (simp add: wr32_def wr_overwrite)
    then have "header_crc z = Gpt_Crc32 0 (rd (unat GPT_HEADER_SIZE) z 0)" by (simp add: header_crc_def)
    moreover have "20 \<le> length z" using that by (simp add: layout)
    ultimately show ?thesis using header_crc_field [of z] by (simp add: layout)
  qed
  have "20 \<le> length blk" using assms by simp
  then show ?thesis
    unfolding build_header_def Let_def by (intro stamp [OF _ refl] wr_keeps_length)
qed

end
