(* ===== verification/Carafs_Format.thy ===== *)
theory Carafs_Format
  imports Prelude
begin

text \<open>
  The CaraFS on-disk format: \<^verbatim>\<open>include/cara/carafs.h\<close> (constants, structure layout) and
  \<^verbatim>\<open>src/logaic/carafs/format.c\<close> (CRC-32C, names).  A metadata block is a byte list; its fields are
  read and written at the offsets the header pins with \<^verbatim>\<open>static_assert\<close>.  A name with its length
  argument is a byte list.  Shown: the table-driven CRC is the bitwise one, staged calls compose,
  the block checksum is the CRC of the block with a zeroed field and verifies after
  \<^verbatim>\<open>carafs_put_crc\<close>, it detects every change confined to four adjacent bytes; equal folded names
  have equal hashes; the superblock image is read back as it was written.
\<close>

unbundle bit_operations_syntax

section \<open>Constants\<close>

definition CARAFS_FORMAT_VERSION :: u32 where "CARAFS_FORMAT_VERSION = 1"
definition CARAFS_MIN_BLOCK_LOG2 :: u32 where "CARAFS_MIN_BLOCK_LOG2 = 9"
definition CARAFS_MAX_BLOCK_LOG2 :: u32 where "CARAFS_MAX_BLOCK_LOG2 = 16"
definition CARAFS_DEF_BLOCK_LOG2 :: u32 where "CARAFS_DEF_BLOCK_LOG2 = 12"
definition CARAFS_NAME_MAX :: nat where "CARAFS_NAME_MAX = 255"

definition CARAFS_MAGIC_CNODE :: u32 where "CARAFS_MAGIC_CNODE = 0x444F4E43"
definition CARAFS_MAGIC_BITMAP :: u32 where "CARAFS_MAGIC_BITMAP = 0x4D424143"
definition CARAFS_MAGIC_BTREE :: u32 where "CARAFS_MAGIC_BTREE = 0x54424143"
definition CARAFS_MAGIC_JSB :: u32 where "CARAFS_MAGIC_JSB = 0x534A4143"
definition CARAFS_MAGIC_JDESC :: u32 where "CARAFS_MAGIC_JDESC = 0x444A4143"
definition CARAFS_MAGIC_JCOMMIT :: u32 where "CARAFS_MAGIC_JCOMMIT = 0x434A4143"

definition CARAFS_SB_MAGIC :: "u8 list" where
  "CARAFS_SB_MAGIC = [0x43, 0x61, 0x72, 0x61, 0x46, 0x53, 0x21, 0x0A]"

definition CARAFS_STATE_CLEAN :: u32 where "CARAFS_STATE_CLEAN = 1"
definition CARAFS_STATE_DIRTY :: u32 where "CARAFS_STATE_DIRTY = 2"

definition CARAFS_T_FILE :: u16 where "CARAFS_T_FILE = 1"
definition CARAFS_T_DIR :: u16 where "CARAFS_T_DIR = 2"
definition CARAFS_T_SYMLINK :: u16 where "CARAFS_T_SYMLINK = 3"

definition CARAFS_ITEM_NAME :: u16 where "CARAFS_ITEM_NAME = 1"
definition CARAFS_ITEM_COMMENT :: u16 where "CARAFS_ITEM_COMMENT = 2"
definition CARAFS_ITEM_XATTR :: u16 where "CARAFS_ITEM_XATTR = 3"
definition CARAFS_ITEM_INLINE_DATA :: u16 where "CARAFS_ITEM_INLINE_DATA = 4"
definition CARAFS_ITEM_INLINE_DIRENTS :: u16 where "CARAFS_ITEM_INLINE_DIRENTS = 5"
definition CARAFS_ITEM_SYMLINK_TARGET :: u16 where "CARAFS_ITEM_SYMLINK_TARGET = 6"

definition CARAFS_EXT_UNWRITTEN :: u16 where "CARAFS_EXT_UNWRITTEN = 1"
definition CARAFS_INLINE_EXTENTS :: nat where "CARAFS_INLINE_EXTENTS = 16"
definition CARAFS_TXN_MAX_BLOCKS :: nat where "CARAFS_TXN_MAX_BLOCKS = 60"
definition CARAFS_CACHE_MIN_BLOCKS :: nat where "CARAFS_CACHE_MIN_BLOCKS = 16"

definition CARAFS_AG_BITS_OFF :: nat where "CARAFS_AG_BITS_OFF = 64"
definition CARAFS_CNODE_ITEMS_OFF :: nat where "CARAFS_CNODE_ITEMS_OFF = 360"
definition CARAFS_JDESC_TARGETS_OFF :: nat where "CARAFS_JDESC_TARGETS_OFF = 24"

definition Carafs_Align8 :: "u32 \<Rightarrow> u32" where
  "Carafs_Align8 n = (n + 7) AND NOT 7"

section \<open>CRC-32C\<close>

definition crc_bit :: "u32 \<Rightarrow> u32" where
  "crc_bit c = (if c AND 1 \<noteq> 0 then 0x82F63B78 XOR drop_bit 1 c else drop_bit 1 c)"

definition crc_table :: "u32 list" where
  "crc_table = map (\<lambda>i. (crc_bit ^^ 8) (of_nat i)) [0..<256]"

definition crc_byte :: "u32 \<Rightarrow> u8 \<Rightarrow> u32" where
  "crc_byte c p = crc_table ! unat ((c XOR ucast p) AND 0xFF) XOR drop_bit 8 c"

definition Carafs_Crc32c :: "u32 \<Rightarrow> u8 list \<Rightarrow> u32" where
  "Carafs_Crc32c seed data = NOT (foldl crc_byte (NOT seed) data)"

definition Carafs_BlockCrc :: "u8 list \<Rightarrow> nat \<Rightarrow> nat \<Rightarrow> u32" where
  "Carafs_BlockCrc blk block_size crc_off =
    (let c1 = Carafs_Crc32c 0 (rd crc_off blk 0);
         c2 = Carafs_Crc32c c1 [0, 0, 0, 0]
     in Carafs_Crc32c c2 (rd (block_size - crc_off - 4) blk (crc_off + 4)))"

definition carafs_put_crc :: "u8 list \<Rightarrow> nat \<Rightarrow> nat \<Rightarrow> u8 list" where
  "carafs_put_crc blk bs crc_off = wr32 blk crc_off (Carafs_BlockCrc blk bs crc_off)"

section \<open>Names\<close>

definition Carafs_FoldByte :: "u8 \<Rightarrow> u8" where
  "Carafs_FoldByte c = (if c \<ge> 0x41 \<and> c \<le> 0x5A then c + (0x61 - 0x41) else c)"

definition Carafs_NameHash :: "u8 list \<Rightarrow> u64" where
  "Carafs_NameHash name =
    foldl (\<lambda>h b. (h XOR ucast (Carafs_FoldByte b)) * 1099511628211) 14695981039346656037 name"

fun name_eq_loop :: "u8 list \<Rightarrow> u8 list \<Rightarrow> bool" where
  "name_eq_loop (x # xs) (y # ys) =
    (if Carafs_FoldByte x \<noteq> Carafs_FoldByte y then False else name_eq_loop xs ys)"
| "name_eq_loop _ _ = True"

definition Carafs_NameEq :: "u8 list \<Rightarrow> u8 list \<Rightarrow> bool" where
  "Carafs_NameEq a b = (if length a \<noteq> length b then False else name_eq_loop a b)"

definition Carafs_NameValid :: "u8 list \<Rightarrow> bool" where
  "Carafs_NameValid name =
    (if length name < 1 \<or> length name > CARAFS_NAME_MAX then False
     else list_all (\<lambda>c. \<not> (c = 0x2F \<or> c = 0x3A \<or> c = 0)) name)"

section \<open>The superblock image\<close>

record CarafsSuperblock =
  sb_magic :: "u8 list"
  sb_crc32c :: u32
  sb_version :: u32
  sb_compat :: u32
  sb_ro_compat :: u32
  sb_incompat :: u32
  sb_block_size_log2 :: u32
  sb_state :: u32
  sb_ag_size_blocks :: u32
  sb_total_blocks :: u64
  sb_journal_start :: u64
  sb_journal_blocks :: u32
  sb_ag_count :: u32
  sb_ag_first_block :: u64
  sb_root_cnode :: u64
  sb_free_blocks :: u64
  sb_backup_sb :: u64
  sb_uuid :: "u8 list"
  sb_name_len :: u8
  sb_name :: "u8 list"
  sb_created_ns :: u64
  sb_modified_ns :: u64

definition sb_bytes :: "CarafsSuperblock \<Rightarrow> u8 list" where
  "sb_bytes sb =
    sb_magic sb @ le_put 4 (sb_crc32c sb) @ le_put 4 (sb_version sb) @ le_put 4 (sb_compat sb) @
    le_put 4 (sb_ro_compat sb) @ le_put 4 (sb_incompat sb) @ le_put 4 (sb_block_size_log2 sb) @
    le_put 4 (sb_state sb) @ le_put 4 (sb_ag_size_blocks sb) @ le_put 8 (sb_total_blocks sb) @
    le_put 8 (sb_journal_start sb) @ le_put 4 (sb_journal_blocks sb) @ le_put 4 (sb_ag_count sb) @
    le_put 8 (sb_ag_first_block sb) @ le_put 8 (sb_root_cnode sb) @ le_put 8 (sb_free_blocks sb) @
    le_put 8 (sb_backup_sb sb) @ sb_uuid sb @ le_put 1 (sb_name_len sb) @ sb_name sb @
    le_put 8 (sb_created_ns sb) @ le_put 8 (sb_modified_ns sb)"

definition sb_of_bytes :: "u8 list \<Rightarrow> CarafsSuperblock" where
  "sb_of_bytes b = \<lparr>sb_magic = rd 8 b 0, sb_crc32c = rd32 b 8, sb_version = rd32 b 12, sb_compat = rd32 b 16,
     sb_ro_compat = rd32 b 20, sb_incompat = rd32 b 24, sb_block_size_log2 = rd32 b 28, sb_state = rd32 b 32,
     sb_ag_size_blocks = rd32 b 36, sb_total_blocks = rd64 b 40, sb_journal_start = rd64 b 48,
     sb_journal_blocks = rd32 b 56, sb_ag_count = rd32 b 60, sb_ag_first_block = rd64 b 64,
     sb_root_cnode = rd64 b 72, sb_free_blocks = rd64 b 80, sb_backup_sb = rd64 b 88, sb_uuid = rd 16 b 96,
     sb_name_len = rd8 b 112, sb_name = rd 63 b 113, sb_created_ns = rd64 b 176, sb_modified_ns = rd64 b 184\<rparr>"

section \<open>CRC lemmas\<close>

lemma crc_bit_bit: "bit (crc_bit c) n \<longleftrightarrow> (bit c 0 \<and> bit (0x82F63B78 :: u32) n) \<noteq> bit c (Suc n)"
proof -
  have "c AND 1 \<noteq> 0 \<longleftrightarrow> bit c 0"
    by (simp add: and_one_eq bit_0 odd_iff_mod_2_eq_one)
  then show ?thesis
    by (auto simp: crc_bit_def bit_xor_iff bit_drop_bit_eq)
qed

lemma crc_bit_xor: "crc_bit (a XOR b) = crc_bit a XOR crc_bit b"
  by (rule bit_word_eqI) (auto simp: crc_bit_bit bit_xor_iff)

lemma crc_bits_xor: "(crc_bit ^^ n) (a XOR b) = (crc_bit ^^ n) a XOR (crc_bit ^^ n) b"
  by (induction n) (simp_all add: crc_bit_xor)

lemma crc_bit_inj: "crc_bit a = crc_bit b \<Longrightarrow> a = b"
proof (rule bit_word_eqI)
  fix n assume eq: "crc_bit a = crc_bit b" and n: "n < LENGTH(32)"
  have top: "bit (0x82F63B78 :: u32) 31" by (simp add: bit_numeral_rec)
  have beyond: "\<not> bit x 32" for x :: u32 using bit_imp_le_length [of x 32] by auto
  have zero: "bit a 0 = bit b 0"
    using arg_cong [OF eq, of "\<lambda>w. bit w 31"] top beyond [of a] beyond [of b] by (simp add: crc_bit_bit)
  show "bit a n = bit b n"
    using zero arg_cong [OF eq, of "\<lambda>w. bit w (n - 1)"] by (cases n) (auto simp: crc_bit_bit)
qed

lemma crc_bits_inj: "(crc_bit ^^ n) a = (crc_bit ^^ n) b \<Longrightarrow> a = b"
  by (induction n) (auto dest: crc_bit_inj)

lemma crc_bits_high:
  "\<forall>i < n. \<not> bit h i \<Longrightarrow> (crc_bit ^^ n) h = drop_bit n h"
proof (induction n)
  case 0
  then show ?case by simp
next
  case (Suc n)
  then have "(crc_bit ^^ n) h = drop_bit n h" "\<not> bit h n" by auto
  then show ?case
    by (intro bit_word_eqI) (simp add: crc_bit_bit bit_drop_bit_eq add.commute)
qed

text \<open>One table step is eight bit steps on the state with the byte mixed in.\<close>

lemma crc_byte_bits: "crc_byte c p = (crc_bit ^^ 8) (c XOR ucast p)"
proof -
  define x where "x = c XOR ucast p"
  have "unat (x AND 0xFF) < 256"
    using word_and_le1 [of x "0xFF"] by (simp add: word_le_nat_alt)
  then have tab: "crc_table ! unat (x AND 0xFF) = (crc_bit ^^ 8) (x AND 0xFF)"
    by (simp add: crc_table_def del: upt_rec_numeral)
  have mask: "(0xFF :: u32) = mask 8" by (simp add: mask_eq_exp_minus_1)
  have split: "x = (x AND 0xFF) XOR (x AND NOT 0xFF)"
    by (rule bit_word_eqI) (auto simp: bit_simps)
  have "\<forall>i < 8. \<not> bit (x AND NOT 0xFF) i"
    unfolding mask by (auto simp: bit_simps)
  then have "(crc_bit ^^ 8) (x AND NOT 0xFF) = drop_bit 8 (x AND NOT 0xFF)"
    by (rule crc_bits_high)
  also have "\<dots> = drop_bit 8 c"
    unfolding mask x_def by (rule bit_word_eqI) (auto simp: bit_simps dest: bit_imp_le_length)
  finally have "(crc_bit ^^ 8) x = (crc_bit ^^ 8) (x AND 0xFF) XOR drop_bit 8 c"
    by (subst split) (simp only: crc_bits_xor)
  then show ?thesis by (simp add: crc_byte_def tab flip: x_def)
qed

lemma Crc32c_chain: "Carafs_Crc32c (Carafs_Crc32c seed xs) ys = Carafs_Crc32c seed (xs @ ys)"
  by (simp add: Carafs_Crc32c_def)

lemma BlockCrc_append:
  assumes "length blk = bs" and "off + 4 \<le> bs"
  shows "Carafs_BlockCrc blk bs off = Carafs_Crc32c 0 (wr blk off (replicate 4 0))"
proof -
  have "[0, 0, 0, 0] = replicate 4 (0 :: u8)" by (simp add: numeral_eq_Suc)
  then show ?thesis using assms by (simp add: Carafs_BlockCrc_def Let_def Crc32c_chain rd_def wr_def)
qed

lemma BlockCrc_put:
  assumes "length blk = bs" and "off + 4 \<le> bs"
  shows "Carafs_BlockCrc (carafs_put_crc blk bs off) bs off = Carafs_BlockCrc blk bs off"
  using assms by (simp add: BlockCrc_append carafs_put_crc_def layout) (simp add: wr32_def wr_def)

lemma xor_right_cancel: "a XOR w = b XOR w \<Longrightarrow> a = (b :: 'a::len word)"
  by (metis xor.assoc xor.right_neutral xor_self_eq)

lemma crc_foldl_inj: "foldl crc_byte a ys = foldl crc_byte b ys \<Longrightarrow> a = b"
proof (induction ys arbitrary: a b)
  case (Cons y ys)
  then have "crc_byte a y = crc_byte b y" by simp
  then have "a XOR ucast y = b XOR ucast y" by (simp add: crc_byte_bits) (rule crc_bits_inj)
  then show ?case by (rule xor_right_cancel)
qed simp

text \<open>Up to four bytes enter the state as one little-endian word.\<close>

lemma le_get_bit: "length ps \<le> k \<Longrightarrow> 8 * k \<le> n \<Longrightarrow> \<not> bit (le_get ps :: u32) n"
proof (induction ps arbitrary: k n)
  case Nil
  then show ?case by simp
next
  case (Cons p ps)
  then obtain k' where k: "k = Suc k'" by (cases k) auto
  have "\<not> bit (ucast p :: u32) n"
    using Cons.prems k by (auto simp: bit_simps dest: bit_imp_le_length)
  then show ?case using Cons.IH [of k' "n - 8"] Cons.prems k by (auto simp: bit_simps)
qed

lemma crc_word_step:
  "length ps \<le> 4 \<Longrightarrow> foldl crc_byte c ps = (crc_bit ^^ (8 * length ps)) (c XOR le_get ps)"
proof (induction ps arbitrary: c)
  case Nil
  then show ?case by simp
next
  case (Cons p ps)
  have "(crc_bit ^^ 8) (push_bit 8 (le_get ps)) = drop_bit 8 (push_bit 8 (le_get ps :: u32))"
    by (rule crc_bits_high) (auto simp: bit_simps)
  also have "\<dots> = le_get ps"
    using le_get_bit [of ps 3] Cons.prems
    by (intro bit_word_eqI) (auto simp: bit_simps not_le intro!: leI dest: leD)
  finally have low: "(crc_bit ^^ 8) (push_bit 8 (le_get ps :: u32)) = le_get ps" .
  have "le_get (p # ps) = ucast p XOR push_bit 8 (le_get ps :: u32)"
    by (rule bit_word_eqI) (auto simp: bit_simps dest: bit_imp_le_length)
  then have "(crc_bit ^^ 8) (c XOR le_get (p # ps)) = crc_byte c p XOR le_get ps"
    by (simp only: crc_byte_bits crc_bits_xor low xor.assoc)
  then show ?case
    using Cons by (simp add: funpow_add add.commute [of 8] del: le_get.simps)
qed

lemma le_get_inj:
  "length ps = length qs \<Longrightarrow> length ps \<le> 4 \<Longrightarrow> (le_get ps :: u32) = le_get qs \<Longrightarrow> ps = qs"
proof (induction ps qs rule: list_induct2)
  case Nil
  then show ?case by simp
next
  case (Cons p ps q qs)
  have "bit p n = bit q n" if "n < 8" for n
    using arg_cong [OF Cons.prems(2), of "\<lambda>w. bit w n"] that by (simp add: bit_simps)
  then have "p = q" by (intro bit_word_eqI) simp
  moreover have "(le_get ps :: u32) = le_get qs"
  proof (rule bit_word_eqI)
    fix n assume n: "n < LENGTH(32)"
    show "bit (le_get ps :: u32) n = bit (le_get qs :: u32) n"
      using arg_cong [OF Cons.prems(2), of "\<lambda>w. bit w (n + 8)"] le_get_bit [of ps 3 n] le_get_bit [of qs 3 n] n
        Cons.prems(1) Cons.hyps
      by (cases "n < 24") (auto simp: bit_simps dest: bit_imp_le_length)
  qed
  ultimately show ?case using Cons by simp
qed

lemma Crc32c_burst:
  assumes "length ps = length qs" and "length ps \<le> 4" and "ps \<noteq> qs"
  shows "Carafs_Crc32c seed (xs @ ps @ ys) \<noteq> Carafs_Crc32c seed (xs @ qs @ ys)"
proof
  assume "Carafs_Crc32c seed (xs @ ps @ ys) = Carafs_Crc32c seed (xs @ qs @ ys)"
  then have "foldl crc_byte (foldl crc_byte (NOT seed) xs) ps = foldl crc_byte (foldl crc_byte (NOT seed) xs) qs"
    by (auto simp: Carafs_Crc32c_def bit.compl_eq_compl_iff dest: crc_foldl_inj)
  then have "le_get ps = (le_get qs :: u32)"
    using assms by (simp add: crc_word_step xor.commute) (metis crc_bits_inj xor_right_cancel)
  with assms le_get_inj show False by blast
qed

section \<open>The reference CRC\<close>

text \<open>
  The polynomial definition: the message is a sequence of bits, least significant first, and the
  register is divided by the reflected polynomial \<^verbatim>\<open>0x82F63B78\<close> bit by bit.
\<close>

definition crc_ref_bit :: "u32 \<Rightarrow> bool \<Rightarrow> u32" where
  "crc_ref_bit c b = (if bit c 0 \<noteq> b then drop_bit 1 c XOR 0x82F63B78 else drop_bit 1 c)"

definition crc32c_ref :: "u32 \<Rightarrow> u8 list \<Rightarrow> u32" where
  "crc32c_ref seed data =
    NOT (foldl crc_ref_bit (NOT seed) (concat (map (\<lambda>p. map (bit p) [0..<8]) data)))"

lemma crc_ref_bit_eq: "crc_ref_bit c b = crc_bit (c XOR of_bool b)"
  by (rule bit_word_eqI) (auto simp: crc_ref_bit_def crc_bit_bit bit_simps)

lemma crc_ref_bits:
  "n \<le> 8 \<Longrightarrow> foldl crc_ref_bit c (map (bit p) [0..<n]) = (crc_bit ^^ n) (c XOR ucast (take_bit n (p :: u8)))"
proof (induction n)
  case 0
  then show ?case by simp
next
  case (Suc n)
  let ?hi = "push_bit n (of_bool (bit p n)) :: u32"
  have "(crc_bit ^^ n) ?hi = of_bool (bit p n)"
    using Suc.prems by (subst crc_bits_high) (auto simp: bit_simps intro!: bit_word_eqI)
  moreover have "ucast (take_bit (Suc n) p) = (ucast (take_bit n p) :: u32) XOR ?hi"
    by (rule bit_word_eqI) (use Suc.prems in \<open>auto simp: bit_simps less_Suc_eq\<close>)
  ultimately show ?case
    using Suc by (simp add: crc_ref_bit_eq crc_bits_xor crc_bit_xor xor.assoc)
qed

lemma foldl_crc_ref:
  "foldl crc_ref_bit c (concat (map (\<lambda>p. map (bit p) [0..<8]) data)) = foldl crc_byte c data"
  using crc_ref_bits [of 8]
  by (induction data arbitrary: c) (simp_all add: crc_byte_bits take_bit_word_eq_self del: upt_rec_numeral)

section \<open>Name lemmas\<close>

lemma name_eq_loop_iff:
  "length a = length b \<Longrightarrow> name_eq_loop a b \<longleftrightarrow> map Carafs_FoldByte a = map Carafs_FoldByte b"
  by (induction a b rule: list_induct2) auto

lemma NameHash_fold: "Carafs_NameHash (map Carafs_FoldByte a) = Carafs_NameHash a"
proof -
  have "Carafs_FoldByte (Carafs_FoldByte c) = Carafs_FoldByte c" for c
    by (auto simp: Carafs_FoldByte_def word_le_nat_alt unat_word_ariths)
  then show ?thesis by (simp add: Carafs_NameHash_def foldl_map)
qed

section \<open>Fields of concatenated images\<close>

lemma rd_skip: "length xs \<le> off \<Longrightarrow> rd n (xs @ ys) off = rd n ys (off - length xs)"
  by (simp add: rd_def)

lemma rd_here: "length xs = n \<Longrightarrow> rd n (xs @ ys) 0 = xs"
  by (simp add: rd_def)

lemma rd_Cons: "0 < off \<Longrightarrow> rd n (x # ys) off = rd n ys (off - 1)" "rd (Suc 0) (x # ys) 0 = [x]"
  by (cases off; simp add: rd_def)+

section \<open>Properties\<close>

text \<open>
  C9. A block sealed with \<^verbatim>\<open>carafs_put_crc\<close> verifies against its stored checksum, and the
  verification fails after any change confined to at most four adjacent bytes that do not
  overlap the checksum field.
\<close>

theorem Carafs_BlockCrc_detects:
  assumes "length blk = bs" and "crc_off + 4 \<le> bs"
    and "sealed = carafs_put_crc blk bs crc_off" and "off + length qs \<le> bs" and "length qs \<le> 4"
    and "off + length qs \<le> crc_off \<or> crc_off + 4 \<le> off" and "qs \<noteq> rd (length qs) blk off"
  shows "rd32 sealed crc_off = Carafs_BlockCrc sealed bs crc_off \<and>
    rd32 (wr sealed off qs) crc_off \<noteq> Carafs_BlockCrc (wr sealed off qs) bs crc_off"
proof -
  let ?z = "\<lambda>b. wr b crc_off (replicate 4 0)"
  have len: "length sealed = bs" using assms by (simp add: carafs_put_crc_def layout)
  have ok: "rd32 sealed crc_off = Carafs_BlockCrc sealed bs crc_off"
    using assms by (simp add: BlockCrc_put) (simp add: carafs_put_crc_def layout)
  have keep: "rd32 (wr sealed off qs) crc_off = rd32 sealed crc_off"
    using assms len by (auto simp: rd32_def rd_wr_below rd_wr_above)
  have same: "rd (length qs) sealed off = rd (length qs) blk off"
    using assms(1-4,6) by (auto simp: carafs_put_crc_def wr32_def rd_wr_below rd_wr_above)
  have z_wr: "?z (wr sealed off qs) = wr (?z sealed) off qs"
    using assms(2,4,6) len wr_commute [of off qs crc_off "replicate 4 0" sealed]
      wr_commute [of crc_off "replicate 4 0" off qs sealed] by auto
  have rd_z: "rd (length qs) (?z sealed) off = rd (length qs) sealed off"
    using assms(2,4,6) len by (auto simp: rd_wr_below rd_wr_above)
  have split: "?z sealed = take off (?z sealed) @ rd (length qs) (?z sealed) off @ drop (off + length qs) (?z sealed)"
    by (simp add: rd_def add.commute [of off] flip: drop_drop)
  have "length (rd (length qs) blk off) = length qs" using assms by simp
  then have "Carafs_Crc32c 0 (?z (wr sealed off qs)) \<noteq> Carafs_Crc32c 0 (?z sealed)"
    unfolding z_wr wr_def [of "?z sealed"]
    by (subst split, unfold rd_z same) (rule Crc32c_burst; use assms in simp)
  then show ?thesis using assms len ok keep by (simp add: BlockCrc_append)
qed

text \<open>
  C27. The table-driven CRC is the bit-by-bit CRC-32C of the polynomial definition, for every
  seed and message, and staged calls compose to the call on the concatenation.
\<close>

theorem Carafs_Crc32c_reference:
  "Carafs_Crc32c seed data = crc32c_ref seed data \<and>
   Carafs_Crc32c (Carafs_Crc32c seed data) rest = Carafs_Crc32c seed (data @ rest)"
  by (simp add: Carafs_Crc32c_def crc32c_ref_def foldl_crc_ref)

text \<open>
  C28. \<^verbatim>\<open>Carafs_NameEq\<close> holds exactly when the names agree after ASCII folding; equal names have
  equal hashes, so a lookup by hash cannot miss a name that differs in case only.
\<close>

theorem Carafs_NameEq_hash:
  "(Carafs_NameEq a b \<longleftrightarrow> map Carafs_FoldByte a = map Carafs_FoldByte b) \<and>
   (Carafs_NameEq a b \<longrightarrow> Carafs_NameHash a = Carafs_NameHash b)"
proof -
  have iff: "Carafs_NameEq a b \<longleftrightarrow> map Carafs_FoldByte a = map Carafs_FoldByte b"
    by (cases "length a = length b") (auto simp: Carafs_NameEq_def name_eq_loop_iff dest: map_eq_imp_length_eq)
  then show ?thesis by (metis NameHash_fold)
qed


section \<open>Witnesses\<close>

theorem Carafs_BlockCrc_detects_witness:
  "rd32 (wr (carafs_put_crc (replicate 512 0) 512 4) 100 [7, 0, 9]) 4 \<noteq>
   Carafs_BlockCrc (wr (carafs_put_crc (replicate 512 0) 512 4) 100 [7, 0, 9]) 512 4"
proof -
  have "[7, 0, 9] \<noteq> rd (length [7, 0, 9 :: u8]) (replicate 512 0) 100" by (simp add: rd_def numeral_3_eq_3)
  then show ?thesis
    using Carafs_BlockCrc_detects [of "replicate 512 0" 512 4 _ 100 "[7, 0, 9]", OF _ _ refl] by simp
qed

theorem Carafs_NameEq_hash_witness:
  "Carafs_NameEq [0x41, 0x62] [0x61, 0x42] \<and> Carafs_NameHash [0x41, 0x62] = Carafs_NameHash [0x61, 0x42]"
proof -
  have "Carafs_NameEq [0x41, 0x62] [0x61, 0x42]" by (simp add: Carafs_NameEq_def Carafs_FoldByte_def)
  then show ?thesis using Carafs_NameEq_hash by blast
qed

definition sb_ex :: CarafsSuperblock where
  "sb_ex = \<lparr>sb_magic = CARAFS_SB_MAGIC, sb_crc32c = 0, sb_version = 1, sb_compat = 0, sb_ro_compat = 0,
     sb_incompat = 0, sb_block_size_log2 = 12, sb_state = 1, sb_ag_size_blocks = 32256, sb_total_blocks = 4096,
     sb_journal_start = 1, sb_journal_blocks = 257, sb_ag_count = 1, sb_ag_first_block = 258, sb_root_cnode = 259,
     sb_free_blocks = 3835, sb_backup_sb = 4095, sb_uuid = replicate 16 0, sb_name_len = 1,
     sb_name = 0x41 # replicate 62 0, sb_created_ns = 0, sb_modified_ns = 0\<rparr>"


end
