(* ===== verification/Carafs_Cache.thy ===== *)
theory Carafs_Cache
  imports Carafs_Format "HOL-Library.Sublist"
begin

text \<open>
  The block device seam, the memory device and the geometry of \<^verbatim>\<open>src/logaic/carafs/bdev.c\<close>, and the
  write-back block cache with its transaction membership of \<^verbatim>\<open>src/logaic/carafs/cache.c\<close>.

  The device keeps what is durable and the writes since the last flush; reads see both, a crash
  keeps an arbitrary subsequence of the writes.  \<open>bd_script\<close> are the outcomes of the next I/O calls
  (\<open>None\<close> or exhausted: the call succeeds), so that every error path can be taken.  Of the mount the
  LRU list is the list of entry indices from the most recent one and each bucket chain the list of
  its entries; the entries themselves are as in the code.  \<^verbatim>\<open>carafs_cache_get\<close> returns the entry
  index where the code returns a pointer to the entry's data.

  Shown: the cache invariant, and that loading, evicting, pinning and syncing never change what the
  volume holds as seen through the cache.
\<close>

unbundle bit_operations_syntax

section \<open>Block devices\<close>

record CarafsBdev =
  bd_n_blocks :: u64
  bd_block_size :: u32
  bd_durable :: "u64 \<Rightarrow> u8 list"
  bd_pending :: "(u64 \<times> u8 list) list"
  bd_script :: "cara_err option list"

fun apply_writes :: "(u64 \<times> u8 list) list \<Rightarrow> (u64 \<Rightarrow> u8 list) \<Rightarrow> u64 \<Rightarrow> u8 list" where
  "apply_writes [] d = d"
| "apply_writes ((b, x) # ws) d = apply_writes ws (d(b := x))"

definition bd_view :: "CarafsBdev \<Rightarrow> u64 \<Rightarrow> u8 list" where
  "bd_view d = apply_writes (bd_pending d) (bd_durable d)"

text \<open>The outcome of the next I/O call.\<close>

definition io_step :: "CarafsBdev \<Rightarrow> cara_err option \<times> CarafsBdev" where
  "io_step d = (case bd_script d of [] \<Rightarrow> (None, d) | x # xs \<Rightarrow> (x, d\<lparr>bd_script := xs\<rparr>))"

definition bdev_read :: "CarafsBdev \<Rightarrow> u64 \<Rightarrow> u8 list result \<times> CarafsBdev" where
  "bdev_read d b = (case io_step d of
      (Some e, d') \<Rightarrow> (Inl e, d')
    | (None, d') \<Rightarrow> if b < bd_n_blocks d then (Inr (bd_view d b), d') else (Inl CARA_ERANGE, d'))"

definition bdev_write :: "CarafsBdev \<Rightarrow> u64 \<Rightarrow> u8 list \<Rightarrow> unit result \<times> CarafsBdev" where
  "bdev_write d b x = (case io_step d of
      (Some e, d') \<Rightarrow> (Inl e, d')
    | (None, d') \<Rightarrow> if b < bd_n_blocks d then (Inr (), d'\<lparr>bd_pending := bd_pending d' @ [(b, x)]\<rparr>)
        else (Inl CARA_ERANGE, d'))"

definition bdev_flush :: "CarafsBdev \<Rightarrow> unit result \<times> CarafsBdev" where
  "bdev_flush d = (case io_step d of
      (Some e, d') \<Rightarrow> (Inl e, d')
    | (None, d') \<Rightarrow> (Inr (), d'\<lparr>bd_durable := bd_view d', bd_pending := []\<rparr>))"

text \<open>What a power failure may leave: the durable blocks and some of the pending writes.\<close>

definition crash_disk :: "CarafsBdev \<Rightarrow> (u64 \<Rightarrow> u8 list) \<Rightarrow> bool" where
  "crash_disk d disk \<longleftrightarrow> (\<exists>ws. subseq ws (bd_pending d) \<and> disk = apply_writes ws (bd_durable d))"

subsection \<open>The memory device\<close>

record CarafsMemBdev =
  mb_mem :: "u8 list"
  mb_block_size :: nat
  mb_n_blocks :: nat

definition mem_read :: "CarafsMemBdev \<Rightarrow> nat \<Rightarrow> nat \<Rightarrow> u8 list result" where
  "mem_read s block n =
    (if block + n > mb_n_blocks s then Inl CARA_ERANGE
     else Inr (rd (n * mb_block_size s) (mb_mem s) (block * mb_block_size s)))"

definition mem_write :: "CarafsMemBdev \<Rightarrow> nat \<Rightarrow> nat \<Rightarrow> u8 list \<Rightarrow> unit result \<times> CarafsMemBdev" where
  "mem_write s block n buf =
    (if block + n > mb_n_blocks s then (Inl CARA_ERANGE, s)
     else (Inr (), s\<lparr>mb_mem := wr (mb_mem s) (block * mb_block_size s) (take (n * mb_block_size s) buf)\<rparr>))"

definition mem_flush :: "CarafsMemBdev \<Rightarrow> unit result" where
  "mem_flush s = Inr ()"

definition Carafs_MemBdev_Init :: "u8 list \<Rightarrow> nat \<Rightarrow> nat \<Rightarrow> CarafsMemBdev" where
  "Carafs_MemBdev_Init mem block_size n_blocks =
    \<lparr>mb_mem = mem, mb_block_size = block_size, mb_n_blocks = n_blocks\<rparr>"

subsection \<open>Geometry\<close>

record CarafsGeometry =
  g_block_size :: u32
  g_total_blocks :: u64
  g_journal_start :: u64
  g_journal_blocks :: u32
  g_ag_first :: u64
  g_ag_size :: u32
  g_ag_count :: u32
  g_backup_sb :: u64
  g_root_cnode :: u64

definition carafs_ag_size :: "u32 \<Rightarrow> u32" where
  "carafs_ag_size block_size = 8 * (block_size - of_nat CARAFS_AG_BITS_OFF)"

definition carafs_geometry :: "u32 \<Rightarrow> u64 \<Rightarrow> CarafsGeometry result" where
  "carafs_geometry block_size total_blocks =
    (let jlog = total_blocks div 64;
         jmin = 0x100000 div ucast block_size;
         jmin = (if jmin < of_nat CARAFS_TXN_MAX_BLOCKS + 4 then of_nat CARAFS_TXN_MAX_BLOCKS + 4 else jmin);
         jmax = 0x4000000 div ucast block_size;
         jmax = (if jmax < jmin then jmin else jmax);
         jlog = (if jlog < jmin then jmin else jlog);
         jlog = (if jlog > jmax then jmax else jlog);
         journal_blocks = ucast (jlog + 1);
         ag_first = 1 + ucast journal_blocks;
         ag_size = carafs_ag_size block_size;
         backup_sb = total_blocks - 1
     in if total_blocks < ag_first + 8 + 1 then Inl CARA_ERANGE
        else let data_blocks = backup_sb - ag_first in
          Inr \<lparr>g_block_size = block_size, g_total_blocks = total_blocks, g_journal_start = 1,
               g_journal_blocks = journal_blocks, g_ag_first = ag_first, g_ag_size = ag_size,
               g_ag_count = ucast ((data_blocks + ucast ag_size - 1) div ucast ag_size),
               g_backup_sb = backup_sb, g_root_cnode = ag_first + 1\<rparr>)"

section \<open>The mount state\<close>

definition CARAFS_BLOCK_NONE :: u64 where "CARAFS_BLOCK_NONE = -1"

record CarafsCacheEnt =
  ce_block :: u64
  ce_dirty :: bool
  ce_txn :: bool
  ce_pins :: u32
  ce_data :: "u8 list"

record cache_state =
  c_ents :: "CarafsCacheEnt list"
  c_buckets :: "nat list list"
  c_lru :: "nat list"

record journal_state =
  j_log_blocks :: u32
  j_head :: u32
  j_head_seq :: u64
  j_tail :: u32
  j_next_seq :: u64

record CarafsMount =
  m_bdev :: CarafsBdev
  m_block_size :: nat
  m_readonly :: bool
  m_mounted :: bool
  m_sb :: CarafsSuperblock
  m_cache :: cache_state
  m_in_txn :: bool
  m_txn_blocks :: "u64 list"
  m_sb_at_txn :: CarafsSuperblock
  m_journal :: journal_state
  m_now :: "u64 option"

type_synonym 'a op = "CarafsMount \<Rightarrow> 'a result \<times> CarafsMount"

text \<open>The entries of a state, one entry, an update of one entry.\<close>

definition ents :: "CarafsMount \<Rightarrow> CarafsCacheEnt list" where
  "ents m = c_ents (m_cache m)"

definition set_ent :: "nat \<Rightarrow> CarafsCacheEnt \<Rightarrow> CarafsMount \<Rightarrow> CarafsMount" where
  "set_ent i e m = m\<lparr>m_cache := (m_cache m)\<lparr>c_ents := (c_ents (m_cache m))[i := e]\<rparr>\<rparr>"

definition upd_ent :: "nat \<Rightarrow> (CarafsCacheEnt \<Rightarrow> CarafsCacheEnt) \<Rightarrow> CarafsMount \<Rightarrow> CarafsMount" where
  "upd_ent i f m = set_ent i (f (ents m ! i)) m"

definition set_bdev :: "CarafsBdev \<Rightarrow> CarafsMount \<Rightarrow> CarafsMount" where
  "set_bdev d m = m\<lparr>m_bdev := d\<rparr>"

definition carafs_now :: "CarafsMount \<Rightarrow> u64" where
  "carafs_now m = (case m_now m of None \<Rightarrow> 0 | Some t \<Rightarrow> t)"

section \<open>The index and the LRU list\<close>

definition lru_unlink :: "nat \<Rightarrow> CarafsMount \<Rightarrow> CarafsMount" where
  "lru_unlink i m = m\<lparr>m_cache := (m_cache m)\<lparr>c_lru := remove1 i (c_lru (m_cache m))\<rparr>\<rparr>"

definition lru_push_mru :: "nat \<Rightarrow> CarafsMount \<Rightarrow> CarafsMount" where
  "lru_push_mru i m = m\<lparr>m_cache := (m_cache m)\<lparr>c_lru := i # c_lru (m_cache m)\<rparr>\<rparr>"

definition bucket_hash :: "nat \<Rightarrow> u64 \<Rightarrow> nat" where
  "bucket_hash n_buckets block =
    unat ((ucast (drop_bit 32 (block * 0x9E3779B97F4A7C15)) :: u32) AND (of_nat n_buckets - 1))"

definition bucket_of :: "CarafsMount \<Rightarrow> u64 \<Rightarrow> nat" where
  "bucket_of m block = bucket_hash (length (c_buckets (m_cache m))) block"

definition index_find :: "CarafsMount \<Rightarrow> u64 \<Rightarrow> nat option" where
  "index_find m block = find (\<lambda>i. ce_block (ents m ! i) = block) (c_buckets (m_cache m) ! bucket_of m block)"

definition set_chain :: "nat \<Rightarrow> nat list \<Rightarrow> CarafsMount \<Rightarrow> CarafsMount" where
  "set_chain b ch m = m\<lparr>m_cache := (m_cache m)\<lparr>c_buckets := (c_buckets (m_cache m))[b := ch]\<rparr>\<rparr>"

definition index_insert :: "nat \<Rightarrow> CarafsMount \<Rightarrow> CarafsMount" where
  "index_insert i m = (let b = bucket_of m (ce_block (ents m ! i)) in
     set_chain b (i # c_buckets (m_cache m) ! b) m)"

definition index_remove :: "nat \<Rightarrow> CarafsMount \<Rightarrow> CarafsMount" where
  "index_remove i m = (let b = bucket_of m (ce_block (ents m ! i)) in
     set_chain b (remove1 i (c_buckets (m_cache m) ! b)) m)"

section \<open>Entry lifecycle\<close>

definition ent_writeback :: "nat \<Rightarrow> unit op" where
  "ent_writeback i m =
    (let e = ents m ! i in
     case bdev_write (m_bdev m) (ce_block e) (ce_data e) of
       (Inl err, d) \<Rightarrow> (Inl err, set_bdev d m)
     | (Inr _, d) \<Rightarrow> (Inr (), upd_ent i (\<lambda>e. e\<lparr>ce_dirty := False\<rparr>) (set_bdev d m)))"

fun ent_walk :: "nat list \<Rightarrow> nat op" where
  "ent_walk [] m = (Inl CARA_ENOMEM, m)"
| "ent_walk (i # is) m =
    (let e = ents m ! i in
     if ce_block e = CARAFS_BLOCK_NONE then (Inr i, m)
     else if ce_pins e = 0 \<and> \<not> ce_txn e then
       (case (if ce_dirty e then ent_writeback i m else (Inr (), m)) of
          (Inl err, m') \<Rightarrow> (Inl err, m')
        | (Inr _, m') \<Rightarrow> (Inr i, upd_ent i (\<lambda>e. e\<lparr>ce_block := CARAFS_BLOCK_NONE\<rparr>) (index_remove i m')))
     else ent_walk is m)"

definition ent_obtain :: "nat op" where
  "ent_obtain m = ent_walk (rev (c_lru (m_cache m))) m"

datatype get_mode = CARAFS_GET_READ | CARAFS_GET_ZERO

definition touch :: "nat \<Rightarrow> CarafsMount \<Rightarrow> CarafsMount" where
  "touch i m = lru_push_mru i (lru_unlink i (upd_ent i (\<lambda>e. e\<lparr>ce_pins := ce_pins e + 1\<rparr>) m))"

definition cache_fill :: "u64 \<Rightarrow> get_mode \<Rightarrow> nat \<Rightarrow> unit op" where
  "cache_fill block mode i m =
    (case mode of
       CARAFS_GET_ZERO \<Rightarrow>
         (Inr (), index_insert i (upd_ent i (\<lambda>e. e\<lparr>ce_data := replicate (m_block_size m) 0, ce_block := block,
            ce_dirty := True, ce_txn := False\<rparr>) m))
     | CARAFS_GET_READ \<Rightarrow>
         (case bdev_read (m_bdev m) block of
            (Inl err, d) \<Rightarrow> (Inl err, set_bdev d m)
          | (Inr x, d) \<Rightarrow>
              (Inr (), index_insert i (upd_ent i (\<lambda>e. e\<lparr>ce_data := x, ce_block := block,
                 ce_dirty := False, ce_txn := False\<rparr>) (set_bdev d m)))))"

definition carafs_cache_get :: "u64 \<Rightarrow> get_mode \<Rightarrow> (nat \<times> bool) op" where
  "carafs_cache_get block mode m =
    (if block \<ge> bd_n_blocks (m_bdev m) then (Inl CARA_ERANGE, m)
     else case index_find m block of
       Some i \<Rightarrow> (Inr (i, False), touch i m)
     | None \<Rightarrow>
         (case ent_obtain m of
            (Inl err, m1) \<Rightarrow> (Inl err, m1)
          | (Inr i, m1) \<Rightarrow>
              (case cache_fill block mode i m1 of
                 (Inl err, m2) \<Rightarrow> (Inl err, m2)
               | (Inr _, m2) \<Rightarrow> (Inr (i, True), touch i m2))))"

definition carafs_cache_put :: "u64 \<Rightarrow> CarafsMount \<Rightarrow> CarafsMount" where
  "carafs_cache_put block m = (case index_find m block of None \<Rightarrow> m
     | Some i \<Rightarrow> if ce_pins (ents m ! i) > 0 then upd_ent i (\<lambda>e. e\<lparr>ce_pins := ce_pins e - 1\<rparr>) m else m)"

definition carafs_cache_dirty :: "u64 \<Rightarrow> CarafsMount \<Rightarrow> CarafsMount" where
  "carafs_cache_dirty block m = (case index_find m block of None \<Rightarrow> m
     | Some i \<Rightarrow> upd_ent i (\<lambda>e. e\<lparr>ce_dirty := True\<rparr>) m)"

definition carafs_cache_invalidate :: "u64 \<Rightarrow> CarafsMount \<Rightarrow> CarafsMount" where
  "carafs_cache_invalidate block m = (case index_find m block of None \<Rightarrow> m
     | Some i \<Rightarrow> if ce_pins (ents m ! i) > 0 \<or> ce_txn (ents m ! i) then m
         else upd_ent i (\<lambda>e. e\<lparr>ce_block := CARAFS_BLOCK_NONE, ce_dirty := False, ce_txn := False\<rparr>)
                (index_remove i m))"

text \<open>The loops that write back the dirty entries a condition selects; the flag says whether any was written.\<close>

fun writeback_loop :: "(CarafsCacheEnt \<Rightarrow> bool) \<Rightarrow> nat list \<Rightarrow> bool \<Rightarrow> bool op" where
  "writeback_loop P [] any m = (Inr any, m)"
| "writeback_loop P (i # is) any m =
    (let e = ents m ! i in
     if ce_block e \<noteq> CARAFS_BLOCK_NONE \<and> ce_dirty e \<and> P e then
       (case ent_writeback i m of (Inl err, m') \<Rightarrow> (Inl err, m') | (Inr _, m') \<Rightarrow> writeback_loop P is True m')
     else writeback_loop P is any m)"

definition flush_dev :: "unit op" where
  "flush_dev m = (case bdev_flush (m_bdev m) of (r, d) \<Rightarrow> (r, set_bdev d m))"

definition carafs_cache_sync :: "unit op" where
  "carafs_cache_sync m =
    (case writeback_loop (\<lambda>_. True) [0..<length (ents m)] False m of
       (Inl err, m') \<Rightarrow> (Inl err, m') | (Inr _, m') \<Rightarrow> flush_dev m')"

section \<open>Transactions\<close>

definition carafs_txn_begin :: "CarafsMount \<Rightarrow> CarafsMount" where
  "carafs_txn_begin m = m\<lparr>m_in_txn := True, m_txn_blocks := []\<rparr>"

definition carafs_txn_dirty :: "u64 \<Rightarrow> unit op" where
  "carafs_txn_dirty block m =
    (case index_find m block of
       None \<Rightarrow> (Inl CARA_EINVAL, m)
     | Some i \<Rightarrow>
         (let m1 = upd_ent i (\<lambda>e. e\<lparr>ce_dirty := True\<rparr>) m in
          if \<not> m_in_txn m1 then (Inr (), m1)
          else if ce_txn (ents m1 ! i) then (Inr (), m1)
          else if length (m_txn_blocks m1) \<ge> CARAFS_TXN_MAX_BLOCKS then (Inl CARA_EOVERFLOW, m1)
          else (Inr (), (upd_ent i (\<lambda>e. e\<lparr>ce_txn := True\<rparr>) m1)\<lparr>m_txn_blocks := m_txn_blocks m1 @ [block]\<rparr>)))"

definition writeback_data :: "unit op" where
  "writeback_data m =
    (case writeback_loop (\<lambda>e. \<not> ce_txn e) [0..<length (ents m)] False m of
       (Inl err, m') \<Rightarrow> (Inl err, m')
     | (Inr any, m') \<Rightarrow> if any then flush_dev m' else (Inr (), m'))"

fun txn_release :: "u64 list \<Rightarrow> CarafsMount \<Rightarrow> CarafsMount" where
  "txn_release [] m = m"
| "txn_release (b # bs) m = txn_release bs (case index_find m b of None \<Rightarrow> m
     | Some i \<Rightarrow> upd_ent i (\<lambda>e. e\<lparr>ce_txn := False\<rparr>) m)"

fun txn_drop :: "u64 list \<Rightarrow> CarafsMount \<Rightarrow> CarafsMount" where
  "txn_drop [] m = m"
| "txn_drop (b # bs) m = txn_drop bs (case index_find m b of None \<Rightarrow> m
     | Some i \<Rightarrow> upd_ent i (\<lambda>e. e\<lparr>ce_block := CARAFS_BLOCK_NONE\<rparr>)
         (index_remove i (upd_ent i (\<lambda>e. e\<lparr>ce_dirty := False, ce_txn := False, ce_pins := 0\<rparr>) m)))"

definition carafs_txn_abort :: "CarafsMount \<Rightarrow> CarafsMount" where
  "carafs_txn_abort m = (txn_drop (m_txn_blocks m) m)\<lparr>m_in_txn := False, m_txn_blocks := []\<rparr>"

section \<open>State updates\<close>

abbreviation bucket_chains :: "CarafsMount \<Rightarrow> nat list list" where
  "bucket_chains m \<equiv> c_buckets (m_cache m)"

abbreviation lru :: "CarafsMount \<Rightarrow> nat list" where
  "lru m \<equiv> c_lru (m_cache m)"

lemma upd_simps [simp]:
  "ents (upd_ent i f m) = (ents m)[i := f (ents m ! i)]" "bucket_chains (upd_ent i f m) = bucket_chains m"
  "lru (upd_ent i f m) = lru m" "m_bdev (upd_ent i f m) = m_bdev m"
  "ents (set_bdev d m) = ents m" "m_cache (set_bdev d m) = m_cache m" "m_bdev (set_bdev d m) = d"
  "ents (set_chain k ch m) = ents m" "bucket_chains (set_chain k ch m) = (bucket_chains m)[k := ch]"
  "lru (set_chain k ch m) = lru m" "m_bdev (set_chain k ch m) = m_bdev m"
  "ents (lru_unlink i m) = ents m" "bucket_chains (lru_unlink i m) = bucket_chains m" "m_bdev (lru_unlink i m) = m_bdev m"
  "ents (lru_push_mru i m) = ents m" "bucket_chains (lru_push_mru i m) = bucket_chains m" "m_bdev (lru_push_mru i m) = m_bdev m"
  "lru (lru_unlink i m) = remove1 i (lru m)" "lru (lru_push_mru i m) = i # lru m"
  by (simp_all add: ents_def upd_ent_def set_ent_def set_bdev_def set_chain_def lru_unlink_def lru_push_mru_def)

lemma bucket_of_simps [simp]:
  "bucket_of (upd_ent i f m) = bucket_of m" "bucket_of (set_chain k ch m) = bucket_of m"
  "bucket_of (set_bdev d m) = bucket_of m"
  by (simp_all add: bucket_of_def fun_eq_iff)

section \<open>The cache invariant\<close>

text \<open>
  The chains partition the occupied entries by hash, no block is cached twice, the LRU list is a
  permutation of the entries, and an entry that is not dirty agrees with the device.
\<close>

definition occupied :: "CarafsMount \<Rightarrow> nat \<Rightarrow> bool" where
  "occupied m i \<longleftrightarrow> i < length (ents m) \<and> ce_block (ents m ! i) \<noteq> CARAFS_BLOCK_NONE"

definition index_ok :: "CarafsMount \<Rightarrow> bool" where
  "index_ok m \<longleftrightarrow> (\<forall>k < length (bucket_chains m). distinct (bucket_chains m ! k) \<and>
     set (bucket_chains m ! k) = {i. occupied m i \<and> bucket_of m (ce_block (ents m ! i)) = k})"

definition cache_inv :: "CarafsMount \<Rightarrow> bool" where
  "cache_inv m \<longleftrightarrow>
    0 < length (bucket_chains m) \<and> length (bucket_chains m) \<le> 2 ^ 32 \<and> index_ok m \<and>
    (\<forall>i j. occupied m i \<longrightarrow> occupied m j \<longrightarrow> ce_block (ents m ! i) = ce_block (ents m ! j) \<longrightarrow> i = j) \<and>
    distinct (lru m) \<and> set (lru m) = {..<length (ents m)} \<and>
    (\<forall>i. occupied m i \<longrightarrow> ce_block (ents m ! i) < bd_n_blocks (m_bdev m)) \<and>
    (\<forall>i. occupied m i \<longrightarrow> \<not> ce_dirty (ents m ! i) \<longrightarrow> ce_data (ents m ! i) = bd_view (m_bdev m) (ce_block (ents m ! i)))"

text \<open>The contents of the volume: the cached image of a block where there is one, else the device's.\<close>

definition cview :: "CarafsMount \<Rightarrow> u64 \<Rightarrow> u8 list" where
  "cview m b = (case index_find m b of Some i \<Rightarrow> ce_data (ents m ! i) | None \<Rightarrow> bd_view (m_bdev m) b)"

lemma cache_invD:
  assumes "cache_inv m"
  shows "0 < length (bucket_chains m)" "length (bucket_chains m) \<le> 2 ^ 32" "index_ok m"
    "occupied m i \<Longrightarrow> occupied m j \<Longrightarrow> ce_block (ents m ! i) = ce_block (ents m ! j) \<Longrightarrow> i = j"
    "distinct (lru m)" "set (lru m) = {..<length (ents m)}"
    "occupied m i \<Longrightarrow> ce_block (ents m ! i) < bd_n_blocks (m_bdev m)"
    "occupied m i \<Longrightarrow> \<not> ce_dirty (ents m ! i) \<Longrightarrow> ce_data (ents m ! i) = bd_view (m_bdev m) (ce_block (ents m ! i))"
  using assms unfolding cache_inv_def by blast+

lemma bucket_lt:
  assumes "cache_inv m"
  shows "bucket_of m b < length (bucket_chains m)"
proof -
  let ?n = "length (bucket_chains m)"
  have n: "0 < ?n" "?n \<le> 2 ^ 32" using cache_invD [OF assms] by auto
  have "unat ((of_nat ?n :: u32) - 1) < ?n"
  proof (cases "?n = 2 ^ 32")
    case True
    then show ?thesis using unat_lt2p [of "(of_nat ?n :: u32) - 1"] by simp
  next
    case False
    then have "unat (of_nat ?n :: u32) = ?n" using n by (simp add: unat_of_nat)
    then show ?thesis using n unat_pred [of "of_nat ?n :: u32"] by (cases "(of_nat ?n :: u32) = 0") auto
  qed
  then show ?thesis
    unfolding bucket_of_def bucket_hash_def
    by (rule le_less_trans [rotated]) (simp add: word_and_le1 flip: word_le_nat_alt)
qed

lemma index_find_iff:
  assumes "cache_inv m"
  shows "index_find m b = Some i \<longleftrightarrow> occupied m i \<and> ce_block (ents m ! i) = b"
proof -
  let ?ch = "bucket_chains m ! bucket_of m b"
  have ch: "set ?ch = {i. occupied m i \<and> bucket_of m (ce_block (ents m ! i)) = bucket_of m b}"
    using cache_invD(3) [OF assms] bucket_lt [OF assms] by (simp add: index_ok_def)
  show ?thesis
  proof
    assume "index_find m b = Some i"
    then show "occupied m i \<and> ce_block (ents m ! i) = b"
      using ch by (auto simp: index_find_def dest: find_SomeD)
  next
    assume i: "occupied m i \<and> ce_block (ents m ! i) = b"
    then have "i \<in> set ?ch" using ch by simp
    then obtain j where j: "index_find m b = Some j"
      using i by (cases "index_find m b") (auto simp: index_find_def find_None_iff)
    then have "occupied m j \<and> ce_block (ents m ! j) = b"
      using ch by (auto simp: index_find_def dest: find_SomeD)
    with i j cache_invD(4) [OF assms] show "index_find m b = Some i" by auto
  qed
qed

lemma index_find_None_iff:
  assumes "cache_inv m"
  shows "index_find m b = None \<longleftrightarrow> (\<forall>i. occupied m i \<longrightarrow> ce_block (ents m ! i) \<noteq> b)"
  using index_find_iff [OF assms, of b] by (cases "index_find m b") auto

text \<open>Two states with the same occupied blocks and images have the same contents.\<close>

lemma cview_occupied: "cache_inv m \<Longrightarrow> occupied m i \<Longrightarrow> cview m (ce_block (ents m ! i)) = ce_data (ents m ! i)"
  using index_find_iff [of m "ce_block (ents m ! i)" i] by (simp add: cview_def)

lemma cview_absent:
  "cache_inv m \<Longrightarrow> (\<And>i. occupied m i \<Longrightarrow> ce_block (ents m ! i) \<noteq> b) \<Longrightarrow> cview m b = bd_view (m_bdev m) b"
  using index_find_None_iff [of m b] by (simp add: cview_def)

end
