(* ===== verification/Carafs_Cache_View.thy ===== *)
theory Carafs_Cache_View
  imports Carafs_Cache
begin

text \<open>
  The block cache of \<^verbatim>\<open>src/logaic/carafs/cache.c\<close> is transparent: every operation keeps the cache
  invariant, and loading, evicting, pinning and syncing leave the contents of the volume, as seen
  through the cache, unchanged.
\<close>

section \<open>The cache is transparent\<close>

text \<open>A change of pins, flags to dirty, or LRU order.\<close>

lemma occupied_cong:
  assumes "length (ents m') = length (ents m)" and "\<And>j. j < length (ents m) \<Longrightarrow> ce_block (ents m' ! j) = ce_block (ents m ! j)"
  shows "occupied m' i = occupied m i"
  using assms by (auto simp: occupied_def)

lemma inv_same_blocks:
  assumes inv: "cache_inv m" and len: "length (ents m') = length (ents m)"
    and blk: "\<And>j. j < length (ents m) \<Longrightarrow> ce_block (ents m' ! j) = ce_block (ents m ! j)"
    and ch: "bucket_chains m' = bucket_chains m" and l: "distinct (lru m')" "set (lru m') = set (lru m)"
    and n: "bd_n_blocks (m_bdev m') = bd_n_blocks (m_bdev m)"
    and clean: "\<And>j. occupied m j \<Longrightarrow> \<not> ce_dirty (ents m' ! j) \<Longrightarrow>
      ce_data (ents m' ! j) = bd_view (m_bdev m') (ce_block (ents m ! j))"
  shows "cache_inv m'" and "index_find m' = index_find m"
proof -
  have occ: "occupied m' = occupied m" using occupied_cong [OF len] blk by blast
  have blk': "ce_block (ents m' ! j) = ce_block (ents m ! j)" if "occupied m j" for j
    using blk that by (simp add: occupied_def)
  have buck: "bucket_of m' = bucket_of m" by (simp add: bucket_of_def fun_eq_iff ch)
  have "{i. occupied m i \<and> bucket_of m (ce_block (ents m' ! i)) = k} =
        {i. occupied m i \<and> bucket_of m (ce_block (ents m ! i)) = k}" for k
    using blk' by auto
  then have ok: "index_ok m'" using cache_invD(3) [OF inv] by (simp add: index_ok_def occ ch buck)
  show inv': "cache_inv m'"
    unfolding cache_inv_def occ ch
  proof (intro conjI allI impI)
    fix i j assume "occupied m i" "occupied m j" "ce_block (ents m' ! i) = ce_block (ents m' ! j)"
    then show "i = j" using cache_invD(4) [OF inv, of i j] by (simp add: blk')
  next
    fix i assume "occupied m i"
    then show "ce_block (ents m' ! i) < bd_n_blocks (m_bdev m')" using cache_invD(7) [OF inv, of i] by (simp add: blk' n)
  next
    fix i assume "occupied m i" "\<not> ce_dirty (ents m' ! i)"
    then show "ce_data (ents m' ! i) = bd_view (m_bdev m') (ce_block (ents m' ! i))" using clean [of i] by (simp add: blk')
  qed (use cache_invD [OF inv] ok l len in simp_all)
  show "index_find m' = index_find m"
  proof
    fix b show "index_find m' b = index_find m b"
    proof (cases "index_find m b")
      case None
      then have "index_find m' b = None"
        unfolding index_find_None_iff [OF inv] index_find_None_iff [OF inv'] occ using blk' by simp
      with None show ?thesis by simp
    next
      case (Some i)
      then have "index_find m' b = Some i"
        unfolding index_find_iff [OF inv] index_find_iff [OF inv'] occ using blk' by simp
      with Some show ?thesis by simp
    qed
  qed
qed

lemma touch_inv:
  assumes "cache_inv m" and "i < length (ents m)"
  shows "cache_inv (touch i m)" and "cview (touch i m) = cview m"
    and "ents (touch i m) = (ents m)[i := (ents m ! i)\<lparr>ce_pins := ce_pins (ents m ! i) + 1\<rparr>]"
    and "m_bdev (touch i m) = m_bdev m"
proof -
  let ?m = "touch i m"
  show e: "ents ?m = (ents m)[i := (ents m ! i)\<lparr>ce_pins := ce_pins (ents m ! i) + 1\<rparr>]" and d: "m_bdev ?m = m_bdev m"
    by (simp_all add: touch_def)
  have l: "lru ?m = i # remove1 i (lru m)" and c: "bucket_chains ?m = bucket_chains m" by (simp_all add: touch_def)
  have sel: "ce_block (ents ?m ! j) = ce_block (ents m ! j)" "ce_data (ents ?m ! j) = ce_data (ents m ! j)"
    "ce_dirty (ents ?m ! j) = ce_dirty (ents m ! j)" for j
    using assms(2) by (cases "j = i"; simp add: e)+
  have len: "length (ents ?m) = length (ents m)" by (simp add: e)
  have s: "cache_inv ?m \<and> index_find ?m = index_find m"
    using assms cache_invD(5,6,8) [OF assms(1)]
    by (intro conjI; intro inv_same_blocks [OF assms(1)]) (auto simp: sel len d l c)
  then show "cache_inv ?m" by blast
  show "cview ?m = cview m"
    using s by (auto simp: cview_def fun_eq_iff sel d split: option.splits)
qed

text \<open>Taking an entry out of the index.\<close>

definition evict :: "nat \<Rightarrow> CarafsMount \<Rightarrow> CarafsMount" where
  "evict i m = upd_ent i (\<lambda>e. e\<lparr>ce_block := CARAFS_BLOCK_NONE\<rparr>) (index_remove i m)"

lemma evict_simps [simp]:
  "ents (evict i m) = (ents m)[i := (ents m ! i)\<lparr>ce_block := CARAFS_BLOCK_NONE\<rparr>]" "m_bdev (evict i m) = m_bdev m"
  "lru (evict i m) = lru m" "bucket_of (evict i m) = bucket_of m"
  by (simp_all add: evict_def index_remove_def Let_def)

lemma occupied_evict:
  "occupied (evict i m) j \<longleftrightarrow> occupied m j \<and> j \<noteq> i"
  by (cases "j = i") (auto simp: occupied_def)

lemma evict_inv:
  assumes inv: "cache_inv m" and i: "occupied m i"
  shows "cache_inv (evict i m)"
proof -
  let ?k = "bucket_of m (ce_block (ents m ! i))"
  have k: "?k < length (bucket_chains m)" using bucket_lt [OF inv] .
  have ch: "bucket_chains (evict i m) = (bucket_chains m)[?k := remove1 i (bucket_chains m ! ?k)]"
    by (simp add: evict_def index_remove_def Let_def)
  have ents': "ents (evict i m) ! j = ents m ! j" if "j \<noteq> i" for j using that by simp
  have "index_ok (evict i m)"
    unfolding index_ok_def
  proof (intro allI impI)
    fix k assume "k < length (bucket_chains (evict i m))"
    then have old: "distinct (bucket_chains m ! k)"
      "set (bucket_chains m ! k) = {j. occupied m j \<and> bucket_of m (ce_block (ents m ! j)) = k}"
      using cache_invD(3) [OF inv] by (simp_all add: index_ok_def ch)
    have new: "bucket_chains (evict i m) ! k = (if k = ?k then remove1 i (bucket_chains m ! k) else bucket_chains m ! k)"
      using k by (simp add: ch)
    have "{j. occupied (evict i m) j \<and> bucket_of m (ce_block (ents (evict i m) ! j)) = k} =
      {j. occupied m j \<and> bucket_of m (ce_block (ents m ! j)) = k} - {i}"
      using ents' by (auto simp: occupied_evict simp del: evict_simps(1))
    then have eq: "{j. occupied (evict i m) j \<and> bucket_of (evict i m) (ce_block (ents (evict i m) ! j)) = k} =
      set (bucket_chains m ! k) - {i}"
      using old(2) by (simp only: evict_simps(4))
    have "i \<notin> set (bucket_chains m ! k)" if "k \<noteq> ?k" using old(2) that by simp
    then show "distinct (bucket_chains (evict i m) ! k) \<and> set (bucket_chains (evict i m) ! k) =
      {j. occupied (evict i m) j \<and> bucket_of (evict i m) (ce_block (ents (evict i m) ! j)) = k}"
      unfolding eq new using old(1) by (cases "k = ?k") simp_all
  qed
  moreover have len: "length (ents (evict i m)) = length (ents m)" by simp
  ultimately show ?thesis
    unfolding cache_inv_def
  proof (intro conjI allI impI)
    fix a b assume "occupied (evict i m) a" "occupied (evict i m) b"
      "ce_block (ents (evict i m) ! a) = ce_block (ents (evict i m) ! b)"
    then show "a = b" using cache_invD(4) [OF inv, of a b] ents' by (simp add: occupied_evict del: evict_simps(1))
  next
    fix a assume "occupied (evict i m) a"
    then show "ce_block (ents (evict i m) ! a) < bd_n_blocks (m_bdev (evict i m))"
      using cache_invD(7) [OF inv, of a] ents' by (simp add: occupied_evict del: evict_simps(1))
  next
    fix a assume "occupied (evict i m) a" "\<not> ce_dirty (ents (evict i m) ! a)"
    then show "ce_data (ents (evict i m) ! a) = bd_view (m_bdev (evict i m)) (ce_block (ents (evict i m) ! a))"
      using cache_invD(8) [OF inv, of a] ents' by (simp add: occupied_evict del: evict_simps(1))
  qed (use cache_invD [OF inv] ch in \<open>simp_all del: evict_simps(1)\<close>)
qed

lemma evict_view:
  assumes inv: "cache_inv m" and i: "occupied m i" and clean: "ce_data (ents m ! i) = bd_view (m_bdev m) (ce_block (ents m ! i))"
  shows "cview (evict i m) = cview m"
proof
  fix b
  note inv' = evict_inv [OF inv i]
  have ents': "ents (evict i m) ! j = ents m ! j" if "j \<noteq> i" for j using that by simp
  show "cview (evict i m) b = cview m b"
  proof (cases "\<exists>j. occupied m j \<and> ce_block (ents m ! j) = b \<and> j \<noteq> i")
    case True
    then obtain j where j: "occupied m j" "ce_block (ents m ! j) = b" "j \<noteq> i" by blast
    then have "cview m b = ce_data (ents m ! j)" using cview_occupied [OF inv, of j] by simp
    moreover have "cview (evict i m) b = ce_data (ents m ! j)"
      using cview_occupied [OF inv', of j] j ents' by (simp add: occupied_evict)
    ultimately show ?thesis by simp
  next
    case False
    have "ce_block (ents (evict i m) ! j) \<noteq> b" if "occupied (evict i m) j" for j
      using that False ents' [of j] by (auto simp: occupied_evict simp del: evict_simps(1))
    then have "cview (evict i m) b = bd_view (m_bdev m) b"
      using cview_absent [OF inv', of b] by simp
    moreover have "cview m b = bd_view (m_bdev m) b"
      using False cview_occupied [OF inv i] cview_absent [OF inv, of b] clean
      by (cases "ce_block (ents m ! i) = b") auto
    ultimately show ?thesis by simp
  qed
qed

section \<open>Device calls\<close>

lemma apply_writes_snoc: "apply_writes (ws @ [(b, x)]) d = (apply_writes ws d)(b := x)"
  by (induction ws arbitrary: d) auto

lemma io_step_frame: "io_step d = (r, d') \<Longrightarrow> bd_view d' = bd_view d \<and> bd_n_blocks d' = bd_n_blocks d"
  by (auto simp: io_step_def bd_view_def split: list.splits)

lemma bdev_read_frame:
  "bdev_read d b = (r, d') \<Longrightarrow> bd_view d' = bd_view d \<and> bd_n_blocks d' = bd_n_blocks d \<and> (\<forall>x. r = Inr x \<longrightarrow> x = bd_view d b)"
  by (auto simp: bdev_read_def split: prod.splits option.splits if_splits dest: io_step_frame)

lemma bdev_write_frame:
  "bdev_write d b x = (r, d') \<Longrightarrow> bd_n_blocks d' = bd_n_blocks d \<and>
     bd_view d' = (case r of Inl _ \<Rightarrow> bd_view d | Inr _ \<Rightarrow> (bd_view d)(b := x))"
  by (auto simp: bdev_write_def bd_view_def apply_writes_snoc
      split: prod.splits option.splits if_splits dest!: io_step_frame)

lemma bdev_flush_frame:
  "bdev_flush d = (r, d') \<Longrightarrow> bd_view d' = bd_view d \<and> bd_n_blocks d' = bd_n_blocks d"
  by (auto simp: bdev_flush_def bd_view_def split: prod.splits option.splits dest: io_step_frame)

text \<open>A device call that changes no block.\<close>

lemma set_bdev_inv:
  assumes "cache_inv m" and "bd_view d = bd_view (m_bdev m)" and "bd_n_blocks d = bd_n_blocks (m_bdev m)"
  shows "cache_inv (set_bdev d m)" and "cview (set_bdev d m) = cview m"
proof -
  have s: "cache_inv (set_bdev d m) \<and> index_find (set_bdev d m) = index_find m"
    using assms cache_invD(5,6,8) [OF assms(1)] by (intro conjI; intro inv_same_blocks [OF assms(1)]) auto
  then show "cache_inv (set_bdev d m)" by blast
  show "cview (set_bdev d m) = cview m" using s assms(2) by (simp add: cview_def fun_eq_iff split: option.splits)
qed

lemma ent_writeback_inv:
  assumes inv: "cache_inv m" and i: "occupied m i" and wb: "ent_writeback i m = (r, m')"
  shows "cache_inv m'" and "cview m' = cview m" and "occupied m' i"
    and "r = Inr () \<Longrightarrow> ce_data (ents m' ! i) = bd_view (m_bdev m') (ce_block (ents m' ! i))"
    and "bd_n_blocks (m_bdev m') = bd_n_blocks (m_bdev m)"
    and "length (ents m') = length (ents m) \<and> lru m' = lru m \<and> m_block_size m' = m_block_size m"
proof -
  let ?e = "ents m ! i"
  obtain w d where w: "bdev_write (m_bdev m) (ce_block ?e) (ce_data ?e) = (w, d)" by fastforce
  note fr = bdev_write_frame [OF w]
  have i': "i < length (ents m)" using i by (simp add: occupied_def)
  have all: "cache_inv m' \<and> cview m' = cview m \<and> occupied m' i \<and>
    (r = Inr () \<longrightarrow> ce_data (ents m' ! i) = bd_view (m_bdev m') (ce_block (ents m' ! i))) \<and>
    bd_n_blocks (m_bdev m') = bd_n_blocks (m_bdev m) \<and>
    length (ents m') = length (ents m) \<and> lru m' = lru m \<and> m_block_size m' = m_block_size m"
  proof (cases w)
    case (Inl e)
    then have "m' = set_bdev d m" "r = Inl e" using wb w by (auto simp: ent_writeback_def)
    then show ?thesis using set_bdev_inv [OF inv, of d] fr Inl i by (simp add: occupied_def) (simp add: set_bdev_def)
  next
    case (Inr u)
    then have m': "m' = upd_ent i (\<lambda>e. e\<lparr>ce_dirty := False\<rparr>) (set_bdev d m)" using wb w by (auto simp: ent_writeback_def)
    have sel: "ce_block (ents m' ! j) = ce_block (ents m ! j)" "ce_data (ents m' ! j) = ce_data (ents m ! j)"
      "j \<noteq> i \<Longrightarrow> ce_dirty (ents m' ! j) = ce_dirty (ents m ! j)" for j
      using i' by (cases "j = i"; simp add: m')+
    have v: "bd_view (m_bdev m') = (bd_view (m_bdev m))(ce_block ?e := ce_data ?e)" using fr Inr by (simp add: m')
    have len: "length (ents m') = length (ents m)" "lru m' = lru m" "bucket_chains m' = bucket_chains m"
      "bd_n_blocks (m_bdev m') = bd_n_blocks (m_bdev m)" using fr by (simp_all add: m')
    have clean: "ce_data (ents m' ! j) = bd_view (m_bdev m') (ce_block (ents m ! j))"
      if "occupied m j" "\<not> ce_dirty (ents m' ! j)" for j
      using that cache_invD(8) [OF inv, of j] cache_invD(4) [OF inv that(1) i] by (cases "j = i") (auto simp: sel v)
    have s: "cache_inv m' \<and> index_find m' = index_find m"
      using cache_invD(5,6) [OF inv] clean by (intro conjI; intro inv_same_blocks [OF inv]) (auto simp: sel len)
    have "cview m' b = cview m b" for b
      using s index_find_None_iff [OF inv, of b] i
      by (auto simp: cview_def sel v split: option.splits)
    moreover have "occupied m' i" using i by (simp add: occupied_def len sel)
    ultimately show ?thesis using s len by (auto simp: sel v fun_eq_iff) (simp add: m' upd_ent_def set_ent_def set_bdev_def)
  qed
  then show "cache_inv m'" "cview m' = cview m" "occupied m' i"
    "r = Inr () \<Longrightarrow> ce_data (ents m' ! i) = bd_view (m_bdev m') (ce_block (ents m' ! i))"
    "bd_n_blocks (m_bdev m') = bd_n_blocks (m_bdev m)"
    "length (ents m') = length (ents m) \<and> lru m' = lru m \<and> m_block_size m' = m_block_size m" by blast+
qed

lemma ent_writeback_blocks:
  assumes "i < length (ents m)" and "ent_writeback i m = (r, m')"
  shows "ce_block (ents m' ! j) = ce_block (ents m ! j)"
  using assms by (cases "j = i") (auto simp: ent_writeback_def Let_def split: prod.splits sum.splits)

section \<open>Loading a block\<close>

text \<open>Blocks only leave the cache while a slot is searched for.\<close>

definition fewer :: "CarafsMount \<Rightarrow> CarafsMount \<Rightarrow> bool" where
  "fewer m' m \<longleftrightarrow> (\<forall>j. occupied m' j \<longrightarrow> occupied m j \<and> ce_block (ents m' ! j) = ce_block (ents m ! j))"

lemma ent_walk_inv:
  assumes "cache_inv m" and "set is \<subseteq> {..<length (ents m)}" and "ent_walk is m = (r, m')"
  shows "cache_inv m' \<and> cview m' = cview m \<and> fewer m' m \<and> length (ents m') = length (ents m) \<and>
    bd_n_blocks (m_bdev m') = bd_n_blocks (m_bdev m) \<and> m_block_size m' = m_block_size m \<and>
    (\<forall>i. r = Inr i \<longrightarrow> i \<in> set is \<and> ce_block (ents m' ! i) = CARAFS_BLOCK_NONE)"
  using assms(2,3)
proof (induction "is")
  case Nil
  then show ?case using assms(1) by (auto simp: fewer_def)
next
  case (Cons i js)
  let ?e = "ents m ! i"
  have i: "i < length (ents m)" using Cons.prems(1) by simp
  show ?case
  proof (cases "ce_block ?e = CARAFS_BLOCK_NONE")
    case True
    then show ?thesis using Cons.prems assms(1) by (auto simp: fewer_def)
  next
    case occ: False
    then have o: "occupied m i" using i by (simp add: occupied_def)
    show ?thesis
    proof (cases "ce_pins ?e = 0 \<and> \<not> ce_txn ?e")
      case False
      then show ?thesis using Cons occ by (auto simp: Let_def)
    next
      case True
      obtain w m1 where w: "(if ce_dirty ?e then ent_writeback i m else (Inr (), m)) = (w, m1)" by fastforce
      have m1: "cache_inv m1 \<and> cview m1 = cview m \<and> occupied m1 i \<and> length (ents m1) = length (ents m) \<and>
        bd_n_blocks (m_bdev m1) = bd_n_blocks (m_bdev m) \<and> m_block_size m1 = m_block_size m \<and>
        (w = Inr () \<longrightarrow> ce_data (ents m1 ! i) = bd_view (m_bdev m1) (ce_block (ents m1 ! i)))"
      proof (cases "ce_dirty ?e")
        case True
        then have "ent_writeback i m = (w, m1)" using w by simp
        from ent_writeback_inv [OF assms(1) o this] show ?thesis by simp
      next
        case False
        then have "w = Inr ()" "m1 = m" using w by simp_all
        then show ?thesis using o assms(1) cache_invD(8) [OF assms(1) o False] by simp
      qed
      have blk: "ce_block (ents m1 ! j) = ce_block (ents m ! j)" for j
        using ent_writeback_blocks [OF i, of w m1 j] w by (cases "ce_dirty ?e") simp_all
      have few: "fewer m1 m" using m1 by (simp add: fewer_def occupied_def blk)
      show ?thesis
      proof (cases w)
        case (Inl e)
        then have "r = Inl e \<and> m' = m1" using Cons.prems(2) True occ w by (simp add: Let_def)
        then show ?thesis using m1 few by simp
      next
        case (Inr u)
        then have r: "r = Inr i" "m' = evict i m1" using Cons.prems(2) True occ w by (simp_all add: Let_def evict_def)
        have few': "fewer (evict i m1) m" using few by (auto simp: fewer_def occupied_evict)
        have "m_block_size (evict i m1) = m_block_size m1"
          by (simp add: evict_def index_remove_def Let_def upd_ent_def set_ent_def set_chain_def)
        then show ?thesis using m1 few' Inr r evict_inv [of m1 i] evict_view [of m1 i] i by simp
      qed
    qed
  qed
qed

definition load :: "nat \<Rightarrow> u64 \<Rightarrow> bool \<Rightarrow> u8 list \<Rightarrow> CarafsMount \<Rightarrow> CarafsMount" where
  "load i b dt x m = index_insert i (upd_ent i (\<lambda>e. e\<lparr>ce_data := x, ce_block := b, ce_dirty := dt, ce_txn := False\<rparr>) m)"

lemma load_inv:
  assumes inv: "cache_inv m" and i: "i < length (ents m)" "ce_block (ents m ! i) = CARAFS_BLOCK_NONE"
    and b: "b \<noteq> CARAFS_BLOCK_NONE" "b < bd_n_blocks (m_bdev m)"
    and absent: "\<And>j. occupied m j \<Longrightarrow> ce_block (ents m ! j) \<noteq> b"
    and x: "\<not> dt \<Longrightarrow> x = bd_view (m_bdev m) b"
  shows "cache_inv (load i b dt x m)" and "cview (load i b dt x m) = (cview m)(b := x)"
    and "ents (load i b dt x m) = (ents m)[i := (ents m ! i)\<lparr>ce_data := x, ce_block := b, ce_dirty := dt, ce_txn := False\<rparr>]"
proof -
  let ?m = "load i b dt x m"
  show e: "ents ?m = (ents m)[i := (ents m ! i)\<lparr>ce_data := x, ce_block := b, ce_dirty := dt, ce_txn := False\<rparr>]"
    by (simp add: load_def index_insert_def Let_def)
  have ei: "ce_data (ents ?m ! i) = x" "ce_block (ents ?m ! i) = b" "ce_dirty (ents ?m ! i) = dt" using i by (simp_all add: e)
  have ej: "ents ?m ! j = ents m ! j" if "j \<noteq> i" for j using that by (simp add: e)
  have len: "length (ents ?m) = length (ents m)" "lru ?m = lru m" "m_bdev ?m = m_bdev m" "bucket_of ?m = bucket_of m"
    by (simp_all add: e load_def index_insert_def Let_def)
  have ch: "bucket_chains ?m = (bucket_chains m)[bucket_of m b := i # bucket_chains m ! bucket_of m b]"
    using i by (simp add: load_def index_insert_def Let_def)
  have occ: "occupied ?m j \<longleftrightarrow> occupied m j \<or> j = i" for j
    using i b ej ei by (cases "j = i") (auto simp: occupied_def len)
  have ni: "\<not> occupied m i" using i by (simp add: occupied_def)
  then have eo: "ents ?m ! j = ents m ! j" if "occupied m j" for j using that ej by metis
  have ok: "index_ok ?m"
    unfolding index_ok_def
  proof (intro allI impI)
    fix k assume "k < length (bucket_chains ?m)"
    then have old: "distinct (bucket_chains m ! k)"
      "set (bucket_chains m ! k) = {j. occupied m j \<and> bucket_of m (ce_block (ents m ! j)) = k}"
      using cache_invD(3) [OF inv] by (simp_all add: index_ok_def ch)
    have "{j. occupied ?m j \<and> bucket_of m (ce_block (ents ?m ! j)) = k} =
      set (bucket_chains m ! k) \<union> (if bucket_of m b = k then {i} else {})"
      unfolding old using ei eo ni by (auto simp: occ)
    then show "distinct (bucket_chains ?m ! k) \<and> set (bucket_chains ?m ! k) =
      {j. occupied ?m j \<and> bucket_of ?m (ce_block (ents ?m ! j)) = k}"
      using old ni bucket_lt [OF inv, of b] by (cases "bucket_of m b = k") (auto simp: ch len)
  qed
  show inv': "cache_inv ?m"
    unfolding cache_inv_def
  proof (intro conjI allI impI)
    fix a c assume "occupied ?m a" "occupied ?m c" "ce_block (ents ?m ! a) = ce_block (ents ?m ! c)"
    then show "a = c"
      using cache_invD(4) [OF inv, of a c] absent [of a] absent [of c] ej [of a] ej [of c] ei(2) ni
      by (cases "a = i"; cases "c = i") (simp_all add: occ)
  next
    fix a assume "occupied ?m a"
    then show "ce_block (ents ?m ! a) < bd_n_blocks (m_bdev ?m)"
      using cache_invD(7) [OF inv, of a] b ej [of a] ei by (cases "a = i") (simp_all add: occ len)
  next
    fix a assume "occupied ?m a" "\<not> ce_dirty (ents ?m ! a)"
    then show "ce_data (ents ?m ! a) = bd_view (m_bdev ?m) (ce_block (ents ?m ! a))"
      using cache_invD(8) [OF inv, of a] x ej [of a] ei len(3) by (cases "a = i") (simp_all add: occ len(1,2,4))
  qed (use cache_invD [OF inv] ok in \<open>simp_all add: ch len\<close>)
  show "cview ?m = (cview m)(b := x)"
  proof
    fix c show "cview ?m c = ((cview m)(b := x)) c"
    proof (cases "\<exists>j. occupied m j \<and> ce_block (ents m ! j) = c")
      case True
      then obtain j where j: "occupied m j" "ce_block (ents m ! j) = c" by blast
      then have "j \<noteq> i" "c \<noteq> b" using ni absent by auto
      then show ?thesis using cview_occupied [OF inv j(1)] cview_occupied [OF inv', of j] j ej [of j] by (simp add: occ)
    next
      case False
      then have "cview m c = bd_view (m_bdev m) c" using cview_absent [OF inv, of c] by blast
      moreover have "cview ?m c = bd_view (m_bdev m) c" if "c \<noteq> b"
        using cview_absent [OF inv', of c] False that ej ei(2) by (metis len(3) occ)
      ultimately show ?thesis using cview_occupied [OF inv', of i] ei by (cases "c = b") (simp_all add: occ)
    qed
  qed
qed

lemma ent_obtain_inv:
  assumes "cache_inv m" and "ent_obtain m = (r, m')"
  shows "cache_inv m' \<and> cview m' = cview m \<and> fewer m' m \<and> bd_n_blocks (m_bdev m') = bd_n_blocks (m_bdev m) \<and>
    m_block_size m' = m_block_size m \<and>
    (\<forall>i. r = Inr i \<longrightarrow> i < length (ents m') \<and> ce_block (ents m' ! i) = CARAFS_BLOCK_NONE)"
  using ent_walk_inv [OF assms(1), of "rev (lru m)" r m'] assms(2) cache_invD(6) [OF assms(1)]
  by (auto simp: ent_obtain_def)

lemma below_not_none: "b < n \<Longrightarrow> b \<noteq> CARAFS_BLOCK_NONE"
  unfolding CARAFS_BLOCK_NONE_def by (metis word_order.extremum_strict)

lemma cache_fill_inv:
  assumes inv: "cache_inv m" and i: "i < length (ents m)" "ce_block (ents m ! i) = CARAFS_BLOCK_NONE"
    and b: "b < bd_n_blocks (m_bdev m)" and absent: "\<And>j. occupied m j \<Longrightarrow> ce_block (ents m ! j) \<noteq> b"
    and fill: "cache_fill b mode i m = (r, m')"
  shows "cache_inv m' \<and> length (ents m') = length (ents m) \<and>
    (r = Inr () \<longrightarrow> ce_block (ents m' ! i) = b \<and>
       cview m' = (if mode = CARAFS_GET_ZERO then (cview m)(b := replicate (m_block_size m) 0) else cview m)) \<and>
    (r \<noteq> Inr () \<longrightarrow> cview m' = cview m)"
proof (cases mode)
  case CARAFS_GET_ZERO
  then have r: "r = Inr ()" "m' = load i b True (replicate (m_block_size m) 0) m"
    using fill by (simp_all add: cache_fill_def load_def)
  show ?thesis unfolding r
    using load_inv [OF inv i below_not_none [OF b] b absent, of True] CARAFS_GET_ZERO i(1) by simp
next
  case CARAFS_GET_READ
  obtain w d where w: "bdev_read (m_bdev m) b = (w, d)" by fastforce
  note fr = bdev_read_frame [OF w]
  let ?m = "set_bdev d m"
  have inv1: "cache_inv ?m" "cview ?m = cview m" using set_bdev_inv [OF inv, of d] fr by simp_all
  have occ: "occupied ?m j \<longleftrightarrow> occupied m j" for j by (simp add: occupied_def)
  show ?thesis
  proof (cases w)
    case (Inl e)
    then have "m' = ?m" "r = Inl e" using fill w CARAFS_GET_READ by (simp_all add: cache_fill_def)
    then show ?thesis using inv1 by simp
  next
    case (Inr x)
    then have r: "m' = load i b False x ?m" "r = Inr ()" using fill w CARAFS_GET_READ by (simp_all add: cache_fill_def load_def)
    have x: "x = bd_view (m_bdev m) b" using fr Inr by simp
    have "cview m b = x" using cview_absent [OF inv absent] x by simp
    then show ?thesis
      using load_inv [of ?m i b False x] inv1 i b fr x absent below_not_none [OF b] CARAFS_GET_READ
      by (simp add: r occ fun_upd_idem)
  qed
qed

section \<open>Properties\<close>

text \<open>
  C2. \<^verbatim>\<open>carafs_cache_get\<close> keeps the cache invariant and, whether it hits, evicts, fails or loads, leaves
  the contents of the volume as seen through the cache unchanged, except that a fresh block
  requested zeroed reads as zeros; on success the returned entry holds the block and its contents.
\<close>

theorem carafs_cache_get_transparent:
  assumes "cache_inv m" and "carafs_cache_get b mode m = (r, m')"
  shows "cache_inv m' \<and>
    cview m' = (if mode = CARAFS_GET_ZERO \<and> (\<exists>i. r = Inr (i, True))
                then (cview m)(b := replicate (m_block_size m) 0) else cview m) \<and>
    (\<forall>i fresh. r = Inr (i, fresh) \<longrightarrow> occupied m' i \<and> ce_block (ents m' ! i) = b \<and> ce_data (ents m' ! i) = cview m' b)"
proof (cases "b < bd_n_blocks (m_bdev m)")
  case False
  then have "r = Inl CARA_ERANGE" "m' = m" using assms(2) by (simp_all add: carafs_cache_get_def not_less)
  then show ?thesis using assms(1) by simp
next
  case b: True
  then have nb: "\<not> b \<ge> bd_n_blocks (m_bdev m)" by simp
  have hit: ?thesis
    if "r = Inr (i, fr)" "m' = touch i m1" "cache_inv m1" "occupied m1 i" "ce_block (ents m1 ! i) = b"
      "cview m1 = (if mode = CARAFS_GET_ZERO \<and> fr then (cview m)(b := replicate (m_block_size m) 0) else cview m)"
    for i fr m1
  proof -
    have i: "i < length (ents m1)" using that(4) by (simp add: occupied_def)
    note t = touch_inv [OF that(3) i]
    have blk: "ce_block (ents (touch i m1) ! i) = b" using t(3) that(5) i by simp
    have occ: "occupied (touch i m1) i" using t(3) that(4,5) i by (simp add: occupied_def)
    have "ce_data (ents (touch i m1) ! i) = cview (touch i m1) b" using cview_occupied [OF t(1) occ] blk by simp
    then show ?thesis using t(1,2) blk occ that(1,2,6) by auto
  qed
  show ?thesis
  proof (cases "index_find m b")
    case (Some i)
    then have "r = Inr (i, False)" "m' = touch i m" using assms(2) nb by (simp_all add: carafs_cache_get_def)
    then show ?thesis using hit [of i False m] Some index_find_iff [OF assms(1), of b i] assms(1) by simp
  next
    case None
    obtain w m1 where w: "ent_obtain m = (w, m1)" by fastforce
    note o = ent_obtain_inv [OF assms(1) w]
    show ?thesis
    proof (cases w)
      case (Inl e)
      then have "r = Inl e" "m' = m1" using assms(2) nb None w by (simp_all add: carafs_cache_get_def)
      then show ?thesis using o by simp
    next
      case (Inr i)
      obtain u m2 where f: "cache_fill b mode i m1 = (u, m2)" by fastforce
      have "ce_block (ents m1 ! j) \<noteq> b" if "occupied m1 j" for j
        using that o None index_find_None_iff [OF assms(1), of b] by (auto simp: fewer_def)
      then have c: "cache_inv m2 \<and> length (ents m2) = length (ents m1) \<and>
        (u = Inr () \<longrightarrow> ce_block (ents m2 ! i) = b \<and>
          cview m2 = (if mode = CARAFS_GET_ZERO then (cview m1)(b := replicate (m_block_size m1) 0) else cview m1)) \<and>
        (u \<noteq> Inr () \<longrightarrow> cview m2 = cview m1)"
        using cache_fill_inv [of m1 i b mode u m2] o Inr b f by auto
      show ?thesis
      proof (cases u)
        case (Inl e)
        then have "r = Inl e" "m' = m2" using assms(2) nb None w Inr f by (simp_all add: carafs_cache_get_def)
        then show ?thesis using o c Inl by simp
      next
        case u: (Inr v)
        then have "r = Inr (i, True)" "m' = touch i m2" using assms(2) nb None w Inr f by (simp_all add: carafs_cache_get_def)
        moreover have "occupied m2 i" using c u o Inr below_not_none [OF b] by (simp add: occupied_def)
        ultimately show ?thesis using hit [of i True m2] c u o by simp
      qed
    qed
  qed
qed

section \<open>Witnesses\<close>

text \<open>An empty cache of two entries over a device of 16 zeroed blocks.\<close>

definition bdev_ex :: CarafsBdev where
  "bdev_ex = \<lparr>bd_n_blocks = 16, bd_block_size = 512, bd_durable = (\<lambda>_. replicate 512 0), bd_pending = [], bd_script = []\<rparr>"

definition mount_ex :: CarafsMount where
  "mount_ex = \<lparr>m_bdev = bdev_ex, m_block_size = 512, m_readonly = False, m_mounted = True, m_sb = sb_ex,
     m_cache = \<lparr>c_ents = replicate 2 \<lparr>ce_block = CARAFS_BLOCK_NONE, ce_dirty = False, ce_txn = False, ce_pins = 0,
         ce_data = replicate 512 0\<rparr>, c_buckets = [[]], c_lru = [0, 1]\<rparr>,
     m_in_txn = False, m_txn_blocks = [], m_sb_at_txn = sb_ex,
     m_journal = \<lparr>j_log_blocks = 0, j_head = 0, j_head_seq = 0, j_tail = 0, j_next_seq = 0\<rparr>, m_now = None\<rparr>"

lemma mount_ex_inv: "cache_inv mount_ex"
proof -
  have "\<not> occupied mount_ex i" for i by (simp add: occupied_def ents_def mount_ex_def)
  then show ?thesis by (auto simp: cache_inv_def index_ok_def mount_ex_def ents_def)
qed

theorem carafs_cache_get_transparent_witness:
  "\<exists>r m'. carafs_cache_get 5 CARAFS_GET_READ mount_ex = (r, m') \<and> cache_inv m' \<and> cview m' = cview mount_ex"
proof -
  obtain r m' where g: "carafs_cache_get 5 CARAFS_GET_READ mount_ex = (r, m')" by (metis prod.exhaust)
  with carafs_cache_get_transparent [OF mount_ex_inv g] show ?thesis by simp
qed

end
