(* ===== verification/Carafs_Journal.thy ===== *)
theory Carafs_Journal
  imports Carafs_Cache_View
begin

text \<open>
  The write-ahead log of \<^verbatim>\<open>src/logaic/carafs/journal.c\<close>, the commit of \<^verbatim>\<open>src/logaic/carafs/cache.c\<close>, and
  mounting, syncing and the operation bracket of \<^verbatim>\<open>src/logaic/carafs/mount.c\<close>.

  \<^verbatim>\<open>j_scratch\<close> and \<^verbatim>\<open>j_image\<close> are buffers of one call and no part of the state: the records are built
  by \<open>jsb_image\<close>, \<open>jdesc_image\<close> and \<open>jcommit_image\<close>.  \<^verbatim>\<open>j_adv\<close> would not end for an empty log; the
  geometry gives every volume at least 64 log blocks, and the model stops there.  The replay loop is
  an option-valued partial function over single transactions.
\<close>

unbundle bit_operations_syntax

section \<open>Sequencing\<close>

definition and_then :: "'a op \<Rightarrow> ('a \<Rightarrow> 'b op) \<Rightarrow> 'b op" where
  "and_then f g m = (case f m of (Inl e, m') \<Rightarrow> (Inl e, m') | (Inr x, m') \<Rightarrow> g x m')"

definition dev_write :: "u64 \<Rightarrow> u8 list \<Rightarrow> unit op" where
  "dev_write b x m = (case bdev_write (m_bdev m) b x of (r, d) \<Rightarrow> (r, set_bdev d m))"

definition dev_read :: "u64 \<Rightarrow> u8 list op" where
  "dev_read b m = (case bdev_read (m_bdev m) b of (r, d) \<Rightarrow> (r, set_bdev d m))"

definition upd_j :: "(journal_state \<Rightarrow> journal_state) \<Rightarrow> CarafsMount \<Rightarrow> CarafsMount" where
  "upd_j f m = m\<lparr>m_journal := f (m_journal m)\<rparr>"

section \<open>The log\<close>

definition j_phys :: "CarafsMount \<Rightarrow> u32 \<Rightarrow> u64" where
  "j_phys m off = sb_journal_start (m_sb m) + ucast off"

function j_wrap :: "u32 \<Rightarrow> u32 \<Rightarrow> u32" where
  "j_wrap l x = (if x > l \<and> l \<noteq> 0 then j_wrap l (x - l) else x)"
  by auto
termination
proof (relation "measure (\<lambda>(l, x). unat x)")
  fix l x :: u32 assume lx: "x > l \<and> l \<noteq> 0"
  then have "0 < unat l" by (simp add: unat_gt_0)
  with lx show "((l, x - l), (l, x)) \<in> measure (\<lambda>(l, x). unat x)"
    by (simp add: unat_sub word_less_nat_alt word_le_nat_alt)
qed simp

definition j_adv :: "CarafsMount \<Rightarrow> u32 \<Rightarrow> u32 \<Rightarrow> u32" where
  "j_adv m off k = j_wrap (j_log_blocks (m_journal m)) (off + k)"

definition j_used :: "CarafsMount \<Rightarrow> u32" where
  "j_used m = (let j = m_journal m in
     if j_tail j \<ge> j_head j then j_tail j - j_head j else j_tail j + j_log_blocks j - j_head j)"

definition block_crc_ok :: "u8 list \<Rightarrow> nat \<Rightarrow> nat \<Rightarrow> bool" where
  "block_crc_ok blk bs crc_off \<longleftrightarrow> rd32 blk crc_off = Carafs_BlockCrc blk bs crc_off"

definition jsb_image :: "nat \<Rightarrow> u64 \<Rightarrow> u32 \<Rightarrow> u8 list" where
  "jsb_image bs seq head =
    carafs_put_crc (wr32 (wr64 (wr32 (replicate bs 0) 0 CARAFS_MAGIC_JSB) 8 seq) 16 head) bs 4"

fun wr_targets :: "u8 list \<Rightarrow> nat \<Rightarrow> u64 list \<Rightarrow> u8 list" where
  "wr_targets b off [] = b"
| "wr_targets b off (t # ts) = wr_targets (wr64 b off t) (off + 8) ts"

definition jdesc_image :: "nat \<Rightarrow> u64 \<Rightarrow> u64 list \<Rightarrow> u8 list" where
  "jdesc_image bs seq ts =
    carafs_put_crc (wr_targets (wr32 (wr64 (wr32 (replicate bs 0) 0 CARAFS_MAGIC_JDESC) 8 seq) 16 (of_nat (length ts)))
      CARAFS_JDESC_TARGETS_OFF ts) bs 4"

definition jcommit_image :: "nat \<Rightarrow> u64 \<Rightarrow> u32 \<Rightarrow> u32 \<Rightarrow> u8 list" where
  "jcommit_image bs seq txn_crc n =
    carafs_put_crc (wr32 (wr32 (wr64 (wr32 (replicate bs 0) 0 CARAFS_MAGIC_JCOMMIT) 8 seq) 16 txn_crc) 20 n) bs 4"

definition jsb_write :: "unit op" where
  "jsb_write m =
    and_then (dev_write (sb_journal_start (m_sb m))
                (jsb_image (m_block_size m) (j_head_seq (m_journal m)) (j_head (m_journal m))))
      (\<lambda>_. flush_dev) m"

definition carafs_journal_checkpoint :: "unit op" where
  "carafs_journal_checkpoint =
    and_then carafs_cache_sync
      (\<lambda>_ m. jsb_write (upd_j (\<lambda>j. j\<lparr>j_head := j_tail j, j_head_seq := j_next_seq j\<rparr>) m))"

definition carafs_journal_maybe_checkpoint :: "unit op" where
  "carafs_journal_maybe_checkpoint m =
    (if j_used m \<ge> j_log_blocks (m_journal m) div 2 then carafs_journal_checkpoint m else (Inr (), m))"

text \<open>The image loop: each transaction block goes from the cache to the log, its CRC is chained.\<close>

fun append_images :: "u64 list \<Rightarrow> u32 \<Rightarrow> u32 \<Rightarrow> u32 \<Rightarrow> u32 op" where
  "append_images [] off i txn_crc m = (Inr txn_crc, m)"
| "append_images (b # bs) off i txn_crc m =
    (case carafs_cache_get b CARAFS_GET_READ m of
       (Inl e, m1) \<Rightarrow> (Inl e, m1)
     | (Inr (idx, _), m1) \<Rightarrow>
         (let data = ce_data (ents m1 ! idx) in
          case dev_write (j_phys m1 (j_adv m1 off (1 + i))) data m1 of
            (Inl e, m2) \<Rightarrow> (Inl e, carafs_cache_put b m2)
          | (Inr _, m2) \<Rightarrow>
              append_images bs off (i + 1) (Carafs_Crc32c txn_crc (rd (m_block_size m2) data 0)) (carafs_cache_put b m2)))"

definition append_record :: "unit op" where
  "append_record m =
    (let seq = j_next_seq (m_journal m); off = j_tail (m_journal m);
         n = of_nat (length (m_txn_blocks m)); bs = m_block_size m in
     and_then (dev_write (j_phys m off) (jdesc_image bs seq (m_txn_blocks m)))
      (\<lambda>_. and_then (append_images (m_txn_blocks m) off 0 0)
        (\<lambda>txn_crc m2. and_then (dev_write (j_phys m2 (j_adv m2 off (1 + n))) (jcommit_image bs seq txn_crc n))
          (\<lambda>_. and_then flush_dev
            (\<lambda>_ m3. (Inr (), upd_j (\<lambda>j. j\<lparr>j_tail := j_adv m3 off (n + 2), j_next_seq := seq + 1\<rparr>) m3))) m2)) m)"

definition carafs_journal_append :: "unit op" where
  "carafs_journal_append m =
    (let need = of_nat (length (m_txn_blocks m)) + 2; l = j_log_blocks (m_journal m) in
     if need > l then (Inl CARA_EOVERFLOW, m)
     else if j_used m + need > l then and_then carafs_journal_checkpoint (\<lambda>_. append_record) m
     else append_record m)"

definition jsb_read :: "(u64 \<times> u32) op" where
  "jsb_read m =
    (let m0 = upd_j (\<lambda>j. j\<lparr>j_log_blocks := sb_journal_blocks (m_sb m) - 1\<rparr>) m in
     and_then (dev_read (sb_journal_start (m_sb m)))
      (\<lambda>b m1. if rd32 b 0 \<noteq> CARAFS_MAGIC_JSB \<or> \<not> block_crc_ok b (m_block_size m1) 4 then (Inl CARA_EBADMAGIC, m1)
        else if rd32 b 16 < 1 \<or> rd32 b 16 > j_log_blocks (m_journal m1) then (Inl CARA_EINVAL, m1)
        else (Inr (rd64 b 8, rd32 b 16), m1)) m0)"

definition set_log :: "u32 \<Rightarrow> u64 \<Rightarrow> CarafsMount \<Rightarrow> CarafsMount" where
  "set_log off seq = upd_j (\<lambda>j. j\<lparr>j_head := off, j_head_seq := seq, j_tail := off, j_next_seq := seq\<rparr>)"

definition carafs_journal_init :: "unit op" where
  "carafs_journal_init = and_then jsb_read (\<lambda>(seq, head) m. (Inr (), set_log head seq m))"

section \<open>Recovery\<close>

definition rd_targets :: "u8 list \<Rightarrow> nat \<Rightarrow> u64 list" where
  "rd_targets b n = map (\<lambda>i. rd64 b (CARAFS_JDESC_TARGETS_OFF + 8 * i)) [0..<n]"

fun image_crc :: "nat \<Rightarrow> u32 \<Rightarrow> u32 \<Rightarrow> u32 \<Rightarrow> u32 op" where
  "image_crc 0 off i crc m = (Inr crc, m)"
| "image_crc (Suc n) off i crc m =
    and_then (dev_read (j_phys m (j_adv m off (1 + i))))
      (\<lambda>img m'. image_crc n off (i + 1) (Carafs_Crc32c crc (rd (m_block_size m') img 0)) m') m"

fun write_home :: "u64 list \<Rightarrow> u32 \<Rightarrow> u32 \<Rightarrow> unit op" where
  "write_home [] off i m = (Inr (), m)"
| "write_home (t # ts) off i m =
    and_then (dev_read (j_phys m (j_adv m off (1 + i))))
      (\<lambda>img. and_then (dev_write t img) (\<lambda>_. write_home ts off (i + 1))) m"

text \<open>One round of the replay loop: \<open>None\<close> is the end of the log, \<open>Some\<close> the place of the next record.\<close>

definition replay_txn :: "u32 \<Rightarrow> u64 \<Rightarrow> (u32 \<times> u64) option op" where
  "replay_txn off seq m =
    and_then (dev_read (j_phys m off))
      (\<lambda>d m1. if rd32 d 0 \<noteq> CARAFS_MAGIC_JDESC \<or> \<not> block_crc_ok d (m_block_size m1) 4 \<or> rd64 d 8 \<noteq> seq then (Inr None, m1)
        else let n = rd32 d 16; ts = rd_targets d (unat n) in
          if n = 0 \<or> unat n > CARAFS_TXN_MAX_BLOCKS then (Inr None, m1)
          else if \<not> list_all (\<lambda>t. t < sb_total_blocks (m_sb m1)) ts then (Inr None, m1)
          else and_then (image_crc (unat n) off 0 0)
            (\<lambda>crc m2. and_then (dev_read (j_phys m2 (j_adv m2 off (1 + n))))
              (\<lambda>c m3. if rd32 c 0 \<noteq> CARAFS_MAGIC_JCOMMIT \<or> \<not> block_crc_ok c (m_block_size m3) 4 \<or> rd64 c 8 \<noteq> seq \<or>
                  rd32 c 20 \<noteq> n \<or> rd32 c 16 \<noteq> crc then (Inr None, m3)
                else and_then (write_home ts off 0) (\<lambda>_ m4. (Inr (Some (j_adv m4 off (n + 2), seq + 1)), m4)) m3) m2) m1) m"

partial_function (option) replay_loop :: "u32 \<Rightarrow> u64 \<Rightarrow> CarafsMount \<Rightarrow> ((u32 \<times> u64) result \<times> CarafsMount) option" where
  "replay_loop off seq m =
    (case replay_txn off seq m of
       (Inl e, m') \<Rightarrow> Some (Inl e, m')
     | (Inr None, m') \<Rightarrow> Some (Inr (off, seq), m')
     | (Inr (Some (off', seq')), m') \<Rightarrow> replay_loop off' seq' m')"

definition carafs_journal_replay :: "CarafsMount \<Rightarrow> (unit result \<times> CarafsMount) option" where
  "carafs_journal_replay m =
    (case jsb_read m of
       (Inl e, m1) \<Rightarrow> Some (Inl e, m1)
     | (Inr (seq, head), m1) \<Rightarrow>
         (case replay_loop head seq m1 of
            None \<Rightarrow> None
          | Some (Inl e, m2) \<Rightarrow> Some (Inl e, m2)
          | Some (Inr (off, seq'), m2) \<Rightarrow>
              Some (and_then flush_dev (\<lambda>_ m3. jsb_write (set_log off seq' m3)) m2)))"

section \<open>Commit\<close>

definition carafs_txn_commit :: "unit op" where
  "carafs_txn_commit =
    and_then writeback_data (\<lambda>_. and_then carafs_journal_append
      (\<lambda>_ m. (Inr (), snd (carafs_journal_maybe_checkpoint
         ((txn_release (m_txn_blocks m) m)\<lparr>m_in_txn := False, m_txn_blocks := []\<rparr>)))))"

section \<open>Mounting and the operation bracket\<close>

text \<open>
  \<^verbatim>\<open>carve\<close> lays the entry table, the buckets and the block frames into the caller's arena at
  address \<open>base\<close>; here it yields the number of buckets, or fails.  A cache entry is 40 bytes aligned to 8.
\<close>

definition align_up :: "nat \<Rightarrow> nat \<Rightarrow> nat" where
  "align_up p a = (p + (a - 1)) div a * a"

fun pow2_from :: "nat \<Rightarrow> nat \<Rightarrow> nat \<Rightarrow> nat" where
  "pow2_from 0 b n = b"
| "pow2_from (Suc f) b n = (if b < n then pow2_from f (2 * b) n else b)"

definition carve :: "nat \<Rightarrow> nat \<Rightarrow> nat \<Rightarrow> nat \<Rightarrow> nat option" where
  "carve base bytes bs n =
    (let n_buckets = pow2_from n 1 n;
         p1 = align_up base 8; p2 = align_up (p1 + n * 40) 4; p3 = align_up (p2 + n_buckets * 4) 64
     in if p3 + (n + 2) * bs > base + bytes then None else Some n_buckets)"

definition cache_init :: "nat \<Rightarrow> nat \<Rightarrow> nat \<Rightarrow> cache_state" where
  "cache_init bs n n_buckets =
    \<lparr>c_ents = replicate n \<lparr>ce_block = CARAFS_BLOCK_NONE, ce_dirty = False, ce_txn = False, ce_pins = 0, ce_data = replicate bs 0\<rparr>,
     c_buckets = replicate n_buckets [], c_lru = [0..<n]\<rparr>"

fun carve_down :: "nat \<Rightarrow> nat \<Rightarrow> nat \<Rightarrow> nat \<Rightarrow> (nat \<times> nat) option" where
  "carve_down base bytes bs 0 = None"
| "carve_down base bytes bs (Suc n) =
    (if Suc n < CARAFS_CACHE_MIN_BLOCKS then None
     else case carve base bytes bs (Suc n) of Some nb \<Rightarrow> Some (Suc n, nb) | None \<Rightarrow> carve_down base bytes bs n)"

definition sb_serialize :: "CarafsMount \<Rightarrow> u8 list \<Rightarrow> u8 list" where
  "sb_serialize m blk = carafs_put_crc (wr blk 0 (sb_bytes (m_sb m))) (m_block_size m) 8"

definition upd_data :: "nat \<Rightarrow> (u8 list \<Rightarrow> u8 list) \<Rightarrow> CarafsMount \<Rightarrow> CarafsMount" where
  "upd_data i f = upd_ent i (\<lambda>e. e\<lparr>ce_data := f (ce_data e)\<rparr>)"

definition sb_write_direct :: "unit op" where
  "sb_write_direct =
    and_then (carafs_cache_get 0 CARAFS_GET_READ)
      (\<lambda>(i, _) m. let m1 = upd_data i (sb_serialize m) m in
        case dev_write 0 (ce_data (ents m1 ! i)) m1 of
          (Inl e, m2) \<Rightarrow> (Inl e, carafs_cache_put 0 m2)
        | (Inr _, m2) \<Rightarrow> flush_dev (carafs_cache_put 0 m2))"

definition sb_blank :: CarafsSuperblock where
  "sb_blank = sb_of_bytes (replicate 192 0)"

record CarafsMountOpts =
  mo_cache_base :: nat
  mo_cache_bytes :: nat
  mo_readonly :: bool
  mo_now :: "u64 option"

definition sb_geometry_ok :: "CarafsSuperblock \<Rightarrow> nat \<Rightarrow> u64 \<Rightarrow> bool" where
  "sb_geometry_ok sb bs n_blocks \<longleftrightarrow>
    \<not> (2 ^ unat (sb_block_size_log2 sb) \<noteq> bs \<or> sb_total_blocks sb > n_blocks \<or>
      (case carafs_geometry (of_nat bs) (sb_total_blocks sb) of Inl _ \<Rightarrow> True
       | Inr g \<Rightarrow> sb_journal_start sb \<noteq> g_journal_start g \<or> sb_journal_blocks sb \<noteq> g_journal_blocks g \<or>
           sb_ag_first_block sb \<noteq> g_ag_first g \<or> sb_ag_size_blocks sb \<noteq> g_ag_size g \<or>
           sb_ag_count sb \<noteq> g_ag_count g \<or> sb_backup_sb sb \<noteq> g_backup_sb g \<or>
           sb_root_cnode sb < g_ag_first g \<or> sb_root_cnode sb \<ge> g_backup_sb g))"

definition sb_check :: "u8 list \<Rightarrow> nat \<Rightarrow> u64 \<Rightarrow> cara_err option" where
  "sb_check blk bs n_blocks =
    (let sb = sb_of_bytes blk in
     if sb_magic sb \<noteq> CARAFS_SB_MAGIC \<or> rd32 blk 8 \<noteq> Carafs_BlockCrc blk bs 8 then Some CARA_EBADMAGIC
     else if sb_version sb \<noteq> CARAFS_FORMAT_VERSION \<or> sb_incompat sb \<noteq> 0 then Some CARA_EBADVERSION
     else if \<not> sb_geometry_ok sb bs n_blocks then Some CARA_EINVAL
     else None)"

definition mount_blank :: "CarafsBdev \<Rightarrow> CarafsMountOpts \<Rightarrow> nat \<Rightarrow> nat \<Rightarrow> CarafsMount" where
  "mount_blank bdev opts n nb =
    \<lparr>m_bdev = bdev, m_block_size = unat (bd_block_size bdev), m_readonly = mo_readonly opts, m_mounted = False,
     m_sb = sb_blank, m_cache = cache_init (unat (bd_block_size bdev)) n nb, m_in_txn = False, m_txn_blocks = [],
     m_sb_at_txn = sb_blank,
     m_journal = \<lparr>j_log_blocks = 0, j_head = 0, j_head_seq = 0, j_tail = 0, j_next_seq = 0\<rparr>, m_now = mo_now opts\<rparr>"

text \<open>After the superblock was accepted: replay or initialise the log, then the volume is mounted.\<close>

definition mount_reload :: "unit op" where
  "mount_reload =
    and_then (carafs_cache_get 0 CARAFS_GET_READ)
      (\<lambda>(i, _) m. sb_write_direct
        ((carafs_cache_put 0 (m\<lparr>m_sb := sb_of_bytes (ce_data (ents m ! i))\<rparr>))
           \<lparr>m_sb := (sb_of_bytes (ce_data (ents m ! i)))\<lparr>sb_state := CARAFS_STATE_CLEAN\<rparr>\<rparr>))"

definition mount_log :: "CarafsMount \<Rightarrow> (unit result \<times> CarafsMount) option" where
  "mount_log m =
    (if sb_state (m_sb m) = CARAFS_STATE_DIRTY \<and> \<not> m_readonly m then
       (case carafs_journal_replay m of
          None \<Rightarrow> None
        | Some (Inl e, m1) \<Rightarrow> Some (Inl e, m1)
        | Some (Inr _, m1) \<Rightarrow> Some (mount_reload m1))
     else Some (carafs_journal_init m))"

definition Carafs_Mount :: "CarafsBdev \<Rightarrow> CarafsMountOpts \<Rightarrow> (unit result \<times> CarafsMount option) option" where
  "Carafs_Mount bdev opts =
    (let bs = unat (bd_block_size bdev); per = bs + 40 + 8;
         n = min (mo_cache_bytes opts div per) 0xFFFFFFF0 in
     case carve_down (mo_cache_base opts) (mo_cache_bytes opts) bs n of
       None \<Rightarrow> Some (Inl CARA_ENOMEM, None)
     | Some (n', nb) \<Rightarrow>
         (case carafs_cache_get 0 CARAFS_GET_READ (mount_blank bdev opts n' nb) of
            (Inl e, m1) \<Rightarrow> Some (Inl e, Some m1)
          | (Inr (i, _), m1) \<Rightarrow>
              (let blk = ce_data (ents m1 ! i); sb = sb_of_bytes blk in
               case sb_check blk bs (bd_n_blocks bdev) of
                 Some e \<Rightarrow> Some (Inl e, Some (carafs_cache_put 0 m1))
               | None \<Rightarrow>
                   (let m2 = (if sb_ro_compat sb \<noteq> 0 then m1\<lparr>m_readonly := True\<rparr> else m1)\<lparr>m_sb := sb\<rparr>;
                        m3 = carafs_cache_invalidate 0 (carafs_cache_put 0 m2);
                        m4 = upd_j (\<lambda>j. j\<lparr>j_log_blocks := sb_journal_blocks sb - 1\<rparr>) m3
                    in case mount_log m4 of
                         None \<Rightarrow> None
                       | Some (Inl e, m5) \<Rightarrow> Some (Inl e, Some m5)
                       | Some (Inr _, m5) \<Rightarrow> Some (Inr (), Some (m5\<lparr>m_mounted := True\<rparr>))))))"

definition Carafs_Sync :: "unit op" where
  "Carafs_Sync m =
    (if \<not> m_mounted m then (Inl CARA_EINVAL, m)
     else if m_readonly m then carafs_cache_sync m
     else carafs_journal_checkpoint m)"

definition Carafs_Unmount :: "unit op" where
  "Carafs_Unmount m =
    (if \<not> m_mounted m then (Inl CARA_EINVAL, m)
     else if m_readonly m then and_then carafs_cache_sync (\<lambda>_ m'. (Inr (), m'\<lparr>m_mounted := False\<rparr>)) m
     else and_then carafs_journal_checkpoint
       (\<lambda>_ m1. if sb_state (m_sb m1) = CARAFS_STATE_DIRTY then
           let now = carafs_now m1;
               sb1 = (m_sb m1)\<lparr>sb_state := CARAFS_STATE_CLEAN\<rparr>;
               sb2 = (if now \<noteq> 0 then sb1\<lparr>sb_modified_ns := now\<rparr> else sb1)
           in and_then sb_write_direct (\<lambda>_ m2. (Inr (), m2\<lparr>m_mounted := False\<rparr>)) (m1\<lparr>m_sb := sb2\<rparr>)
         else (Inr (), m1\<lparr>m_mounted := False\<rparr>)) m)"

definition carafs_sb_write :: "unit op" where
  "carafs_sb_write =
    and_then (carafs_cache_get 0 CARAFS_GET_READ)
      (\<lambda>(i, _) m. case carafs_txn_dirty 0 (upd_data i (sb_serialize m) m) of (r, m1) \<Rightarrow> (r, carafs_cache_put 0 m1))"

definition carafs_mark_dirty :: "unit op" where
  "carafs_mark_dirty m =
    (if sb_state (m_sb m) = CARAFS_STATE_DIRTY then (Inr (), m)
     else case sb_write_direct (m\<lparr>m_sb := (m_sb m)\<lparr>sb_state := CARAFS_STATE_DIRTY\<rparr>\<rparr>) of
       (Inl e, m1) \<Rightarrow> (Inl e, m1\<lparr>m_sb := (m_sb m1)\<lparr>sb_state := CARAFS_STATE_CLEAN\<rparr>\<rparr>)
     | (Inr _, m1) \<Rightarrow> (Inr (), m1))"

definition carafs_op_begin :: "unit op" where
  "carafs_op_begin m =
    (if \<not> m_mounted m \<or> m_readonly m then (Inl CARA_EINVAL, m)
     else and_then carafs_mark_dirty (\<lambda>_ m1. (Inr (), carafs_txn_begin (m1\<lparr>m_sb_at_txn := m_sb m1\<rparr>))) m)"

definition carafs_op_abort :: "CarafsMount \<Rightarrow> CarafsMount" where
  "carafs_op_abort m = (carafs_txn_abort m)\<lparr>m_sb := m_sb_at_txn m\<rparr>"

definition carafs_op_commit :: "unit op" where
  "carafs_op_commit m =
    (case carafs_sb_write m of
       (Inl e, m1) \<Rightarrow> (Inl e, carafs_op_abort m1)
     | (Inr _, m1) \<Rightarrow>
         (case carafs_txn_commit m1 of
            (Inl e, m2) \<Rightarrow> (Inl e, carafs_op_abort m2)
          | (Inr _, m2) \<Rightarrow> (Inr (), m2)))"

end
