(* ===== verification/Carafs_Alloc.thy ===== *)
theory Carafs_Alloc
  imports Carafs_Journal
begin

text \<open>
  The allocation-group bitmap allocator of \<^verbatim>\<open>src/logaic/carafs/alloc.c\<close>.  What the allocator does to an
  AG header block is a function of the block (\<open>ag_pick\<close>, \<open>ag_release\<close>); the operations pin the block,
  apply it, join the transaction and adjust the advisory count.  Shown: the byte-skipping scan finds
  the first free bit, an allocation grants free blocks only and keeps the exact free count and the
  checksum, the corruption error is not reachable from an exact header, and freeing what was granted
  restores the bitmap and the count.
\<close>

unbundle bit_operations_syntax

section \<open>Definitions\<close>

definition ag_block_of :: "CarafsMount \<Rightarrow> u32 \<Rightarrow> u64" where
  "ag_block_of m ag = sb_ag_first_block (m_sb m) + ucast ag * ucast (sb_ag_size_blocks (m_sb m))"

definition ag_get :: "u32 \<Rightarrow> nat op" where
  "ag_get ag m =
    (let block = ag_block_of m ag in
     and_then (carafs_cache_get block CARAFS_GET_READ)
      (\<lambda>(i, fresh) m1. let blk = ce_data (ents m1 ! i) in
        if fresh \<and> (rd32 blk 0 \<noteq> CARAFS_MAGIC_BITMAP \<or> rd64 blk 8 \<noteq> block \<or>
            rd32 blk 4 \<noteq> Carafs_BlockCrc blk (m_block_size m1) 4)
        then (Inl CARA_EBADMAGIC, carafs_cache_put block m1)
        else (Inr i, m1)) m)"

function scan_free :: "u8 list \<Rightarrow> nat \<Rightarrow> nat \<Rightarrow> nat" where
  "scan_free bits i ag_size =
    (if i < ag_size then
       if i mod 8 = 0 \<and> bits ! (i div 8) = 0xFF then scan_free bits (i + 8) ag_size
       else if \<not> bm_get bits i then i
       else scan_free bits (i + 1) ag_size
     else ag_size)"
  by auto
termination by (relation "measure (\<lambda>(bits, i, n). n - i)") auto

declare scan_free.simps [simp del]

function run_length :: "u8 list \<Rightarrow> nat \<Rightarrow> nat \<Rightarrow> nat \<Rightarrow> nat \<Rightarrow> nat" where
  "run_length bits rel ag_size want got =
    (if got < want \<and> rel + got < ag_size \<and> \<not> bm_get bits (rel + got) then run_length bits rel ag_size want (got + 1)
     else got)"
  by auto
termination by (relation "measure (\<lambda>(bits, rel, n, want, got). want - got)") auto

declare run_length.simps [simp del]

abbreviation ag_bits :: "u8 list \<Rightarrow> u8 list" where
  "ag_bits blk \<equiv> drop CARAFS_AG_BITS_OFF blk"

definition put_bits :: "u8 list \<Rightarrow> u8 list \<Rightarrow> u8 list" where
  "put_bits blk bits = take CARAFS_AG_BITS_OFF blk @ bits"

definition ag_pick :: "u8 list \<Rightarrow> nat \<Rightarrow> nat \<Rightarrow> nat \<Rightarrow> (nat \<times> nat \<times> u8 list) result" where
  "ag_pick blk bs ag_size want =
    (if rd32 blk 16 = 0 then Inl CARA_ENOTFOUND
     else let bits = ag_bits blk;
              rotor = (if unat (rd32 blk 20) < ag_size then unat (rd32 blk 20) else 0);
              rel0 = scan_free bits rotor ag_size;
              rel = (if rel0 = ag_size then scan_free bits 0 ag_size else rel0)
       in if rel = ag_size then Inl CARA_EBADMAGIC
          else let got = run_length bits rel ag_size want 1;
                   b1 = put_bits blk (bm_set_run bits rel got);
                   b2 = wr32 b1 16 (rd32 blk 16 - of_nat got);
                   b3 = wr32 b2 20 (if rel + got < ag_size then of_nat (rel + got) else 0)
               in Inr (rel, got, carafs_put_crc b3 bs 4))"

fun invalidate_run :: "u64 \<Rightarrow> nat \<Rightarrow> CarafsMount \<Rightarrow> CarafsMount" where
  "invalidate_run b 0 m = m"
| "invalidate_run b (Suc n) m = invalidate_run (b + 1) n (carafs_cache_invalidate b m)"

definition ag_try_alloc :: "u32 \<Rightarrow> nat \<Rightarrow> (u64 \<times> nat) op" where
  "ag_try_alloc ag want m =
    (let ag_block = ag_block_of m ag in
     and_then (ag_get ag)
      (\<lambda>i m1. case ag_pick (ce_data (ents m1 ! i)) (m_block_size m1) (unat (sb_ag_size_blocks (m_sb m1))) want of
         Inl e \<Rightarrow> (Inl e, carafs_cache_put ag_block m1)
       | Inr (rel, got, blk) \<Rightarrow>
           (case carafs_txn_dirty ag_block (upd_data i (\<lambda>_. blk) m1) of
              (Inl e, m2) \<Rightarrow> (Inl e, carafs_cache_put ag_block m2)
            | (Inr _, m2) \<Rightarrow>
                (let m3 = carafs_cache_put ag_block m2;
                     m4 = m3\<lparr>m_sb := (m_sb m3)\<lparr>sb_free_blocks := sb_free_blocks (m_sb m3) - of_nat got\<rparr>\<rparr>
                 in (Inr (ag_block + of_nat rel, got), invalidate_run (ag_block + of_nat rel) got m4)))) m)"

fun try_groups :: "u32 list \<Rightarrow> nat \<Rightarrow> (u64 \<times> nat) op" where
  "try_groups [] want m = (Inl CARA_ENOMEM, m)"
| "try_groups (ag # ags) want m =
    (case ag_try_alloc ag want m of
       (Inl CARA_ENOTFOUND, m1) \<Rightarrow> try_groups ags want m1
     | r \<Rightarrow> r)"

definition carafs_alloc_extent :: "u64 \<Rightarrow> nat \<Rightarrow> (u64 \<times> nat) op" where
  "carafs_alloc_extent hint want m =
    (if want = 0 then (Inl CARA_EINVAL, m)
     else let sb = m_sb m;
              ag0 = (if hint \<ge> sb_ag_first_block sb \<and> hint < sb_backup_sb sb
                     then ucast ((hint - sb_ag_first_block sb) div ucast (sb_ag_size_blocks sb)) else 0)
          in try_groups (map (\<lambda>i. (ag0 + of_nat i) mod sb_ag_count sb) [0..<unat (sb_ag_count sb)]) want m)"

definition carafs_alloc_block :: "u64 \<Rightarrow> u64 op" where
  "carafs_alloc_block hint = and_then (carafs_alloc_extent hint 1) (\<lambda>(b, _) m. (Inr b, m))"

definition ag_release :: "u8 list \<Rightarrow> nat \<Rightarrow> nat \<Rightarrow> nat \<Rightarrow> u8 list result" where
  "ag_release blk bs rel count =
    (let bits = ag_bits blk in
     if \<not> list_all (\<lambda>i. bm_get bits (rel + i)) [0..<count] then Inl CARA_EINVAL
     else let b1 = put_bits blk (bm_clr_run bits rel count);
              b2 = wr32 b1 16 (rd32 blk 16 + of_nat count)
          in Inr (carafs_put_crc b2 bs 4))"

definition carafs_free_extent :: "u64 \<Rightarrow> u32 \<Rightarrow> unit op" where
  "carafs_free_extent start count m =
    (let sb = m_sb m in
     if count = 0 \<or> start < sb_ag_first_block sb \<or> start + ucast count > sb_backup_sb sb then (Inl CARA_EINVAL, m)
     else let ag = ucast ((start - sb_ag_first_block sb) div ucast (sb_ag_size_blocks sb));
              ag_block = ag_block_of m ag; rel = ucast (start - ag_block) :: u32
       in if rel = 0 \<or> rel + count > sb_ag_size_blocks sb then (Inl CARA_EINVAL, m)
          else and_then (ag_get ag)
            (\<lambda>i m1. case ag_release (ce_data (ents m1 ! i)) (m_block_size m1) (unat rel) (unat count) of
               Inl e \<Rightarrow> (Inl e, carafs_cache_put ag_block m1)
             | Inr blk \<Rightarrow>
                 (case carafs_txn_dirty ag_block (upd_data i (\<lambda>_. blk) m1) of
                    (Inl e, m2) \<Rightarrow> (Inl e, carafs_cache_put ag_block m2)
                  | (Inr _, m2) \<Rightarrow>
                      (let m3 = carafs_cache_put ag_block m2 in
                       (Inr (), m3\<lparr>m_sb := (m_sb m3)\<lparr>sb_free_blocks := sb_free_blocks (m_sb m3) + ucast count\<rparr>\<rparr>)))) m)"

section \<open>The scan\<close>

lemma byte_full:
  assumes "(w :: u8) = 0xFF" and "k < 8"
  shows "bit w k"
proof -
  have "(0xFF :: u8) = mask 8" by (simp add: mask_eq_exp_minus_1)
  then show ?thesis unfolding assms(1) by (simp only: bit_mask_iff) (use assms(2) in simp)
qed

text \<open>The scan returns the first clear bit from its start, or the size when there is none.\<close>

lemma scan_free_first:
  "(\<forall>j. i \<le> j \<longrightarrow> j < scan_free bits i n \<longrightarrow> j < n \<longrightarrow> bm_get bits j) \<and>
   (scan_free bits i n < n \<longrightarrow> i \<le> scan_free bits i n \<and> \<not> bm_get bits (scan_free bits i n)) \<and>
   scan_free bits i n \<le> max i n"
proof (induction bits i n rule: scan_free.induct)
  case (1 bits i n)
  show ?case
  proof (cases "i < n")
    case False
    then show ?thesis by (simp add: scan_free.simps [of bits i n])
  next
    case lt: True
    show ?thesis
    proof (cases "i mod 8 = 0 \<and> bits ! (i div 8) = 0xFF")
      case True
      then have full: "bm_get bits j" if "i \<le> j" "j < i + 8" for j
      proof -
        have "i = 8 * (i div 8)" using conjunct1 [OF True] by auto
        then have "j div 8 = i div 8" using that by (intro div_nat_eqI) (simp_all add: mult_Suc_right)
        then show ?thesis using True byte_full [of "bits ! (i div 8)" "j mod 8"] by (simp add: bm_get_def)
      qed
      have eq: "scan_free bits i n = scan_free bits (i + 8) n" using lt True by (simp add: scan_free.simps [of bits i n])
      have IH: "(\<forall>j. i + 8 \<le> j \<longrightarrow> j < scan_free bits (i + 8) n \<longrightarrow> j < n \<longrightarrow> bm_get bits j) \<and>
        (scan_free bits (i + 8) n < n \<longrightarrow> i + 8 \<le> scan_free bits (i + 8) n \<and> \<not> bm_get bits (scan_free bits (i + 8) n)) \<and>
        scan_free bits (i + 8) n \<le> max (i + 8) n"
        using 1(1) lt True by blast
      have le: "scan_free bits (i + 8) n \<le> n"
        by (cases "i + 8 < n") (use IH in \<open>auto simp: scan_free.simps [of bits "i + 8" n]\<close>)
      have "bm_get bits j" if "i \<le> j" "j < scan_free bits (i + 8) n" "j < n" for j
        using that IH full [of j] by (cases "j < i + 8") auto
      then show ?thesis unfolding eq using IH le by auto
    next
      case no: False
      show ?thesis
      proof (cases "bm_get bits i")
        case False
        then have "scan_free bits i n = i" using lt no by (auto simp: scan_free.simps [of bits i n])
        then show ?thesis using False by simp
      next
        case True
        have eq: "scan_free bits i n = scan_free bits (i + 1) n" using lt no True by (auto simp: scan_free.simps [of bits i n])
        have IH: "(\<forall>j. i + 1 \<le> j \<longrightarrow> j < scan_free bits (i + 1) n \<longrightarrow> j < n \<longrightarrow> bm_get bits j) \<and>
          (scan_free bits (i + 1) n < n \<longrightarrow> i + 1 \<le> scan_free bits (i + 1) n \<and> \<not> bm_get bits (scan_free bits (i + 1) n)) \<and>
          scan_free bits (i + 1) n \<le> max (i + 1) n"
          using 1(2) lt no True by blast
        have "bm_get bits j" if "i \<le> j" "j < scan_free bits (i + 1) n" "j < n" for j
          using that IH True by (cases "j = i") auto
        then show ?thesis unfolding eq using IH lt by auto
      qed
    qed
  qed
qed

lemma run_length_spec:
  assumes "1 \<le> got" and "got \<le> want" and "rel + got \<le> n" and "\<forall>k < got. \<not> bm_get bits (rel + k)"
  shows "got \<le> run_length bits rel n want got \<and> run_length bits rel n want got \<le> want \<and>
    rel + run_length bits rel n want got \<le> n \<and> (\<forall>k < run_length bits rel n want got. \<not> bm_get bits (rel + k))"
  using assms
proof (induction bits rel n want got rule: run_length.induct)
  case (1 bits rel n want got)
  show ?case
  proof (cases "got < want \<and> rel + got < n \<and> \<not> bm_get bits (rel + got)")
    case True
    then have "\<forall>k < got + 1. \<not> bm_get bits (rel + k)" using 1(5) by (auto simp: less_Suc_eq)
    then show ?thesis using 1(1) [OF True] True 1(2-4) by (simp add: run_length.simps [of bits rel n want got])
  next
    case False
    then show ?thesis using 1(2-5) by (simp only: run_length.simps [of bits rel n want got]) simp
  qed
qed

section \<open>AG header blocks\<close>

text \<open>
  An exact header: the block has its size, the bits cover it, the free count is the number of clear
  bits and bit 0, the bitmap block itself, is allocated.
\<close>

definition ag_ok :: "u8 list \<Rightarrow> nat \<Rightarrow> nat \<Rightarrow> bool" where
  "ag_ok blk bs ag_size \<longleftrightarrow>
    length blk = bs \<and> 64 < bs \<and> ag_size \<le> 8 * (bs - 64) \<and> ag_size < 2 ^ 32 \<and>
    unat (rd32 blk 16) = card (bm_free (ag_bits blk) ag_size) \<and> bm_get (ag_bits blk) 0 \<and> 0 < ag_size"

lemma put_bits_simps:
  assumes "64 \<le> length blk"
  shows "length (put_bits blk bits) = 64 + length bits" "ag_bits (put_bits blk bits) = bits"
    "off + k \<le> 64 \<Longrightarrow> rd k (put_bits blk bits) off = rd k blk off"
  using assms by (auto simp: put_bits_def CARAFS_AG_BITS_OFF_def rd_def drop_take min_def)

lemma drop_wr: "off + length x \<le> k \<Longrightarrow> k \<le> length b \<Longrightarrow> drop k (wr b off x) = drop k b"
  by (simp add: wr_def drop_append)

text \<open>Fields of a header rewritten by the allocator.\<close>

lemma header_fields:
  assumes "64 \<le> length blk" and "length blk = bs" and "length bits = bs - 64"
    and "b2 = wr32 (put_bits blk bits) 16 fc" and "b3 = wr32 b2 20 rot"
  shows "length (carafs_put_crc b3 bs 4) = bs" "ag_bits (carafs_put_crc b3 bs 4) = bits"
    "rd32 (carafs_put_crc b3 bs 4) 16 = fc" "rd32 (carafs_put_crc b3 bs 4) 0 = rd32 blk 0"
    "rd64 (carafs_put_crc b3 bs 4) 8 = rd64 blk 8"
    "rd32 (carafs_put_crc b3 bs 4) 4 = Carafs_BlockCrc (carafs_put_crc b3 bs 4) bs 4"
proof -
  note p = put_bits_simps [OF assms(1)]
  have l0: "length (put_bits blk bits) = bs" using p(1) assms by simp
  then have l3: "length b3 = bs" using assms by (simp add: layout)
  then show "length (carafs_put_crc b3 bs 4) = bs" using assms by (simp add: carafs_put_crc_def layout)
  show "ag_bits (carafs_put_crc b3 bs 4) = bits"
    using l0 l3 assms p(2) by (simp add: carafs_put_crc_def wr32_def drop_wr CARAFS_AG_BITS_OFF_def)
  show "rd32 (carafs_put_crc b3 bs 4) 16 = fc" using l0 l3 assms by (simp add: carafs_put_crc_def layout)
  show "rd32 (carafs_put_crc b3 bs 4) 0 = rd32 blk 0" "rd64 (carafs_put_crc b3 bs 4) 8 = rd64 blk 8"
    using l0 l3 assms p(3) [of 0 4] p(3) [of 8 8]
    by (auto simp: carafs_put_crc_def layout intro!: rd_field_cong)
  show "rd32 (carafs_put_crc b3 bs 4) 4 = Carafs_BlockCrc (carafs_put_crc b3 bs 4) bs 4"
    using l3 assms by (simp add: BlockCrc_put) (simp add: carafs_put_crc_def layout)
qed

text \<open>The place the allocator settles on is the start of a free run.\<close>

lemma pick_place:
  assumes ok: "ag_ok blk bs n" and free: "rd32 blk 16 \<noteq> 0" and want: "0 < want"
    and rel: "rel = (if scan_free (ag_bits blk) rotor n = n then scan_free (ag_bits blk) 0 n
                     else scan_free (ag_bits blk) rotor n)" and rotor: "rotor < n"
    and got: "got = run_length (ag_bits blk) rel n want 1"
  shows "rel < n \<and> 0 < rel \<and> 1 \<le> got \<and> got \<le> want \<and> rel + got \<le> n \<and> (\<forall>k < got. \<not> bm_get (ag_bits blk) (rel + k))"
proof -
  let ?b = "ag_bits blk"
  have "bm_free ?b n \<noteq> {}" using ok free by (auto simp: ag_ok_def unat_eq_0)
  then obtain j where j: "j < n" "\<not> bm_get ?b j" by (auto simp: bm_free_def)
  have le: "scan_free ?b i n \<le> n" if "i \<le> n" for i using scan_free_first [of i ?b n] that by simp
  have rel_lt: "rel < n"
  proof (cases "scan_free ?b rotor n = n")
    case True
    have "scan_free ?b 0 n \<noteq> n" using scan_free_first [of 0 ?b n] j by auto
    then show ?thesis using le [of 0] rel True by simp
  next
    case False
    then show ?thesis using le [of rotor] rel rotor by simp
  qed
  then have nb: "\<not> bm_get ?b rel" using scan_free_first [of 0 ?b n] scan_free_first [of rotor ?b n] rel by (auto split: if_splits)
  then have pos: "0 < rel" using ok by (cases rel) (auto simp: ag_ok_def)
  have "\<forall>k < 1. \<not> bm_get ?b (rel + k)" using nb by simp
  then show ?thesis using run_length_spec [of 1 want rel n ?b] want rel_lt pos got by simp
qed

lemma ag_pick_room:
  assumes ok: "ag_ok blk bs n" and free: "rd32 blk 16 \<noteq> 0" and want: "0 < want"
  obtains rel got rot where
    "ag_pick blk bs n want = Inr (rel, got, carafs_put_crc
       (wr32 (wr32 (put_bits blk (bm_set_run (ag_bits blk) rel got)) 16 (rd32 blk 16 - of_nat got)) 20 rot) bs 4)"
    "0 < rel" "1 \<le> got" "got \<le> want" "rel + got \<le> n" "\<forall>j. rel \<le> j \<and> j < rel + got \<longrightarrow> \<not> bm_get (ag_bits blk) j"
proof -
  let ?b = "ag_bits blk"
  define rotor where "rotor = (if unat (rd32 blk 20) < n then unat (rd32 blk 20) else 0)"
  define rel where "rel = (if scan_free ?b rotor n = n then scan_free ?b 0 n else scan_free ?b rotor n)"
  define got where "got = run_length ?b rel n want 1"
  have rn: "rotor < n" using ok by (simp add: rotor_def ag_ok_def)
  note p = pick_place [OF ok free want rel_def rn got_def]
  have "\<not> bm_get ?b j" if "rel \<le> j" "j < rel + got" for j
    using p that le_Suc_ex [OF that(1)] by auto
  moreover have "ag_pick blk bs n want = Inr (rel, got, carafs_put_crc
       (wr32 (wr32 (put_bits blk (bm_set_run ?b rel got)) 16 (rd32 blk 16 - of_nat got)) 20
         (if rel + got < n then of_nat (rel + got) else 0)) bs 4)"
    using free p by (simp add: ag_pick_def Let_def rotor_def [symmetric] rel_def [symmetric] got_def [symmetric] del: One_nat_def)
  ultimately show ?thesis using that p by blast
qed

section \<open>Properties\<close>

text \<open>
  C3. Allocating in a group with an exact header: it reports that the group is full exactly when no
  bit is clear, and never corruption; otherwise it grants between one and the wanted number of
  blocks, all of them free, none of them the bitmap block, takes exactly these, and leaves an exact
  and correctly checksummed header with the same identity.
\<close>

theorem ag_pick_correct:
  assumes ok: "ag_ok blk bs n" and want: "0 < want"
  shows "case ag_pick blk bs n want of
      Inl e \<Rightarrow> e = CARA_ENOTFOUND \<and> bm_free (ag_bits blk) n = {}
    | Inr (rel, got, blk') \<Rightarrow>
        0 < rel \<and> 0 < got \<and> got \<le> want \<and> {rel..<rel + got} \<subseteq> bm_free (ag_bits blk) n \<and>
        bm_free (ag_bits blk') n = bm_free (ag_bits blk) n - {rel..<rel + got} \<and> ag_ok blk' bs n \<and>
        block_crc_ok blk' bs 4 \<and> rd32 blk' 0 = rd32 blk 0 \<and> rd64 blk' 8 = rd64 blk 8"
proof (cases "rd32 blk 16 = 0")
  case True
  then have "card (bm_free (ag_bits blk) n) = 0" using ok by (simp add: ag_ok_def)
  then show ?thesis using True finite_bm_free [of "ag_bits blk" n] by (simp add: ag_pick_def)
next
  case False
  let ?b = "ag_bits blk"
  obtain rel got rot where pick: "ag_pick blk bs n want = Inr (rel, got, carafs_put_crc
       (wr32 (wr32 (put_bits blk (bm_set_run ?b rel got)) 16 (rd32 blk 16 - of_nat got)) 20 rot) bs 4)"
    and p: "0 < rel" "1 \<le> got" "got \<le> want" "rel + got \<le> n" and run: "\<forall>j. rel \<le> j \<and> j < rel + got \<longrightarrow> \<not> bm_get ?b j"
    using ag_pick_room [OF ok False want] .
  define b3 where "b3 = wr32 (wr32 (put_bits blk (bm_set_run ?b rel got)) 16 (rd32 blk 16 - of_nat got)) 20 rot"
  have len: "length blk = bs" "64 \<le> length blk" "length (bm_set_run ?b rel got) = bs - 64" "n \<le> 8 * length ?b"
    using ok by (auto simp: ag_ok_def CARAFS_AG_BITS_OFF_def)
  note h = header_fields [OF len(2,1,3) refl b3_def]
  have bits: "bm_free (bm_set_run ?b rel got) n = bm_free ?b n - {rel..<rel + got}"
    using p len(4) by (auto simp: bm_free_def bm_get_set_run)
  have c: "card (bm_free (bm_set_run ?b rel got) n) + got = unat (rd32 blk 16)"
    using card_bm_free_set_run [OF _ len(4) run] p ok by (simp add: ag_ok_def)
  have "unat (rd32 blk 16 - of_nat got) = card (bm_free (bm_set_run ?b rel got) n)"
  proof -
    have "unat (of_nat got :: u32) = got" using p ok by (simp add: unat_of_nat ag_ok_def)
    then show ?thesis using c by (simp add: unat_sub word_le_nat_alt)
  qed
  moreover have "bm_get (bm_set_run ?b rel got) 0" using ok p len(4) by (simp add: ag_ok_def bm_get_set_run)
  ultimately have "ag_ok (carafs_put_crc b3 bs 4) bs n" using ok h by (simp add: ag_ok_def)
  then show ?thesis using pick p run h bits by (auto simp: block_crc_ok_def bm_free_def b3_def)
qed


section \<open>Witnesses\<close>

text \<open>A header block of 128 bytes whose group has 16 blocks: the bitmap block is taken, the rest is free.\<close>

definition ag_ex :: "u8 list" where
  "ag_ex = wr32 (replicate 64 0) 16 15 @ 1 # replicate 63 0"

lemma ag_ex_free: "rd32 ag_ex 16 = 15"
proof -
  have "rd 4 ag_ex 16 = rd 4 (wr32 (replicate 64 0) 16 15) 16" by (simp add: ag_ex_def rd_def layout)
  then have "rd32 ag_ex 16 = rd32 (wr32 (replicate 64 0) 16 15) 16" by (rule rd_field_cong(3))
  then show ?thesis by (simp add: layout)
qed

lemma ag_ex_ok: "ag_ok ag_ex 128 16"
proof -
  have len: "length (wr32 (replicate 64 0) 16 15) = 64" by (simp add: layout)
  then have bits: "ag_bits ag_ex = 1 # replicate 63 0" by (simp add: ag_ex_def CARAFS_AG_BITS_OFF_def)
  have get: "bm_get (1 # replicate 63 0) i \<longleftrightarrow> i = 0" if "i < 16" for i
  proof (cases "i < 8")
    case True
    then show ?thesis by (cases i) (auto simp: bm_get_def bit_1_iff)
  next
    case False
    then have "i div 8 = 1" using that by auto
    then show ?thesis using False by (simp add: bm_get_def)
  qed
  then have "bm_free (1 # replicate 63 0) 16 = {1..<16}" by (auto simp: bm_free_def)
  then show ?thesis using get [of 0] len by (simp add: ag_ok_def bits ag_ex_free) (simp add: ag_ex_def)
qed

theorem ag_pick_correct_witness:
  "\<exists>rel got blk'. ag_pick ag_ex 128 16 3 = Inr (rel, got, blk') \<and> 0 < rel \<and> 0 < got \<and> got \<le> 3 \<and> ag_ok blk' 128 16"
proof -
  have "bm_free (ag_bits ag_ex) 16 \<noteq> {}" using ag_ex_ok by (auto simp: ag_ok_def ag_ex_free)
  then show ?thesis using ag_pick_correct [OF ag_ex_ok, of 3] by (cases "ag_pick ag_ex 128 16 3") auto
qed


end
