(* ===== verification/Carafs_Cnode.thy ===== *)
theory Carafs_Cnode
  imports Carafs_Alloc
begin

text \<open>
  Cnodes and their TLV item area (\<^verbatim>\<open>src/logaic/carafs/cnode.c\<close>), extended attributes
  (\<^verbatim>\<open>src/logaic/carafs/xattr.c\<close>) and the formatter (\<^verbatim>\<open>src/logaic/carafs/mkfs.c\<close>).

  A cnode is a block; where the code holds a pointer into a pinned cache entry the model holds the
  entry's index, and the functions on the cnode (\<open>item_off\<close>, \<open>carafs_item_resize\<close>, \<open>xattr_set_block\<close>, ...) are
  functions on the block's bytes.  The theory holds the definitions; \<open>Carafs_Xattr\<close> shows that the
  attribute list is a map from names to values.
\<close>

unbundle bit_operations_syntax

section \<open>Cnode fields\<close>

abbreviation cn_magic :: "u8 list \<Rightarrow> u32" where "cn_magic b \<equiv> rd32 b 0"
abbreviation cn_block_no :: "u8 list \<Rightarrow> u64" where "cn_block_no b \<equiv> rd64 b 8"
abbreviation cn_generation :: "u8 list \<Rightarrow> u64" where "cn_generation b \<equiv> rd64 b 16"
abbreviation cn_type :: "u8 list \<Rightarrow> u16" where "cn_type b \<equiv> rd16 b 24"
abbreviation cn_link_count :: "u8 list \<Rightarrow> u32" where "cn_link_count b \<equiv> rd32 b 28"
abbreviation cn_item_bytes :: "u8 list \<Rightarrow> nat" where "cn_item_bytes b \<equiv> unat (rd32 b 100)"

definition carafs_cnode_get :: "u64 \<Rightarrow> nat op" where
  "carafs_cnode_get block =
    and_then (carafs_cache_get block CARAFS_GET_READ)
      (\<lambda>(i, fresh) m. let b = ce_data (ents m ! i) in
        if cn_magic b \<noteq> CARAFS_MAGIC_CNODE \<or> cn_block_no b \<noteq> block then (Inl CARA_EBADMAGIC, carafs_cache_put block m)
        else if fresh \<and> rd32 b 4 \<noteq> Carafs_BlockCrc b (m_block_size m) 4 then (Inl CARA_EBADMAGIC, carafs_cache_put block m)
        else if cn_link_count b = 0 then (Inl CARA_ENOENT, carafs_cache_put block m)
        else (Inr i, m))"

definition carafs_cnode_put :: "nat \<Rightarrow> CarafsMount \<Rightarrow> CarafsMount" where
  "carafs_cnode_put i m = carafs_cache_put (cn_block_no (ce_data (ents m ! i))) m"

definition carafs_cnode_dirty :: "nat \<Rightarrow> unit op" where
  "carafs_cnode_dirty i m =
    (let m1 = upd_data i (\<lambda>b. carafs_put_crc b (m_block_size m) 4) m in
     carafs_txn_dirty (cn_block_no (ce_data (ents m1 ! i))) m1)"

section \<open>The item area\<close>

definition carafs_item_room :: "u8 list \<Rightarrow> nat \<Rightarrow> nat" where
  "carafs_item_room b bs = bs - CARAFS_CNODE_ITEMS_OFF - cn_item_bytes b"

definition item_stride :: "nat \<Rightarrow> nat" where
  "item_stride len = unat (Carafs_Align8 (4 + of_nat len))"

lemma item_stride_eq: "len < 65536 \<Longrightarrow> item_stride len = (len + 11) div 8 * 8"
proof -
  assume len: "len < 65536"
  have m7: "(7 :: u32) = mask 3" by (simp add: mask_eq_exp_minus_1)
  have "x AND NOT 7 = push_bit 3 (drop_bit 3 x)" for x :: u32
    unfolding m7 by (rule bit_word_eqI) (auto simp: bit_simps)
  then have "Carafs_Align8 w = push_bit 3 (drop_bit 3 (w + 7))" for w by (simp only: Carafs_Align8_def)
  moreover have "unat (4 + of_nat len + 7 :: u32) = len + 11"
    using len by (simp add: unat_of_nat unat_word_ariths)
  moreover have "(len + 11) div 8 * 8 \<le> len + 11" by (rule div_times_less_eq_dividend)
  ultimately show ?thesis
    using len by (simp add: item_stride_def push_bit_eq_mult drop_bit_eq_div unat_div_distrib unat_word_ariths mult.commute)
qed

text \<open>The offset of an item of the kind within the area, the used length when there is none.\<close>

function item_off_from :: "u8 list \<Rightarrow> u16 \<Rightarrow> nat \<Rightarrow> nat" where
  "item_off_from b kind off =
    (if off < cn_item_bytes b then
       if rd16 b (CARAFS_CNODE_ITEMS_OFF + off) = kind then off
       else item_off_from b kind (off + item_stride (unat (rd16 b (CARAFS_CNODE_ITEMS_OFF + off + 2))))
     else cn_item_bytes b)"
  by auto
termination
proof (relation "measure (\<lambda>(b, kind, off). cn_item_bytes b - off)")
  fix b :: "u8 list" and kind :: u16 and off
  have "0 < item_stride (unat (rd16 b (CARAFS_CNODE_ITEMS_OFF + off + 2)))"
    using unat_lt2p [of "rd16 b (CARAFS_CNODE_ITEMS_OFF + off + 2)"] by (simp add: item_stride_eq)
  moreover assume "off < cn_item_bytes b"
  ultimately show "((b, kind, off + item_stride (unat (rd16 b (CARAFS_CNODE_ITEMS_OFF + off + 2)))), b, kind, off)
    \<in> measure (\<lambda>(b, kind, off). cn_item_bytes b - off)" by simp
qed simp

declare item_off_from.simps [simp del]

definition item_off :: "u8 list \<Rightarrow> u16 \<Rightarrow> nat" where
  "item_off b kind = item_off_from b kind 0"

text \<open>The result of \<^verbatim>\<open>carafs_item_find\<close> is the offset of the payload in the block, with its length.\<close>

definition carafs_item_find :: "u8 list \<Rightarrow> u16 \<Rightarrow> (nat \<times> nat) option" where
  "carafs_item_find b kind =
    (let off = item_off b kind in
     if off = cn_item_bytes b then None
     else Some (CARAFS_CNODE_ITEMS_OFF + off + 4, unat (rd16 b (CARAFS_CNODE_ITEMS_OFF + off + 2))))"

definition carafs_item_resize :: "u8 list \<Rightarrow> nat \<Rightarrow> u16 \<Rightarrow> nat \<Rightarrow> (nat \<times> u8 list) result" where
  "carafs_item_resize b bs kind new_len =
    (let area = CARAFS_CNODE_ITEMS_OFF; ib = cn_item_bytes b; off = item_off b kind;
         stride_new = item_stride new_len;
         old_len = (if off < ib then unat (rd16 b (area + off + 2)) else 0);
         stride_old = (if off < ib then item_stride old_len else 0)
     in if ib - stride_old + stride_new > bs - area then Inl CARA_EOVERFLOW
        else let b1 = (if stride_old \<noteq> stride_new
                       then wr32 (memmv b (area + off + stride_new) (area + off + stride_old) (ib - off - stride_old))
                              100 (of_nat (ib + stride_new - stride_old))
                       else b);
                 b2 = wr16 (wr16 b1 (area + off) kind) (area + off + 2) (of_nat new_len);
                 payload = area + off + 4;
                 b3 = (if new_len > old_len then memzero b2 (payload + old_len) (new_len - old_len) else b2);
                 b4 = memzero b3 (payload + new_len) (stride_new - 4 - new_len)
             in Inr (payload, b4))"

definition carafs_item_remove :: "u8 list \<Rightarrow> u16 \<Rightarrow> u8 list" where
  "carafs_item_remove b kind =
    (let area = CARAFS_CNODE_ITEMS_OFF; ib = cn_item_bytes b; off = item_off b kind in
     if off = ib then b
     else let stride = item_stride (unat (rd16 b (area + off + 2)));
              b1 = memmv b (area + off) (area + off + stride) (ib - off - stride);
              b2 = wr32 b1 100 (of_nat (ib - stride))
          in memzero b2 (area + (ib - stride)) stride)"

section \<open>Lifecycle\<close>

definition cnode_image :: "nat \<Rightarrow> u64 \<Rightarrow> u64 \<Rightarrow> u16 \<Rightarrow> u64 \<Rightarrow> u8 list" where
  "cnode_image bs block generation ty now =
    (let b0 = wr32 (replicate bs 0) 0 CARAFS_MAGIC_CNODE;
         b1 = wr16 (wr64 (wr64 b0 8 block) 16 generation) 24 ty;
         b2 = wr32 b1 28 1
     in wr64 (wr64 (wr64 b2 56 now) 64 now) 72 now)"

definition carafs_cnode_alloc :: "u16 \<Rightarrow> u64 \<Rightarrow> u64 op" where
  "carafs_cnode_alloc ty hint =
    and_then (carafs_alloc_block hint)
      (\<lambda>block. and_then (carafs_cache_get block CARAFS_GET_READ)
        (\<lambda>(i, _) m. let old = ce_data (ents m ! i);
            generation = (if cn_magic old = CARAFS_MAGIC_CNODE \<and> cn_block_no old = block \<and>
                rd32 old 4 = Carafs_BlockCrc old (m_block_size m) 4 then cn_generation old + 1 else 1);
            m1 = upd_data i (\<lambda>_. cnode_image (m_block_size m) block generation ty (carafs_now m)) m
          in case carafs_cnode_dirty i m1 of
               (Inl e, m2) \<Rightarrow> (Inl e, carafs_cache_put block m2)
             | (Inr _, m2) \<Rightarrow> (Inr block, carafs_cache_put block m2)))"

definition Carafs_CnodeCreate :: "u16 \<Rightarrow> u64 \<Rightarrow> u64 op" where
  "Carafs_CnodeCreate ty hint m =
    (if ty \<noteq> CARAFS_T_FILE \<and> ty \<noteq> CARAFS_T_DIR \<and> ty \<noteq> CARAFS_T_SYMLINK then (Inl CARA_EINVAL, m)
     else and_then carafs_op_begin
       (\<lambda>_ m1. case carafs_cnode_alloc ty hint m1 of
          (Inl e, m2) \<Rightarrow> (Inl e, carafs_op_abort m2)
        | (Inr block, m2) \<Rightarrow> and_then carafs_op_commit (\<lambda>_ m3. (Inr block, m3)) m2) m)"

record CarafsStat =
  st_cnode :: u64
  st_generation :: u64
  st_type :: u16
  st_link_count :: u32
  st_size_bytes :: u64
  st_blocks_used :: u64
  st_parent_cnode :: u64
  st_created_ns :: u64
  st_modified_ns :: u64
  st_changed_ns :: u64
  st_fib_protection :: u32
  st_flags :: u32

definition Carafs_CnodeStat :: "u64 \<Rightarrow> CarafsStat op" where
  "Carafs_CnodeStat cnode m =
    (if \<not> m_mounted m then (Inl CARA_EINVAL, m)
     else and_then (carafs_cnode_get cnode)
       (\<lambda>i m1. let b = ce_data (ents m1 ! i) in
          (Inr \<lparr>st_cnode = cnode, st_generation = cn_generation b, st_type = cn_type b, st_link_count = cn_link_count b,
                st_size_bytes = rd64 b 32, st_blocks_used = rd64 b 40, st_parent_cnode = rd64 b 48,
                st_created_ns = rd64 b 56, st_modified_ns = rd64 b 64, st_changed_ns = rd64 b 72,
                st_fib_protection = rd32 b 80, st_flags = rd32 b 84\<rparr>,
           carafs_cnode_put i m1)) m)"

section \<open>Extended attributes\<close>

definition CARAFS_XATTR_NAME_MAX :: nat where "CARAFS_XATTR_NAME_MAX = 255"
definition CARAFS_XATTR_VALUE_MAX :: nat where "CARAFS_XATTR_VALUE_MAX = 65535"

definition rec_name_len :: "u8 list \<Rightarrow> nat \<Rightarrow> nat" where
  "rec_name_len p off = unat (p ! off)"

definition rec_val_len :: "u8 list \<Rightarrow> nat \<Rightarrow> nat" where
  "rec_val_len p off = unat ((ucast (p ! (off + 2)) :: u32) OR push_bit 8 (ucast (p ! (off + 3))))"

text \<open>The offset and size of the record with the name in a packed payload; \<open>None\<close> where the code returns \<^verbatim>\<open>plen\<close>.\<close>

function xattr_find_from :: "u8 list \<Rightarrow> u8 list \<Rightarrow> nat \<Rightarrow> (nat \<times> nat) option" where
  "xattr_find_from p name off =
    (if off + 4 \<le> length p then
       let rn = rec_name_len p off; rsize = 4 + rn + rec_val_len p off in
       if off + rsize > length p then None
       else if rn = length name \<and> rd (length name) p (off + 4) = name then Some (off, rsize)
       else xattr_find_from p name (off + rsize)
     else None)"
  by auto
termination by (relation "measure (\<lambda>(p, name, off). length p - off)") auto

declare xattr_find_from.simps [simp del]

definition xattr_find :: "u8 list \<Rightarrow> u8 list \<Rightarrow> (nat \<times> nat) option" where
  "xattr_find p name = xattr_find_from p name 0"

definition xattr_value :: "u8 list \<Rightarrow> u8 list \<Rightarrow> u8 list option" where
  "xattr_value p name = (case xattr_find p name of None \<Rightarrow> None
     | Some (off, _) \<Rightarrow> Some (rd (rec_val_len p off) p (off + 4 + rec_name_len p off)))"

definition Carafs_XattrGet :: "u64 \<Rightarrow> u8 list \<Rightarrow> u8 list op" where
  "Carafs_XattrGet cnode name m =
    (if \<not> m_mounted m \<or> length name = 0 \<or> length name > CARAFS_XATTR_NAME_MAX then (Inl CARA_EINVAL, m)
     else and_then (carafs_cnode_get cnode)
       (\<lambda>i m1. let b = ce_data (ents m1 ! i) in
          (case carafs_item_find b CARAFS_ITEM_XATTR of
             None \<Rightarrow> Inl CARA_ENOENT
           | Some (p, plen) \<Rightarrow>
               (case xattr_value (rd plen b p) name of None \<Rightarrow> Inl CARA_ENOENT | Some v \<Rightarrow> Inr v),
           carafs_cnode_put i m1)) m)"

text \<open>The payload with the named record's gap closed: the bytes that stay, and their length.\<close>

definition xattr_close :: "u8 list \<Rightarrow> u8 list \<Rightarrow> u8 list \<times> nat" where
  "xattr_close p name = (case xattr_find p name of None \<Rightarrow> (p, length p)
     | Some (off, rsize) \<Rightarrow> (memmv p off (off + rsize) (length p - off - rsize), length p - rsize))"

definition xattr_rec :: "u8 list \<Rightarrow> u8 list \<Rightarrow> u8 list" where
  "xattr_rec name val = [of_nat (length name), 0, of_nat (length val), of_nat (length val div 256)] @ name @ val"

text \<open>What \<^verbatim>\<open>Carafs_XattrSet\<close> does to the cnode's bytes, with the bytes it leaves behind when it fails.\<close>

definition xattr_set_block :: "u8 list \<Rightarrow> nat \<Rightarrow> u8 list \<Rightarrow> u8 list \<Rightarrow> unit result \<times> u8 list" where
  "xattr_set_block b bs name val =
    (let (b1, base_len) = (case carafs_item_find b CARAFS_ITEM_XATTR of None \<Rightarrow> (b, 0)
           | Some (p, plen) \<Rightarrow> (case xattr_close (rd plen b p) name of (q, n) \<Rightarrow> (wr b p q, n)));
         newrec = 4 + length name + length val
     in if base_len + newrec > CARAFS_XATTR_VALUE_MAX then (Inl CARA_EOVERFLOW, b1)
        else case carafs_item_resize b1 bs CARAFS_ITEM_XATTR (base_len + newrec) of
          Inl e \<Rightarrow> (Inl e, b1)
        | Inr (np, b2) \<Rightarrow> (Inr (), wr b2 (np + base_len) (xattr_rec name val)))"

definition xattr_remove_block :: "u8 list \<Rightarrow> nat \<Rightarrow> u8 list \<Rightarrow> unit result \<times> u8 list" where
  "xattr_remove_block b bs name =
    (case carafs_item_find b CARAFS_ITEM_XATTR of None \<Rightarrow> (Inl CARA_ENOENT, b)
     | Some (p, plen) \<Rightarrow>
         (case xattr_find (rd plen b p) name of None \<Rightarrow> (Inl CARA_ENOENT, b)
          | Some (off, rsize) \<Rightarrow>
              (let b1 = wr b p (memmv (rd plen b p) off (off + rsize) (plen - off - rsize));
                   base_len = plen - rsize
               in if base_len = 0 then (Inr (), carafs_item_remove b1 CARAFS_ITEM_XATTR)
                  else case carafs_item_resize b1 bs CARAFS_ITEM_XATTR base_len of
                    Inl e \<Rightarrow> (Inl e, b1) | Inr (_, b2) \<Rightarrow> (Inr (), b2))))"

text \<open>The bracket both attribute mutators share.\<close>

definition cnode_edit :: "u64 \<Rightarrow> (u8 list \<Rightarrow> nat \<Rightarrow> unit result \<times> u8 list) \<Rightarrow> unit op" where
  "cnode_edit cnode f =
    and_then carafs_op_begin
      (\<lambda>_ m1. case carafs_cnode_get cnode m1 of
         (Inl e, m2) \<Rightarrow> (Inl e, carafs_op_abort m2)
       | (Inr i, m2) \<Rightarrow>
           (case f (ce_data (ents m2 ! i)) (m_block_size m2) of
              (Inl e, b) \<Rightarrow> (Inl e, carafs_op_abort (carafs_cnode_put i (upd_data i (\<lambda>_. b) m2)))
            | (Inr _, b) \<Rightarrow>
                (case carafs_cnode_dirty i (upd_data i (\<lambda>_. b) m2) of
                   (Inl e, m3) \<Rightarrow> (Inl e, carafs_op_abort (carafs_cnode_put i m3))
                 | (Inr _, m3) \<Rightarrow> carafs_op_commit (carafs_cnode_put i m3))))"

definition Carafs_XattrSet :: "u64 \<Rightarrow> u8 list \<Rightarrow> u8 list \<Rightarrow> unit op" where
  "Carafs_XattrSet cnode name val m =
    (if length name = 0 \<or> length name > CARAFS_XATTR_NAME_MAX \<or> length val > CARAFS_XATTR_VALUE_MAX
     then (Inl CARA_EINVAL, m)
     else cnode_edit cnode (\<lambda>b bs. xattr_set_block b bs name val) m)"

definition Carafs_XattrRemove :: "u64 \<Rightarrow> u8 list \<Rightarrow> unit op" where
  "Carafs_XattrRemove cnode name m =
    (if length name = 0 \<or> length name > CARAFS_XATTR_NAME_MAX then (Inl CARA_EINVAL, m)
     else cnode_edit cnode (\<lambda>b bs. xattr_remove_block b bs name) m)"

section \<open>Formatting\<close>

record CarafsMkfsOpts =
  mk_block_size_log2 :: u32
  mk_name :: "u8 list"
  mk_uuid :: "u8 list option"
  mk_now_ns :: u64

fun log2_loop :: "nat \<Rightarrow> nat" where
  "log2_loop b = (if b > 1 then Suc (log2_loop (b div 2)) else 0)"

definition fill_superblock :: "CarafsGeometry \<Rightarrow> CarafsMkfsOpts \<Rightarrow> u64 \<Rightarrow> CarafsSuperblock" where
  "fill_superblock g opts free_blocks =
    (let h1 = Carafs_NameHash (mk_name opts); h2 = (h1 XOR mk_now_ns opts) * 1099511628211 in
     sb_blank\<lparr>sb_magic := CARAFS_SB_MAGIC, sb_version := CARAFS_FORMAT_VERSION,
       sb_block_size_log2 := of_nat (log2_loop (unat (g_block_size g))), sb_state := CARAFS_STATE_CLEAN,
       sb_ag_size_blocks := g_ag_size g, sb_total_blocks := g_total_blocks g, sb_journal_start := g_journal_start g,
       sb_journal_blocks := g_journal_blocks g, sb_ag_count := g_ag_count g, sb_ag_first_block := g_ag_first g,
       sb_root_cnode := g_root_cnode g, sb_free_blocks := free_blocks, sb_backup_sb := g_backup_sb g,
       sb_uuid := (case mk_uuid opts of Some u \<Rightarrow> u | None \<Rightarrow> le_put 8 h1 @ le_put 8 h2),
       sb_name_len := of_nat (length (mk_name opts)),
       sb_name := mk_name opts @ replicate (63 - length (mk_name opts)) 0,
       sb_created_ns := mk_now_ns opts, sb_modified_ns := mk_now_ns opts\<rparr>)"

definition mkfs_ag_block :: "CarafsGeometry \<Rightarrow> nat \<Rightarrow> nat \<Rightarrow> u8 list \<times> u32" where
  "mkfs_ag_block g bs ag =
    (let start = g_ag_first g + of_nat ag * ucast (g_ag_size g);
         end_blk = (if start + ucast (g_ag_size g) < g_backup_sb g then start + ucast (g_ag_size g) else g_backup_sb g);
         covered = ucast (end_blk - start) :: u32;
         root_in = (g_root_cnode g \<ge> start \<and> g_root_cnode g < end_blk);
         bits0 = bm_set (replicate (bs - CARAFS_AG_BITS_OFF) 0) 0;
         bits1 = (if root_in then bm_set bits0 (unat (g_root_cnode g - start)) else bits0);
         bits2 = bm_set_run bits1 (unat covered) (unat (g_ag_size g) - unat covered);
         free = covered - (if root_in then 2 else 1);
         b0 = wr64 (wr32 (replicate bs 0) 0 CARAFS_MAGIC_BITMAP) 8 start;
         b1 = wr32 (put_bits b0 bits2) 16 free
     in (carafs_put_crc b1 bs 4, free))"

fun mkfs_groups :: "CarafsGeometry \<Rightarrow> nat \<Rightarrow> nat list \<Rightarrow> u64 \<Rightarrow> CarafsBdev \<Rightarrow> u64 result \<times> CarafsBdev" where
  "mkfs_groups g bs [] free_total d = (Inr free_total, d)"
| "mkfs_groups g bs (ag # ags) free_total d =
    (case mkfs_ag_block g bs ag of (b, free) \<Rightarrow>
       (case bdev_write d (g_ag_first g + of_nat ag * ucast (g_ag_size g)) b of
          (Inl e, d1) \<Rightarrow> (Inl e, d1)
        | (Inr _, d1) \<Rightarrow> mkfs_groups g bs ags (free_total + ucast free) d1))"

definition Carafs_Mkfs :: "CarafsMkfsOpts \<Rightarrow> nat \<Rightarrow> CarafsBdev \<Rightarrow> unit result \<times> CarafsBdev" where
  "Carafs_Mkfs opts scratch_bytes d =
    (let bs = unat (bd_block_size d);
         log2 = (if mk_block_size_log2 opts \<noteq> 0 then mk_block_size_log2 opts else CARAFS_DEF_BLOCK_LOG2) in
     if log2 < CARAFS_MIN_BLOCK_LOG2 \<or> log2 > CARAFS_MAX_BLOCK_LOG2 \<or> 2 ^ unat log2 \<noteq> bs then (Inl CARA_EINVAL, d)
     else if scratch_bytes < bs then (Inl CARA_EINVAL, d)
     else if length (mk_name opts) < 1 \<or> length (mk_name opts) > 63 \<or> \<not> Carafs_NameValid (mk_name opts) then (Inl CARA_EINVAL, d)
     else case carafs_geometry (bd_block_size d) (bd_n_blocks d) of
       Inl e \<Rightarrow> (Inl e, d)
     | Inr g \<Rightarrow>
         (case bdev_write d (g_journal_start g) (jsb_image bs 1 1) of
            (Inl e, d1) \<Rightarrow> (Inl e, d1)
          | (Inr _, d1) \<Rightarrow>
              (case mkfs_groups g bs [0..<unat (g_ag_count g)] 0 d1 of
                 (Inl e, d2) \<Rightarrow> (Inl e, d2)
               | (Inr free_total, d2) \<Rightarrow>
                   (case bdev_write d2 (g_root_cnode g)
                       (carafs_put_crc (cnode_image bs (g_root_cnode g) 1 CARAFS_T_DIR (mk_now_ns opts)) bs 4) of
                      (Inl e, d3) \<Rightarrow> (Inl e, d3)
                    | (Inr _, d3) \<Rightarrow>
                        (let sb = carafs_put_crc (wr (replicate bs 0) 0 (sb_bytes (fill_superblock g opts free_total))) bs 8 in
                         case bdev_write d3 (g_backup_sb g) sb of
                           (Inl e, d4) \<Rightarrow> (Inl e, d4)
                         | (Inr _, d4) \<Rightarrow>
                             (case bdev_write d4 0 sb of (Inl e, d5) \<Rightarrow> (Inl e, d5) | (Inr _, d5) \<Rightarrow> bdev_flush d5))))))"

end
