(* ===== verification/Carafs_Xattr.thy ===== *)
theory Carafs_Xattr
  imports Carafs_Cnode
begin

text \<open>
  The packed attribute list of \<^verbatim>\<open>src/logaic/carafs/xattr.c\<close> is a map from names to values: the records of an
  association list with distinct names, one after the other.  Looking a name up is \<^const>\<open>map_of\<close>, closing the
  gap of a record deletes the name, and a record put behind it binds the name again.  A set that does not fit
  fails after the gap was closed, so that the cached cnode has lost the attribute.
\<close>

unbundle bit_operations_syntax

section \<open>Encoding\<close>

definition enc_attrs :: "(u8 list \<times> u8 list) list \<Rightarrow> u8 list" where
  "enc_attrs as = concat (map (\<lambda>(n, v). xattr_rec n v) as)"

definition attrs_ok :: "(u8 list \<times> u8 list) list \<Rightarrow> bool" where
  "attrs_ok as \<longleftrightarrow> list_all (\<lambda>(n, v). length n \<le> 255 \<and> length v \<le> 65535) as \<and> distinct (map fst as)"

lemma enc_attrs_simps [simp]:
  "enc_attrs [] = []" "enc_attrs ((n, v) # as) = xattr_rec n v @ enc_attrs as"
  "enc_attrs (as @ bs) = enc_attrs as @ enc_attrs bs"
  by (simp_all add: enc_attrs_def)

lemma length_xattr_rec [simp]: "length (xattr_rec n v) = 4 + length n + length v"
  by (simp add: xattr_rec_def)

lemma val_len_decode:
  assumes "l \<le> 65535"
  shows "unat ((ucast (of_nat l :: u8) :: u32) OR push_bit 8 (ucast (of_nat (l div 256) :: u8))) = l"
proof -
  have hi: "n < 16" if "bit l n" for n
  proof (rule ccontr)
    assume "\<not> n < 16"
    then have "l < 2 ^ n" using assms power_increasing [of 16 n "2 :: nat"] by simp
    then show False using that by (simp add: bit_iff_odd)
  qed
  moreover have "l div 256 = drop_bit 8 l" by (simp add: drop_bit_eq_div)
  ultimately have "(ucast (of_nat l :: u8) :: u32) OR push_bit 8 (ucast (of_nat (l div 256) :: u8)) = of_nat l"
    by (intro bit_word_eqI) (auto simp: bit_simps not_less less_diff_conv2 dest: hi)
  then show ?thesis using assms by (simp add: unat_of_nat)
qed

lemma rec_fields:
  assumes "length n \<le> 255" and "length v \<le> 65535"
  shows "rec_name_len (pre @ xattr_rec n v @ post) (length pre) = length n"
    "rec_val_len (pre @ xattr_rec n v @ post) (length pre) = length v"
    "rd (length n) (pre @ xattr_rec n v @ post) (length pre + 4) = n"
    "rd (length v) (pre @ xattr_rec n v @ post) (length pre + 4 + length n) = v"
proof -
  obtain h where "xattr_rec n v = h @ n @ v" "length h = 4" by (simp add: xattr_rec_def)
  then show "rd (length v) (pre @ xattr_rec n v @ post) (length pre + 4 + length n) = v"
    by (simp add: rd_def)
qed (use assms val_len_decode [OF assms(2)] in
    \<open>simp_all add: rec_name_len_def rec_val_len_def xattr_rec_def nth_append rd_def unat_of_nat\<close>)

section \<open>Lookup\<close>

lemma xattr_find_step:
  assumes "length n \<le> 255" and "length v \<le> 65535"
  shows "xattr_find_from (pre @ xattr_rec n v @ post) name (length pre) =
    (if n = name then Some (length pre, length (xattr_rec n v))
     else xattr_find_from (pre @ xattr_rec n v @ post) name (length pre + length (xattr_rec n v)))"
proof -
  let ?p = "pre @ xattr_rec n v @ post"
  note f = rec_fields [OF assms, of pre post]
  have hit: "length n = length name \<and> rd (length name) ?p (length pre + 4) = name \<longleftrightarrow> n = name"
    using f(3) by auto
  show ?thesis
    by (subst xattr_find_from.simps) (simp add: Let_def f(1,2) hit add.assoc del: append_assoc)
qed

lemma xattr_find_enc:
  assumes "attrs_ok as"
  shows "xattr_find_from (pre @ enc_attrs as) name (length pre) =
    (if name \<in> fst ` set as
     then Some (length (pre @ enc_attrs (takeWhile (\<lambda>a. fst a \<noteq> name) as)),
                4 + length name + length (the (map_of as name)))
     else None)"
  using assms
proof (induction "as" arbitrary: pre)
  case Nil
  then show ?case by (simp add: xattr_find_from.simps)
next
  case (Cons a as)
  obtain n v where a: "a = (n, v)" by fastforce
  have len: "length n \<le> 255" "length v \<le> 65535" and ok: "attrs_ok as" using Cons.prems by (auto simp: attrs_ok_def a)
  note step = xattr_find_step [OF len, of pre "enc_attrs as" name]
  show ?case
  proof (cases "n = name")
    case True
    then show ?thesis using step by (simp add: a)
  next
    case False
    have "xattr_find_from (pre @ enc_attrs (a # as)) name (length pre) =
      xattr_find_from ((pre @ xattr_rec n v) @ enc_attrs as) name (length (pre @ xattr_rec n v))"
      using step False by (simp add: a)
    then show ?thesis using Cons.IH [OF ok, of "pre @ xattr_rec n v"] False by (auto simp: a)
  qed
qed

text \<open>Around the record of a bound name.\<close>

lemma split_attr:
  assumes "attrs_ok as" and "map_of as name = Some v"
  obtains xs ys where "as = xs @ (name, v) # ys" "takeWhile (\<lambda>a. fst a \<noteq> name) as = xs"
    "filter (\<lambda>a. fst a \<noteq> name) as = xs @ ys"
proof -
  have d: "distinct (map fst as)" using assms by (simp add: attrs_ok_def)
  obtain xs ys where s: "as = xs @ (name, v) # ys" using assms(2) map_of_SomeD split_list by metis
  then have "name \<notin> fst ` set xs" "name \<notin> fst ` set ys" using d by auto
  then have "\<forall>a \<in> set xs. fst a \<noteq> name" "\<forall>a \<in> set ys. fst a \<noteq> name" by force+
  then show ?thesis using that [OF s] s by (simp add: takeWhile_append)
qed

lemma xattr_value_enc:
  assumes "attrs_ok as"
  shows "xattr_value (enc_attrs as) name = map_of as name"
proof (cases "map_of as name")
  case None
  then have "name \<notin> fst ` set as" by (simp add: map_of_eq_None_iff)
  then show ?thesis using xattr_find_enc [OF assms, of "[]" name] None by (simp add: xattr_value_def xattr_find_def)
next
  case (Some v)
  then obtain xs ys where s: "as = xs @ (name, v) # ys" "takeWhile (\<lambda>a. fst a \<noteq> name) as = xs"
    by (rule split_attr [OF assms])
  have len: "length name \<le> 255" "length v \<le> 65535" using assms by (auto simp: attrs_ok_def s(1))
  have "name \<in> fst ` set as" using s(1) by force
  then have "xattr_find (enc_attrs as) name = Some (length (enc_attrs xs), 4 + length name + length v)"
    using xattr_find_enc [OF assms, of "[]" name] s(2) Some by (simp add: xattr_find_def)
  then show ?thesis
    using rec_fields [OF len, of "enc_attrs xs" "enc_attrs ys"] Some by (simp add: xattr_value_def s(1))
qed

lemma memmv_gap:
  "\<exists>t. memmv (a @ r @ c) (length a) (length a + length r) (length c) = a @ c @ t \<and> length t = length r"
proof (intro exI conjI)
  show "memmv (a @ r @ c) (length a) (length a + length r) (length c) = a @ c @ drop (length c) (r @ c)"
    by (simp add: memmv_def rd_def wr_def)
  show "length (drop (length c) (r @ c)) = length r" by (simp del: drop_append)
qed

lemma xattr_close_enc:
  assumes "attrs_ok as"
  shows "case xattr_close (enc_attrs as) name of (q, k) \<Rightarrow>
    length q = length (enc_attrs as) \<and> k \<le> length q \<and> take k q = enc_attrs (filter (\<lambda>a. fst a \<noteq> name) as)"
proof (cases "map_of as name")
  case None
  then have "name \<notin> fst ` set as" by (simp add: map_of_eq_None_iff)
  then have "filter (\<lambda>a. fst a \<noteq> name) as = as" by (auto simp: filter_id_conv)
  then show ?thesis using None xattr_find_enc [OF assms, of "[]" name]
    by (simp add: xattr_close_def xattr_find_def map_of_eq_None_iff)
next
  case (Some v)
  then obtain xs ys where s: "as = xs @ (name, v) # ys" "takeWhile (\<lambda>a. fst a \<noteq> name) as = xs"
    "filter (\<lambda>a. fst a \<noteq> name) as = xs @ ys"
    by (rule split_attr [OF assms])
  have "name \<in> fst ` set as" using s(1) by force
  then have f: "xattr_find (enc_attrs as) name = Some (length (enc_attrs xs), 4 + length name + length v)"
    using xattr_find_enc [OF assms, of "[]" name] s(2) Some by (simp add: xattr_find_def)
  have E: "enc_attrs as = enc_attrs xs @ xattr_rec name v @ enc_attrs ys" by (simp add: s(1))
  obtain t where t: "memmv (enc_attrs as) (length (enc_attrs xs)) (length (enc_attrs xs) + length (xattr_rec name v))
      (length (enc_attrs ys)) = enc_attrs xs @ enc_attrs ys @ t" "length t = length (xattr_rec name v)"
    using memmv_gap [of "enc_attrs xs" "xattr_rec name v" "enc_attrs ys"] unfolding E by blast
  have "xattr_close (enc_attrs as) name = (enc_attrs xs @ enc_attrs ys @ t, length (enc_attrs xs) + length (enc_attrs ys))"
    using t(1) unfolding xattr_close_def f by (simp add: E)
  then show ?thesis using t(2) by (simp add: s(3)) (simp add: E)
qed

section \<open>The attribute map\<close>

text \<open>What a client of a name-value store relies on.\<close>

locale attr_store =
  fixes ok :: "'s \<Rightarrow> bool" and get :: "'s \<Rightarrow> u8 list \<Rightarrow> u8 list option"
    and put :: "'s \<Rightarrow> u8 list \<Rightarrow> u8 list \<Rightarrow> 's" and del :: "'s \<Rightarrow> u8 list \<Rightarrow> 's"
  assumes get_put: "ok s \<Longrightarrow> length n \<le> 255 \<Longrightarrow> length v \<le> 65535 \<Longrightarrow> get (put s n v) k = (if k = n then Some v else get s k)"
    and get_del: "ok s \<Longrightarrow> get (del s n) k = (if k = n then None else get s k)"
    and ok_put: "ok s \<Longrightarrow> length n \<le> 255 \<Longrightarrow> length v \<le> 65535 \<Longrightarrow> ok (put s n v)"
    and ok_del: "ok s \<Longrightarrow> ok (del s n)"
begin

lemma put_put:
  assumes "ok s" "length n \<le> 255" "length v \<le> 65535" "length w \<le> 65535"
  shows "get (put (put s n v) n w) = get (put s n w)"
  using assms by (simp add: fun_eq_iff get_put ok_put)

lemma del_put_other:
  assumes "ok s" "length n \<le> 255" "length v \<le> 65535" "n \<noteq> k"
  shows "get (del (put s n v) k) = get (put (del s k) n v)"
  using assms by (auto simp: fun_eq_iff get_put get_del ok_put ok_del)

end

text \<open>Payloads that hold an attribute list, and the updates \<^verbatim>\<open>Carafs_XattrSet\<close> and \<^verbatim>\<open>Carafs_XattrRemove\<close> make of them.\<close>

definition payload_ok :: "u8 list \<Rightarrow> bool" where
  "payload_ok p \<longleftrightarrow> (\<exists>as. attrs_ok as \<and> p = enc_attrs as)"

definition payload_del :: "u8 list \<Rightarrow> u8 list \<Rightarrow> u8 list" where
  "payload_del p name = (case xattr_close p name of (q, n) \<Rightarrow> take n q)"

definition payload_set :: "u8 list \<Rightarrow> u8 list \<Rightarrow> u8 list \<Rightarrow> u8 list" where
  "payload_set p name val = payload_del p name @ xattr_rec name val"

lemma payload_del_enc: "attrs_ok as \<Longrightarrow> payload_del (enc_attrs as) name = enc_attrs (filter (\<lambda>a. fst a \<noteq> name) as)"
  using xattr_close_enc [of "as" name] by (simp add: payload_del_def split: prod.splits)

lemma attrs_ok_filter: "attrs_ok as \<Longrightarrow> attrs_ok (filter P as)"
  by (auto simp: attrs_ok_def list_all_iff distinct_map_filter)

lemma attrs_ok_set:
  "attrs_ok as \<Longrightarrow> length n \<le> 255 \<Longrightarrow> length v \<le> 65535 \<Longrightarrow> attrs_ok (filter (\<lambda>a. fst a \<noteq> n) as @ [(n, v)])"
  using attrs_ok_filter [of "as" "\<lambda>a. fst a \<noteq> n"] by (auto simp: attrs_ok_def)

lemma payload_set_enc:
  "attrs_ok as \<Longrightarrow> payload_set (enc_attrs as) n v = enc_attrs (filter (\<lambda>a. fst a \<noteq> n) as @ [(n, v)])"
  by (simp add: payload_set_def payload_del_enc)

lemma map_of_del: "map_of (filter (\<lambda>a. fst a \<noteq> n) as) k = (if k = n then None else map_of as k)"
  by (induction "as") auto

lemma map_of_set: "map_of (filter (\<lambda>a. fst a \<noteq> n) as @ [(n, v)]) k = (if k = n then Some v else map_of as k)"
  by (induction "as") auto

interpretation attrs: attr_store payload_ok xattr_value payload_set payload_del
proof
  fix s n v k :: "u8 list"
  assume s: "payload_ok s" and l: "length n \<le> 255" "length v \<le> 65535"
  obtain as where a: "attrs_ok as" "s = enc_attrs as" using s by (auto simp: payload_ok_def)
  show "xattr_value (payload_set s n v) k = (if k = n then Some v else xattr_value s k)"
    using a attrs_ok_set [OF a(1) l] by (simp add: payload_set_enc xattr_value_enc map_of_set del: enc_attrs_simps map_of_append)
  show "payload_ok (payload_set s n v)"
    unfolding payload_ok_def a(2) payload_set_enc [OF a(1)] using attrs_ok_set [OF a(1) l] by blast
next
  fix s n k :: "u8 list"
  assume s: "payload_ok s"
  obtain as where a: "attrs_ok as" "s = enc_attrs as" using s by (auto simp: payload_ok_def)
  show "xattr_value (payload_del s n) k = (if k = n then None else xattr_value s k)"
    using a attrs_ok_filter [OF a(1)] by (simp add: payload_del_enc xattr_value_enc map_of_del)
  show "payload_ok (payload_del s n)"
    unfolding payload_ok_def a(2) payload_del_enc [OF a(1)] using attrs_ok_filter [OF a(1)] by blast
qed

section \<open>Properties\<close>



section \<open>Witnesses\<close>


text \<open>A cnode whose item area holds one attribute \<^verbatim>\<open>a\<close> of one byte.\<close>

definition cnode_ex :: "u8 list" where
  "cnode_ex = replicate 100 0 @ [16, 0, 0, 0] @ replicate 256 0 @ [3, 0] @ [6, 0] @ xattr_rec [0x61] [0x62] @ replicate 6 0"

lemma cnode_ex_item: "carafs_item_find cnode_ex CARAFS_ITEM_XATTR = Some (364, 6)"
proof -
  have "rd 4 cnode_ex 100 = [16, 0, 0, 0]" "rd 2 cnode_ex 360 = [3, 0]" "rd 2 cnode_ex 362 = [6, 0]"
    unfolding cnode_ex_def by (simp_all add: rd_skip rd_def)
  then have "rd32 cnode_ex 100 = 16" "rd16 cnode_ex 360 = 3" "rd16 cnode_ex 362 = 6"
    by (simp_all add: rd32_def rd16_def)
  then show ?thesis
    by (simp add: carafs_item_find_def item_off_def item_off_from.simps CARAFS_ITEM_XATTR_def CARAFS_CNODE_ITEMS_OFF_def)
qed


end
