(* ===== verification/Spec2Isabelle.thy ===== *)
theory Spec2Isabelle
  imports Ring_Buffer Kobj_Handles Exec_Lists Phys_Pages Page_Tables Scheduler Tag_Lists Phys_Map Kernel_Heap Semaphores Msg_Ports Gpt_Table Carafs_Format Carafs_Xattr
begin

text \<open>
  Verification library for Cara OS, an AmigaOS-style single-address-space operating system in C:
  the kernel Croi under \<^verbatim>\<open>src/croi\<close>, the portable logic under \<^verbatim>\<open>src/logaic\<close> (the CaraFS file
  system) and user programs.  Kernel tasks are scheduled cooperatively by priority and
  communicate through signals, exec lists and shared rings; kernel resources are named by
  handles; memory comes from a physical page allocator and Sv39 page tables; files live on
  CaraFS, which sees the disk through a block device seam and a write-back cache.

  \<^bold>\<open>Theories and the code they model\<close>

  \<^item> \<open>Prelude\<close>: integer names and error codes of \<^verbatim>\<open>include/cara/types.h\<close>, word arithmetic,
    little-endian fields in byte buffers, bitmaps (the bit helpers of \<^verbatim>\<open>page_alloc.c\<close> and
    \<^verbatim>\<open>alloc.c\<close>).
  \<^item> \<open>Ring_Buffer\<close>: the SPSC ring of \<^verbatim>\<open>include/cara/ring.h\<close>, its operations and the interleaving of
    the atomic accesses of producer and consumer as a step relation.  No slot is lost or
    duplicated in any interleaving; the wake-up flag can be missed.
  \<^item> \<open>Kobj_Handles\<close>: \<^verbatim>\<open>src/croi/kobj\<close>, reference counts and handle tables with their free list.
    Open and close meet the map contract, counts balance, and a 16-bit generation wraps.
  \<^item> \<open>Exec_Lists\<close>: \<^verbatim>\<open>include/cara/list.h\<close> and \<^verbatim>\<open>src/croi/exec_lib/list_ops.c\<close> over an explicit store of
    pointer cells.  The calls implement a sequence; the walks of Enqueue and FindName are partial
    functions proved to return on well-formed lists.
  \<^item> \<open>Phys_Pages\<close>: \<^verbatim>\<open>src/croi/mm/page_alloc.c\<close>, runs with bitmaps.  Allocation is sound, fails only
    when no run fits, and freeing undoes it.
  \<^item> \<open>Page_Tables\<close>: \<^verbatim>\<open>src/croi/mm/pt.c\<close> and the RISC-V entry encoding, over physical memory as
    64-bit words; the encoding lemmas of table entries.
  \<^item> \<open>Scheduler\<close>: \<^verbatim>\<open>src/croi/sched/sched.c\<close>, queues as lists of task ids, signals, nesting counters.
    No wake-up is lost on any sequence of calls; dispatch follows priority.  A task suspended in
    \<^verbatim>\<open>Croi_Wait\<close> keeps its mask in \<open>wait_loop\<close> and re-checks when it is dispatched.
  \<^item> \<open>Semaphores\<close>: \<^verbatim>\<open>src/croi/exec_lib/sem.c\<close> over the scheduler; the executions of tasks that share a
    semaphore keep mutual exclusion and leave no waiter behind.
  \<^item> \<open>Msg_Ports\<close>: \<^verbatim>\<open>src/croi/ipc/msgport.c\<close>, \<^verbatim>\<open>src/croi/exec_lib/ipc.c\<close> and the shims of \<^verbatim>\<open>signal.c\<close> over the
    ring, the kernel objects and the scheduler; no message and no wake-up is lost while the owner
    drains its port before it waits.
  \<^item> \<open>Device_Tree\<close>: \<^verbatim>\<open>src/croi/fdt\<close>, the blob as a function from offsets to bytes, 32-bit offsets that
    wrap; the calls return on every accepted blob and property lookup stays inside of it.
  \<^item> \<open>Phys_Map\<close>: \<^verbatim>\<open>src/croi/mm/physmap.c\<close>, the usable runs as sets of addresses.
  \<^item> \<open>Kernel_Heap\<close>: \<^verbatim>\<open>src/croi/mm/heap.c\<close> and \<^verbatim>\<open>src/croi/exec_lib/mem.c\<close> over the page allocator and its
    memory words; a slab page is carved into a well-formed free list and a freed object is reused.
  \<^item> \<open>Tag_Lists\<close>: \<^verbatim>\<open>src/croi/utility_lib/tag_ops.c\<close> and \<^verbatim>\<open>src/croi/util/tagitem.c\<close>; the walk loops are
    partial functions that return exactly on the walks described by \<open>tag_walk\<close>.
  \<^item> \<open>Gpt_Table\<close>: \<^verbatim>\<open>src/logaic/gpt/gpt.c\<close> over an arbitrary block device; the search for a volume ends on
    every device, a partition it finds lies inside the disk, and written headers verify.
  \<^item> \<open>Carafs_Format\<close>: \<^verbatim>\<open>include/cara/carafs.h\<close> and \<^verbatim>\<open>src/logaic/carafs/format.c\<close>.  The CRC is the
    polynomial one, block checksums verify and detect short bursts, folded names and hashes agree.
  \<^item> \<open>Carafs_Cache\<close>, \<open>Carafs_Cache_View\<close>: \<^verbatim>\<open>bdev.c\<close> and \<^verbatim>\<open>cache.c\<close>: devices with pending writes and I/O
    errors, geometry, the cache with its index and LRU list, transaction membership; the cache is
    transparent.
  \<^item> \<open>Carafs_Journal\<close>: \<^verbatim>\<open>journal.c\<close>, the commit of \<^verbatim>\<open>cache.c\<close> and \<^verbatim>\<open>mount.c\<close>: log records, append, replay,
    checkpoint, mounting and the operation bracket.
  \<^item> \<open>Carafs_Alloc\<close>: \<^verbatim>\<open>alloc.c\<close>: allocation grants free blocks only, keeps exact counts and checksums, and
    freeing undoes it.
  \<^item> \<open>Carafs_Cnode\<close>: \<^verbatim>\<open>cnode.c\<close>, \<^verbatim>\<open>xattr.c\<close>, \<^verbatim>\<open>mkfs.c\<close>: cnode access, the item area, attributes, formatting.
  \<^item> \<open>Carafs_Xattr\<close>: the packed attribute list implements a map; the overflow error path loses an attribute.

  \<^bold>\<open>Bounds and fuel\<close>  Loops are structural recursions or functions with a termination measure; the
  list walks, which need not end on a corrupt list, and the walks over tag lists and device trees
  are option-valued partial functions; the walks of accepted device trees are proved to return.
  Table walks of \<open>Page_Tables\<close> recurse on the level, at most three.  The replay loop is an
  option-valued partial function over transactions.

  \<^bold>\<open>Not modelled\<close>  Register contexts, trap entry, device registers and drivers (hardware I/O),
  console and log output, statistics counters; CaraFS files, trees, directories and the checker,
  the loader, the graphics and utility
  libraries and user programs are not modelled yet.
\<close>

end
